(* ===== verification/Prelude.thy ===== *)
theory Prelude
  imports Main "HOL-Library.Word" "HOL-Library.AList"
begin

text \<open>
  Shared vocabulary of the development: the machine integers of the C++ code, byte
  buffers, and the generic lemmas on lists, slices, words and association lists that the
  component theories share. An association list stands for \<^verbatim>\<open>std::unordered_map\<close> and
  for a \<^verbatim>\<open>std::map\<close> that the code never iterates: \<open>AList.update\<close> is
  \<^verbatim>\<open>operator[]\<close> / \<^verbatim>\<open>emplace\<close>, \<open>AList.delete\<close> is \<^verbatim>\<open>erase\<close>,
  \<open>map_of\<close> is \<^verbatim>\<open>find\<close>.
\<close>

unbundle bit_operations_syntax

section \<open>Machine integers and byte buffers\<close>

type_synonym u8 = "8 word"
type_synonym u16 = "16 word"
type_synonym u32 = "32 word"
type_synonym u64 = "64 word"
type_synonym i32 = "32 word"

type_synonym bytes = "u8 list"

text \<open>Nanoseconds on the steady clock (an unbounded integer; \<open>int64\<close> nanoseconds last 292 years).\<close>

type_synonym steady_time = int

named_theorems wire_simps \<open>equations that evaluate the byte-level encoders and decoders\<close>
named_theorems inv_intros \<open>preservation of the component invariants\<close>
named_theorems alist_simps \<open>lookups in updated association lists\<close>

section \<open>Slices of buffers\<close>

text \<open>\<open>cut b e xs\<close> is the half-open range \<open>[b, e)\<close> of a buffer, as the code's pairs of
  offsets describe it.\<close>

definition cut :: "nat \<Rightarrow> nat \<Rightarrow> 'a list \<Rightarrow> 'a list" where
  "cut b e xs = take (e - b) (drop b xs)"

lemma length_cut [simp]: "e \<le> length xs \<Longrightarrow> length (cut b e xs) = e - b"
  by (simp add: cut_def)

lemma cut_empty [simp]: "cut b b xs = []"
  by (simp add: cut_def)

lemma cut_append_mid: "cut (length xs) (length xs + length ys) (xs @ ys @ zs) = ys"
  by (simp add: cut_def)

lemma cut_mid:
  "b = length xs \<Longrightarrow> e = b + length ys \<Longrightarrow> cut b e (xs @ ys @ zs) = ys"
  by (simp add: cut_def)

lemma nth_append_mid: "i = length xs + j \<Longrightarrow> j < length ys \<Longrightarrow> (xs @ ys @ zs) ! i = ys ! j"
  by (simp add: nth_append)

lemma take_drop_Cons: "i < length xs \<Longrightarrow> take n (drop i xs) = (case n of 0 \<Rightarrow> [] | Suc m \<Rightarrow> xs ! i # take m (drop (Suc i) xs))"
  by (cases n) (simp_all add: Cons_nth_drop_Suc [symmetric])

lemma cut_outside:
  assumes "length m = length m'" "\<And>i. i < length m' \<Longrightarrow> i < p \<or> p + n \<le> i \<Longrightarrow> m ! i = m' ! i" "e \<le> p \<or> p + n \<le> s"
  shows "cut s e m = cut s e m'"
proof (rule nth_equalityI)
  show "length (cut s e m) = length (cut s e m')" using assms(1) by (simp add: cut_def)
  fix i assume "i < length (cut s e m)"
  then have "i < e - s" "s + i < length m" by (auto simp: cut_def)
  then show "cut s e m ! i = cut s e m' ! i" using assms(1) assms(2) [of "s + i"] assms(3) by (simp add: cut_def) linarith
qed

section \<open>Association lists\<close>

declare update_conv' [alist_simps] delete_conv' [alist_simps]

lemma map_of_update_Some [alist_simps]: "map_of (AList.update k v al) k' = (if k' = k then Some v else map_of al k')"
  by (simp add: update_conv')

lemma map_of_delete [alist_simps]: "map_of (AList.delete k al) k' = (if k' = k then None else map_of al k')"
  by (simp add: delete_conv')

lemma length_delete_le: "length (AList.delete k al) \<le> length al"
  by (induction al) auto

lemma length_update_new: "map_of al k = None \<Longrightarrow> AList.update k v al = al @ [(k, v)]"
  by (induction al) (auto split: if_splits)

lemma length_update_old: "map_of al k \<noteq> None \<Longrightarrow> length (AList.update k v al) = length al"
  by (induction al) (auto split: if_splits)

lemma keys_update_old: "map_of al k \<noteq> None \<Longrightarrow> map fst (AList.update k v al) = map fst al"
  by (induction al) (auto split: if_splits)

lemma distinct_keys_delete: "distinct (map fst al) \<Longrightarrow> distinct (map fst (AList.delete k al))"
  by (rule distinct_delete)

lemma update_same: "map_of al k = Some v \<Longrightarrow> AList.update k v al = al"
  by (induction al) (auto split: if_splits)

lemma update_mem: "(k, q) \<in> set (AList.update i v al) \<Longrightarrow> (k = i \<and> q = v) \<or> (k, q) \<in> set al"
  by (induction al) (auto split: if_splits)

lemma delete_mem: "(k, q) \<in> set (AList.delete i al) \<Longrightarrow> k \<noteq> i \<and> (k, q) \<in> set al"
  by (induction al) (auto split: if_splits)

lemma keys_delete_filter: "map fst (AList.delete i al) = filter (\<lambda>x. x \<noteq> i) (map fst al)"
  by (induction al) auto

lemma map_of_SomeI: "distinct (map fst al) \<Longrightarrow> (k, v) \<in> set al \<Longrightarrow> map_of al k = Some v"
  by (rule map_of_is_SomeI)

lemma map_of_None_iff: "map_of al k = None \<longleftrightarrow> k \<notin> fst ` set al"
  by (simp add: map_of_eq_None_iff)

section \<open>Words\<close>

lemma unat_of_nat_less [simp]: "n < 2 ^ LENGTH('a) \<Longrightarrow> unat (of_nat n :: 'a::len word) = n"
  by (simp add: unsigned_of_nat take_bit_nat_eq_self)

lemma unat_lt_pow: "unat (w :: 'a::len word) < 2 ^ LENGTH('a)"
  by (rule unsigned_less)

lemma u16_lt: "unat (w :: u16) < 65536"
  using unat_lt_pow [of w] by simp

lemma u8_lt: "unat (w :: u8) < 256"
  using unat_lt_pow [of w] by simp

text \<open>Distances on the circle of words: adding up steps and reading them back.\<close>

lemma unat_diff_circle:
  fixes a b :: "'a::len word"
  shows "unat (b - a) = (if unat a \<le> unat b then unat b - unat a else 2 ^ LENGTH('a) + unat b - unat a)"
  using unat_sub_if' [of b a] unat_lt_pow [of a] unat_lt_pow [of b] by (auto simp: not_le)

lemma word_step_inject:
  "i < 2 ^ LENGTH('a) \<Longrightarrow> j < 2 ^ LENGTH('a) \<Longrightarrow> (s + of_nat i :: 'a::len word) = s + of_nat j \<longleftrightarrow> i = j"
  by (metis add_left_imp_eq unat_of_nat_less)

text \<open>Bit-level facts for the packed header bytes: an octet is its eight bits.\<close>

lemma FF_mask: "(0xFF :: 'a::len word) = mask 8"
  by (simp add: mask_eq_exp_minus_1)

lemma u8_eqI:
  fixes a b :: u8
  assumes "bit a 0 = bit b 0" "bit a 1 = bit b 1" "bit a 2 = bit b 2" "bit a 3 = bit b 3"
    "bit a 4 = bit b 4" "bit a 5 = bit b 5" "bit a 6 = bit b 6" "bit a 7 = bit b 7"
  shows "a = b"
proof (rule bit_word_eqI)
  fix n assume "n < LENGTH(8)"
  then have "n \<in> {0, 1, 2, 3, 4, 5, 6, 7}" by auto
  with assms show "bit a n = bit b n" by blast
qed

lemma u8_mask_bit:
  "(b::u8) AND 0x80 = 0 \<longleftrightarrow> \<not> bit b 7" "b AND 0x40 = 0 \<longleftrightarrow> \<not> bit b 6"
  "b AND 0x20 = 0 \<longleftrightarrow> \<not> bit b 5" "b AND 0x10 = 0 \<longleftrightarrow> \<not> bit b 4"
  by (auto intro!: u8_eqI simp: bit_simps dest: arg_cong [where f = "\<lambda>w. bit w 7"]
      arg_cong [where f = "\<lambda>w. bit w 6"] arg_cong [where f = "\<lambda>w. bit w 5"]
      arg_cong [where f = "\<lambda>w. bit w 4"])

section \<open>C++ integer division\<close>

text \<open>Signed division truncates toward zero, as \<^verbatim>\<open>duration_cast\<close> does.\<close>

definition tdiv :: "int \<Rightarrow> int \<Rightarrow> int" where
  "tdiv a b = sgn a * sgn b * (\<bar>a\<bar> div \<bar>b\<bar>)"

lemma tdiv_nonneg: "0 \<le> a \<Longrightarrow> 0 < b \<Longrightarrow> tdiv a b = a div b"
  by (simp add: tdiv_def sgn_if)

lemma tdiv_neg: "a < 0 \<Longrightarrow> 0 < b \<Longrightarrow> tdiv a b = - ((- a) div b)"
  by (simp add: tdiv_def sgn_if)

lemma tdiv_bounds:
  assumes "0 < b"
  shows "\<bar>b * tdiv a b - a\<bar> < b"
proof (cases "0 \<le> a")
  case True
  then have "b * tdiv a b - a = - (a mod b)"
    using assms by (simp add: tdiv_nonneg minus_mod_eq_mult_div [symmetric])
  then show ?thesis using assms by (simp add: pos_mod_bound)
next
  case False
  then have "b * tdiv a b - a = (- a) mod b"
    using assms by (simp add: tdiv_neg minus_mod_eq_mult_div [symmetric])
  then show ?thesis using assms by (simp add: pos_mod_bound)
qed

lemma tdiv_1 [simp]: "tdiv a 1 = a"
  by (simp add: tdiv_def sgn_if)

section \<open>Decimal numerals\<close>

text \<open>\<^verbatim>\<open>std::to_string\<close> of a number without sign.\<close>

fun decimal :: "nat \<Rightarrow> string" where
  "decimal n = (if n < 10 then [char_of (48 + n)] else decimal (n div 10) @ [char_of (48 + n mod 10)])"

declare decimal.simps [simp del]

text \<open>\<^verbatim>\<open>std::atoi\<close>: leading white space, an optional sign, digits up to the first other
  character. A value outside \<^verbatim>\<open>int\<close> is undefined behaviour in C; here it is the number.\<close>

definition is_space :: "char \<Rightarrow> bool" where
  "is_space c \<longleftrightarrow> c = CHR '' '' \<or> (9 \<le> (of_char c :: nat) \<and> (of_char c :: nat) \<le> 13)"

definition is_digit :: "char \<Rightarrow> bool" where
  "is_digit c \<longleftrightarrow> 48 \<le> (of_char c :: nat) \<and> (of_char c :: nat) \<le> 57"

definition digits_value :: "string \<Rightarrow> int" where
  "digits_value ds = foldl (\<lambda>n c. 10 * n + (int (of_char c) - 48)) 0 ds"

definition atoi :: "string \<Rightarrow> int" where
  "atoi s = (case dropWhile is_space s of
     [] \<Rightarrow> 0
   | c # cs \<Rightarrow>
       if c = CHR ''-'' then - digits_value (takeWhile is_digit cs)
       else if c = CHR ''+'' then digits_value (takeWhile is_digit cs)
       else digits_value (takeWhile is_digit (c # cs)))"

lemma decimal_digits: "list_all is_digit (decimal n) \<and> decimal n \<noteq> []"
proof (induction n rule: decimal.induct)
  case (1 n)
  then show ?case by (cases "n < 10") (auto simp: decimal.simps [of n] is_digit_def)
qed

lemma digits_value_decimal: "digits_value (decimal n) = int n"
proof (induction n rule: decimal.induct)
  case (1 n)
  have d: "int (of_char (char_of (48 + k) :: char)) = 48 + int k" if "k < 10" for k :: nat
    using that by simp
  show ?case
  proof (cases "n < 10")
    case True
    then show ?thesis using d [of n] by (simp add: decimal.simps [of n] digits_value_def)
  next
    case False
    then have "digits_value (decimal n) = 10 * int (n div 10) + int (n mod 10)"
      using 1 d [of "n mod 10"] by (simp add: decimal.simps [of n] digits_value_def)
    then show ?thesis by presburger
  qed
qed

lemma atoi_decimal: "atoi (decimal n) = int n"
proof -
  obtain c cs where c: "decimal n = c # cs" using decimal_digits [of n] by (cases "decimal n") auto
  have "is_digit c" "list_all is_digit (c # cs)" using decimal_digits [of n] c by auto
  then have "\<not> is_space c" "c \<noteq> CHR ''-''" "c \<noteq> CHR ''+''" "takeWhile is_digit (c # cs) = c # cs"
    by (auto simp: is_digit_def is_space_def list_all_iff takeWhile_eq_all_conv)
  then show ?thesis using digits_value_decimal [of n] by (simp add: atoi_def c)
qed

end
