(* ===== verification/Double.thy ===== *)
theory Double
  imports Complex_Main Prelude
begin

text \<open>
  The IEEE-754 double of C++ as the rational number it stands for. An operation is the exact
  one followed by rounding to the nearest number with a significand of 53 bits, ties to even. Every
  value the modelled code computes is zero or a quotient of 64-bit numbers (at most scaled by 100), far from the
  range where a double overflows or loses precision; infinities and NaN do not occur.
\<close>

section \<open>Rounding\<close>

text \<open>The number of binary digits.\<close>

function bit_count :: "int \<Rightarrow> nat" where
  "bit_count n = (if n \<le> 0 then 0 else Suc (bit_count (n div 2)))"
  by auto

termination
  by (relation "measure nat") auto

declare bit_count.simps [simp del]

text \<open>The exponent of a positive number: \<open>2 powi expo x \<le> x < 2 powi (expo x + 1)\<close>.\<close>

definition expo :: "rat \<Rightarrow> int" where
  "expo x = (let (p, q) = quotient_of x; d = int (bit_count p) - int (bit_count q)
     in if 2 powi d \<le> x then d else d - 1)"

text \<open>The nearest integer, of two equally near ones the even one.\<close>

definition round_even :: "rat \<Rightarrow> int" where
  "round_even y = (let n = \<lfloor>y\<rfloor>; d = y - of_int n
     in if d < 1 / 2 \<or> d = 1 / 2 \<and> even n then n else n + 1)"

definition round_pos :: "rat \<Rightarrow> rat" where
  "round_pos x = (let u = 2 powi (expo x - 52) in of_int (round_even (x / u)) * u)"

definition rnd :: "rat \<Rightarrow> rat" where
  "rnd x = (if x = 0 then 0 else if x < 0 then - round_pos (- x) else round_pos x)"

section \<open>Operations\<close>

definition dmul :: "rat \<Rightarrow> rat \<Rightarrow> rat" where
  "dmul x y = rnd (x * y)"

definition ddiv :: "rat \<Rightarrow> rat \<Rightarrow> rat" where
  "ddiv x y = rnd (x / y)"

definition dadd :: "rat \<Rightarrow> rat \<Rightarrow> rat" where
  "dadd x y = rnd (x + y)"

definition d_of_int :: "int \<Rightarrow> rat" where
  "d_of_int i = rnd (of_int i)"

text \<open>\<^verbatim>\<open>static_cast<int>\<close> drops the fraction.\<close>

definition d_to_int :: "rat \<Rightarrow> int" where
  "d_to_int x = (if x < 0 then - \<lfloor>- x\<rfloor> else \<lfloor>x\<rfloor>)"

section \<open>The exponent\<close>

lemma bit_count_bounds: "0 < n \<Longrightarrow> 2 ^ (bit_count n - 1) \<le> n \<and> n < 2 ^ bit_count n"
proof (induction n rule: bit_count.induct)
  case (1 n)
  show ?case
  proof (cases "n div 2 \<le> 0")
    case True
    then have "n = 1" using "1.prems" by linarith
    then show ?thesis by (simp add: bit_count.simps)
  next
    case False
    then have ih: "2 ^ (bit_count (n div 2) - 1) \<le> n div 2" "n div 2 < 2 ^ bit_count (n div 2)" "bit_count (n div 2) \<noteq> 0"
      using 1 by (simp_all add: bit_count.simps [of "n div 2"])
    then obtain k where k: "bit_count (n div 2) = Suc k" using not0_implies_Suc by blast
    have "bit_count n = Suc (Suc k)" using "1.prems" k by (simp add: bit_count.simps [of n])
    then show ?thesis using ih k by simp linarith
  qed
qed

lemma powi_Suc: "(2 :: rat) powi (k + 1) = 2 * 2 powi k"
  by (simp add: power_int_add)

lemma powi_pos [simp]: "0 < (2 :: rat) powi e"
  by simp

lemma expo_bounds:
  assumes "0 < x" shows "2 powi expo x \<le> x" "x < 2 powi (expo x + 1)"
proof -
  obtain p q where pq: "quotient_of x = (p, q)" by force
  have x: "x = of_int p / of_int q" "0 < q" using pq quotient_of_div quotient_of_denom_pos by auto
  then have p: "0 < p" using assms by (simp add: zero_less_divide_iff)
  define m n where "m = bit_count p" and "n = bit_count q"
  have bp: "2 ^ (m - 1) \<le> p" "p < 2 ^ m" "0 < m" and bq: "2 ^ (n - 1) \<le> q" "q < 2 ^ n" "0 < n"
    using bit_count_bounds [of p] bit_count_bounds [of q] p x(2)
    by (simp_all add: m_def n_def bit_count.simps [of p] bit_count.simps [of q])
  have rp: "(2 :: rat) ^ (m - 1) \<le> of_int p" "(of_int p :: rat) < 2 ^ m"
    using bp(1,2) by (metis of_int_le_iff of_int_power of_int_numeral, metis of_int_less_iff of_int_power of_int_numeral)
  have rq: "(2 :: rat) ^ (n - 1) \<le> of_int q" "(of_int q :: rat) < 2 ^ n"
    using bq(1,2) by (metis of_int_le_iff of_int_power of_int_numeral, metis of_int_less_iff of_int_power of_int_numeral)
  let ?d = "int m - int n"
  have up: "x < 2 powi (?d + 1)"
  proof -
    have "x < 2 ^ m / of_int q" using rp(2) x by (simp add: divide_strict_right_mono)
    also have "\<dots> \<le> 2 ^ m / 2 ^ (n - 1)" using rq(1) by (intro divide_left_mono) (auto simp: x(2))
    also have "\<dots> = 2 powi (int m - int (n - 1))" by (simp add: power_int_diff)
    also have "int m - int (n - 1) = ?d + 1" using bq(3) by simp
    finally show ?thesis .
  qed
  have low: "2 powi (?d - 1) \<le> x"
  proof -
    have "2 powi (?d - 1) = (2 :: rat) powi (int (m - 1) - int n)" using bp(3) by (intro arg_cong [where f = "\<lambda>k. 2 powi k"]) simp
    also have "\<dots> = 2 ^ (m - 1) / 2 ^ n" by (simp add: power_int_diff)
    also have "\<dots> \<le> 2 ^ (m - 1) / of_int q" using rq(2) x(2) by (intro divide_left_mono) auto
    also have "\<dots> \<le> x" using rp(1) x by (simp add: divide_right_mono)
    finally show ?thesis .
  qed
  have e: "expo x = (if 2 powi ?d \<le> x then ?d else ?d - 1)"
    by (simp add: expo_def pq m_def n_def Let_def)
  show "2 powi expo x \<le> x" using low by (simp add: e)
  show "x < 2 powi (expo x + 1)" using up by (auto simp: e)
qed

lemma powi_mono: "a \<le> b \<Longrightarrow> (2 :: rat) powi a \<le> 2 powi b"
  by (simp add: power_int_increasing)

lemma expo_unique:
  assumes "0 < x" "2 powi e \<le> x" "x < 2 powi (e + 1)" shows "expo x = e"
proof -
  have "\<not> expo x + 1 \<le> e" using powi_mono [of "expo x + 1" e] expo_bounds [OF assms(1)] assms(2) by linarith
  moreover have "\<not> e + 1 \<le> expo x" using powi_mono [of "e + 1" "expo x"] expo_bounds [OF assms(1)] assms(3) by linarith
  ultimately show ?thesis by linarith
qed

lemma expo_mono: "0 < x \<Longrightarrow> x \<le> y \<Longrightarrow> expo x \<le> expo y"
  using powi_mono [of "expo y + 1" "expo x"] expo_bounds [of x] expo_bounds [of y] by linarith

section \<open>Rounding to integers\<close>

lemma round_even_of_int [simp]: "round_even (of_int n) = n"
  by (simp add: round_even_def)

lemma round_even_numeral [simp]: "round_even (numeral n) = numeral n"
  using round_even_of_int [of "numeral n"] by simp

lemma round_even_near: "\<bar>of_int (round_even y) - y\<bar> \<le> 1 / 2"
proof -
  define d where "d = y - of_int \<lfloor>y\<rfloor>"
  have "0 \<le> d" "d < 1" using floor_correct [of y] by (simp_all add: d_def)
  moreover have "of_int (round_even y) - y = (if d < 1 / 2 \<or> d = 1 / 2 \<and> even \<lfloor>y\<rfloor> then - d else 1 - d)"
    by (simp add: round_even_def Let_def d_def)
  ultimately show ?thesis by auto
qed

lemma round_even_mono: "x \<le> y \<Longrightarrow> round_even x \<le> round_even y"
proof -
  assume le: "x \<le> y"
  then have f: "\<lfloor>x\<rfloor> \<le> \<lfloor>y\<rfloor>" by (rule floor_mono)
  show ?thesis
  proof (cases "\<lfloor>x\<rfloor> = \<lfloor>y\<rfloor>")
    case True
    then show ?thesis using le by (auto simp: round_even_def Let_def)
  next
    case False
    then show ?thesis using f by (auto simp: round_even_def Let_def)
  qed
qed

section \<open>Rounding positive numbers\<close>

definition unit_of :: "rat \<Rightarrow> rat" where
  "unit_of x = 2 powi (expo x - 52)"

lemma unit_of_pos [simp]: "0 < unit_of x"
  by (simp add: unit_of_def)

lemma round_pos_unit: "round_pos x = of_int (round_even (x / unit_of x)) * unit_of x"
  by (simp add: round_pos_def unit_of_def Let_def)

lemma unit_scale: "2 powi expo x = 2 ^ 52 * unit_of x" "2 powi (expo x + 1) = 2 ^ 53 * unit_of x"
proof -
  have "(2 :: rat) powi e = 2 powi (int k) * 2 powi (e - int k)" for e k
    by (subst power_int_add [symmetric]) auto
  from this [of "expo x" 52] this [of "expo x + 1" 53]
  show "2 powi expo x = 2 ^ 52 * unit_of x" "2 powi (expo x + 1) = 2 ^ 53 * unit_of x"
    by (simp_all only: power_int_of_nat unit_of_def) (simp_all add: algebra_simps)
qed

lemma significand_bounds:
  assumes "0 < x"
  shows "2 ^ 52 \<le> round_even (x / unit_of x)" "round_even (x / unit_of x) \<le> 2 ^ 53"
proof -
  have "2 ^ 52 \<le> x / unit_of x" "x / unit_of x \<le> 2 ^ 53"
    using expo_bounds [OF assms] unfolding unit_scale by (simp_all add: field_simps)
  then show "2 ^ 52 \<le> round_even (x / unit_of x)" "round_even (x / unit_of x) \<le> 2 ^ 53"
    using round_even_mono [of "of_int (2 ^ 52)" "x / unit_of x"] round_even_mono [of "x / unit_of x" "of_int (2 ^ 53)"]
    by simp_all
qed

lemma round_pos_bounds:
  assumes "0 < x" shows "2 powi expo x \<le> round_pos x" "round_pos x \<le> 2 powi (expo x + 1)" "0 < round_pos x"
proof -
  note s = significand_bounds [OF assms]
  have "(of_int (2 ^ 52) :: rat) \<le> of_int (round_even (x / unit_of x))" "of_int (round_even (x / unit_of x)) \<le> (of_int (2 ^ 53) :: rat)"
    using s by (simp_all only: of_int_le_iff)
  then show "2 powi expo x \<le> round_pos x" "round_pos x \<le> 2 powi (expo x + 1)"
    unfolding unit_scale round_pos_unit by (simp_all add: mult_right_mono)
  then show "0 < round_pos x" using powi_pos [of "expo x"] by linarith
qed

lemma round_pos_mono: "0 < x \<Longrightarrow> x \<le> y \<Longrightarrow> round_pos x \<le> round_pos y"
proof -
  assume x: "0 < x" "x \<le> y"
  then have y: "0 < y" by linarith
  show ?thesis
  proof (cases "expo x = expo y")
    case True
    then have "unit_of x = unit_of y" by (simp add: unit_of_def)
    moreover have "x / unit_of y \<le> y / unit_of y" using x(2) by (simp add: divide_right_mono less_imp_le)
    ultimately show ?thesis by (simp add: round_pos_unit round_even_mono mult_right_mono less_imp_le)
  next
    case False
    then have "expo x + 1 \<le> expo y" using expo_mono [OF x] by simp
    then show ?thesis
      using round_pos_bounds(2) [OF x(1)] round_pos_bounds(1) [OF y] powi_mono [of "expo x + 1" "expo y"] by linarith
  qed
qed

lemma round_pos_near:
  assumes "0 < x" shows "\<bar>round_pos x - x\<bar> \<le> x / 2 ^ 53"
proof -
  have "round_pos x - x = (of_int (round_even (x / unit_of x)) - x / unit_of x) * unit_of x"
    using unit_of_pos [of x] by (simp add: round_pos_unit left_diff_distrib less_imp_neq [symmetric])
  then have "\<bar>round_pos x - x\<bar> = \<bar>of_int (round_even (x / unit_of x)) - x / unit_of x\<bar> * unit_of x"
    using abs_of_pos [OF unit_of_pos, of x] by (simp only: abs_mult)
  also have "\<dots> \<le> 1 / 2 * unit_of x" by (rule mult_right_mono [OF round_even_near]) (rule less_imp_le [OF unit_of_pos])
  also have "\<dots> \<le> x / 2 ^ 53" using expo_bounds(1) [OF assms] unfolding unit_scale by simp
  finally show ?thesis .
qed

lemma round_pos_exact:
  assumes "0 < m" "m \<le> 2 ^ 53" shows "round_pos (of_int m * 2 powi k) = of_int m * 2 powi k"
proof -
  let ?x = "of_int m * 2 powi k :: rat"
  have pos: "0 < ?x" using assms(1) by simp
  have "\<exists>n. ?x = of_int n * unit_of ?x"
  proof (cases "m = 2 ^ 53")
    case True
    then have "?x = 2 powi (53 + k)" by (simp add: power_int_add)
    moreover have "expo (2 powi (53 + k)) = 53 + k" using powi_Suc [of "53 + k"] by (intro expo_unique) auto
    ultimately have "?x = of_int (2 ^ 52) * unit_of ?x" using unit_scale(1) [of ?x] by simp
    then show ?thesis by blast
  next
    case False
    then have "(of_int m :: rat) < of_int (2 ^ 53)" using assms(2) by (simp only: of_int_less_iff)
    then have "?x < 2 ^ 53 * 2 powi k" by simp
    also have "\<dots> = 2 powi (53 + k)" by (simp add: power_int_add)
    finally have "\<not> 53 + k \<le> expo ?x" using expo_bounds(1) [OF pos] powi_mono [of "53 + k" "expo ?x"] by linarith
    then have "k = int (nat (k - (expo ?x - 52))) + (expo ?x - 52)" by simp
    then have "2 powi k = (2 :: rat) ^ nat (k - (expo ?x - 52)) * unit_of ?x"
      by (metis power_int_add power_int_of_nat unit_of_def zero_neq_numeral)
    then have "?x = of_int (m * 2 ^ nat (k - (expo ?x - 52))) * unit_of ?x" by simp
    then show ?thesis by blast
  qed
  then obtain n where n: "?x = of_int n * unit_of ?x" by blast
  then have "?x / unit_of ?x = of_int n" using unit_of_pos [of ?x] by (metis nonzero_mult_div_cancel_right less_irrefl)
  then show ?thesis using n by (simp add: round_pos_unit)
qed

section \<open>Doubles\<close>

lemma rnd_0 [simp]: "rnd 0 = 0"
  by (simp add: rnd_def)

lemma rnd_pos: "0 < x \<Longrightarrow> rnd x = round_pos x"
  by (simp add: rnd_def)

lemma rnd_nonneg: "0 \<le> x \<Longrightarrow> 0 \<le> rnd x"
  using round_pos_bounds(3) [of x] by (cases "x = 0") (simp_all add: rnd_def)

lemma rnd_minus: "rnd (- x) = - rnd x"
  by (simp add: rnd_def)

lemma rnd_mono: "x \<le> y \<Longrightarrow> rnd x \<le> rnd y"
proof -
  assume le: "x \<le> y"
  consider "x < 0" "y < 0" | "x \<le> 0" "0 \<le> y" | "0 < x" "0 < y" using le by linarith
  then show ?thesis
  proof cases
    case 1
    then show ?thesis using round_pos_mono [of "- y" "- x"] le by (simp add: rnd_def)
  next
    case 2
    then show ?thesis using rnd_nonneg [of y] rnd_nonneg [of "- x"] by (simp add: rnd_minus)
  next
    case 3
    then show ?thesis using round_pos_mono le by (simp add: rnd_def)
  qed
qed

lemma rnd_exact: "\<bar>m\<bar> \<le> 2 ^ 53 \<Longrightarrow> rnd (of_int m * 2 powi k) = of_int m * 2 powi k"
proof -
  assume m: "\<bar>m\<bar> \<le> 2 ^ 53"
  consider "m = 0" | "0 < m" | "m < 0" by linarith
  then show ?thesis
  proof cases
    case 2
    moreover from 2 have "0 < of_int m * (2 :: rat) powi k" by simp
    ultimately show ?thesis using round_pos_exact [of m k] m by (simp only: rnd_pos)
  next
    case 3
    then have "0 < of_int (- m) * (2 :: rat) powi k" by (intro mult_pos_pos) simp_all
    then have "rnd (of_int (- m) * 2 powi k) = of_int (- m) * 2 powi k"
      using 3 round_pos_exact [of "- m" k] m by (simp only: rnd_pos)
    then show ?thesis using rnd_minus [of "of_int m * 2 powi k"] by simp
  qed simp
qed

lemma rnd_of_int [simp]: "\<bar>m\<bar> \<le> 2 ^ 53 \<Longrightarrow> rnd (of_int m) = of_int m"
  using rnd_exact [of m 0] by simp

lemma rnd_of_nat [simp]: "n \<le> 2 ^ 53 \<Longrightarrow> rnd (of_nat n) = of_nat n"
  using rnd_of_int [of "int n"] by simp

lemma rnd_half: "\<bar>m\<bar> \<le> 2 ^ 53 \<Longrightarrow> rnd (of_int m / 2) = of_int m / 2"
proof -
  assume "\<bar>m\<bar> \<le> 2 ^ 53"
  moreover have "of_int m * 2 powi (- 1) = (of_int m / 2 :: rat)" by simp
  ultimately show ?thesis by (metis rnd_exact)
qed

lemma rnd_rnd [simp]: "rnd (rnd x) = rnd x"
proof -
  have pos: "rnd (rnd x) = rnd x" if "0 < x" for x
  proof -
    have "rnd x = of_int (round_even (x / unit_of x)) * 2 powi (expo x - 52)"
      using that by (simp add: rnd_pos round_pos_unit unit_of_def)
    moreover have "\<bar>round_even (x / unit_of x)\<bar> \<le> 2 ^ 53" using significand_bounds [OF that] by simp
    ultimately show ?thesis by (simp add: rnd_exact)
  qed
  consider "x = 0" | "0 < x" | "0 < - x" by linarith
  then show ?thesis
  proof cases
    case 3
    from pos [OF this] show ?thesis by (simp add: rnd_minus)
  qed (simp_all add: pos)
qed

lemma rnd_near: "0 \<le> x \<Longrightarrow> \<bar>rnd x - x\<bar> \<le> x / 2 ^ 53"
  using round_pos_near [of x] by (cases "x = 0") (simp_all add: rnd_pos)

text \<open>Rounding does not cross a double.\<close>

lemma rnd_le: "rnd a = a \<Longrightarrow> x \<le> a \<Longrightarrow> rnd x \<le> a"
  using rnd_mono [of x a] by simp

lemma rnd_ge: "rnd a = a \<Longrightarrow> a \<le> x \<Longrightarrow> a \<le> rnd x"
  using rnd_mono [of a x] by simp

lemma rnd_less_imp: "rnd a = a \<Longrightarrow> a < rnd x \<Longrightarrow> a < x"
  using rnd_le [of a x] by linarith

lemma d_of_int_exact [simp]: "\<bar>m\<bar> \<le> 2 ^ 53 \<Longrightarrow> d_of_int m = of_int m"
  by (simp add: d_of_int_def)

lemma d_to_int_nonneg: "0 \<le> x \<Longrightarrow> d_to_int x = \<lfloor>x\<rfloor>"
  by (simp add: d_to_int_def)

end
