(* ===== verification/Common.thy ===== *)
theory Common
  imports Prelude
begin

text \<open>
  The header-only contracts of src/src/common: the error taxonomy (Error.h), the
  exception-free \<^verbatim>\<open>Result\<close> (Result.h) as a sum with the error on the left, the media
  value types (Types.h) and the compressed access unit (EncodedFrame.h).
\<close>

section \<open>Error.h and Result.h\<close>

datatype error =
    Ok | NotFound | InvalidArgument | NotInitialized | AlreadyRunning | Unsupported
  | DeviceError | CodecError | NetworkError | Timeout | ResourceExhausted | Protocol | Internal

text \<open>The \<^verbatim>\<open>enum class\<close> counts its enumerators from 0 in declaration order.\<close>

fun error_code :: "error \<Rightarrow> nat" where
  "error_code Ok = 0"
| "error_code NotFound = 1"
| "error_code InvalidArgument = 2"
| "error_code NotInitialized = 3"
| "error_code AlreadyRunning = 4"
| "error_code Unsupported = 5"
| "error_code DeviceError = 6"
| "error_code CodecError = 7"
| "error_code NetworkError = 8"
| "error_code Timeout = 9"
| "error_code ResourceExhausted = 10"
| "error_code Protocol = 11"
| "error_code Internal = 12"

fun error_to_string :: "error \<Rightarrow> string" where
  "error_to_string Ok = ''Ok''"
| "error_to_string NotFound = ''NotFound''"
| "error_to_string InvalidArgument = ''InvalidArgument''"
| "error_to_string NotInitialized = ''NotInitialized''"
| "error_to_string AlreadyRunning = ''AlreadyRunning''"
| "error_to_string Unsupported = ''Unsupported''"
| "error_to_string DeviceError = ''DeviceError''"
| "error_to_string CodecError = ''CodecError''"
| "error_to_string NetworkError = ''NetworkError''"
| "error_to_string Timeout = ''Timeout''"
| "error_to_string ResourceExhausted = ''ResourceExhausted''"
| "error_to_string Protocol = ''Protocol''"
| "error_to_string Internal = ''Internal''"

lemma error_code_inject: "error_code a = error_code b \<longleftrightarrow> a = b"
  by (cases a; cases b) simp_all

text \<open>Scoped enumerators compare by their value.\<close>

instantiation error :: linorder
begin

definition less_eq_error :: "error \<Rightarrow> error \<Rightarrow> bool" where
  "less_eq_error a b \<longleftrightarrow> error_code a \<le> error_code b"

definition less_error :: "error \<Rightarrow> error \<Rightarrow> bool" where
  "less_error a b \<longleftrightarrow> error_code a < error_code b"

instance
  by standard (auto simp: less_eq_error_def less_error_def error_code_inject)

end

text \<open>\<^verbatim>\<open>Result<T, Error>\<close>: \<^verbatim>\<open>fail(e)\<close> is \<open>Inl e\<close>, a returned value is
  \<open>Inr v\<close>; \<^verbatim>\<open>Status\<close> carries \<^verbatim>\<open>Unit\<close>.\<close>

type_synonym 'a result = "error + 'a"
type_synonym status = "error + unit"

definition ok :: status where
  "ok = Inr ()"

definition fail :: "error \<Rightarrow> 'a result" where
  "fail e = Inl e"

fun has_value :: "'a result \<Rightarrow> bool" where
  "has_value (Inr _) = True"
| "has_value (Inl _) = False"

fun value_or :: "'a result \<Rightarrow> 'a \<Rightarrow> 'a" where
  "value_or (Inr v) d = v"
| "value_or (Inl _) d = d"

lemma fail_simps [simp]: "fail e \<noteq> Inr v" "fail e = Inl e' \<longleftrightarrow> e = e'" "Inr v \<noteq> fail e" "\<not> has_value (fail e)"
  "has_value ok"
  by (auto simp: fail_def ok_def)

section \<open>Types.h\<close>

datatype pixel_format = PF_Unknown | I420 | NV12 | YUYV | RGBA | BGRA

fun planeCount :: "pixel_format \<Rightarrow> nat" where
  "planeCount I420 = 3"
| "planeCount NV12 = 2"
| "planeCount YUYV = 1"
| "planeCount RGBA = 1"
| "planeCount BGRA = 1"
| "planeCount PF_Unknown = 0"

datatype media_kind = Video | Audio
datatype video_codec = H264 | VC_Unknown
datatype audio_codec = Opus | AC_Unknown

record audio_format =
  sampleRateHz :: int
  channels :: int

definition default_audio_format :: audio_format where
  "default_audio_format = \<lparr>sampleRateHz = 48000, channels = 1\<rparr>"

definition kVideoRtpClockHz :: u32 where
  "kVideoRtpClockHz = 90000"

definition kAudioRtpClockHz :: u32 where
  "kAudioRtpClockHz = 48000"

section \<open>EncodedFrame.h\<close>

text \<open>\<open>ef_payload\<close> is the shared pointer: \<open>None\<close> until \<^verbatim>\<open>setPayload\<close>.\<close>

record encoded_frame =
  ef_kind :: media_kind
  ef_videoCodec :: video_codec
  ef_audioCodec :: audio_codec
  ef_keyframe :: bool
  ef_rtpTimestamp :: u32
  ef_captureTime :: steady_time
  ef_payload :: "bytes option"

definition new_encoded_frame :: encoded_frame where
  "new_encoded_frame = \<lparr>ef_kind = Video, ef_videoCodec = VC_Unknown, ef_audioCodec = AC_Unknown,
     ef_keyframe = False, ef_rtpTimestamp = 0, ef_captureTime = 0, ef_payload = None\<rparr>"

definition ef_data :: "encoded_frame \<Rightarrow> bytes" where
  "ef_data f = (case ef_payload f of Some d \<Rightarrow> d | None \<Rightarrow> [])"

definition ef_size :: "encoded_frame \<Rightarrow> nat" where
  "ef_size f = (case ef_payload f of Some d \<Rightarrow> length d | None \<Rightarrow> 0)"

definition ef_empty :: "encoded_frame \<Rightarrow> bool" where
  "ef_empty f \<longleftrightarrow> ef_size f = 0"

definition setPayload :: "bytes \<Rightarrow> encoded_frame \<Rightarrow> encoded_frame" where
  "setPayload bs f = f\<lparr>ef_payload := Some bs\<rparr>"

lemma ef_size_data: "ef_size f = length (ef_data f)"
  by (simp add: ef_size_def ef_data_def split: option.splits)

lemma ef_empty_iff: "ef_empty f \<longleftrightarrow> ef_data f = []"
  by (simp add: ef_empty_def ef_size_data)

lemma setPayload_simps [simp]:
  "ef_data (setPayload bs f) = bs" "ef_kind (setPayload bs f) = ef_kind f"
  "ef_videoCodec (setPayload bs f) = ef_videoCodec f"
  "ef_audioCodec (setPayload bs f) = ef_audioCodec f"
  "ef_keyframe (setPayload bs f) = ef_keyframe f"
  "ef_rtpTimestamp (setPayload bs f) = ef_rtpTimestamp f"
  "ef_captureTime (setPayload bs f) = ef_captureTime f"
  by (simp_all add: setPayload_def ef_data_def)

end
