(* ===== verification/Serial.thy ===== *)
theory Serial
  imports Prelude
begin

text \<open>
  RFC 1982 serial-number arithmetic, the order the receive path is built on: 16-bit RTP
  sequence numbers (\<^verbatim>\<open>seqLessThan\<close>, src/src/network/RtpPacket.h) and 32-bit RTP
  timestamps (\<^verbatim>\<open>JitterBuffer::tsLessThan\<close>, src/src/network/JitterBuffer.h). Both are the
  same comparison at two widths, so their laws are proved once in the locale
  \<open>serial_order\<close> and interpreted on the two functions of the code. The relation is not
  transitive on the whole circle; on a window of half the circle it is the order of the
  offsets, which is what \<open>window_less\<close> states.
\<close>

section \<open>The comparisons of the code\<close>

definition seqLessThan :: "u16 \<Rightarrow> u16 \<Rightarrow> bool" where
  "seqLessThan a b \<longleftrightarrow> unat (b - a) < 0x8000 \<and> a \<noteq> b"

definition seqDistance :: "u16 \<Rightarrow> u16 \<Rightarrow> u16" where
  "seqDistance a b = b - a"

definition tsLessThan :: "u32 \<Rightarrow> u32 \<Rightarrow> bool" where
  "tsLessThan a b \<longleftrightarrow> unat (b - a) < 0x80000000 \<and> a \<noteq> b"

section \<open>The interface of a serial order\<close>

locale serial_order =
  fixes lt :: "'a::len word \<Rightarrow> 'a word \<Rightarrow> bool"
  assumes lt_iff: "lt a b \<longleftrightarrow> unat (b - a) < 2 ^ (LENGTH('a) - 1) \<and> a \<noteq> b"
begin

lemma half: "2 ^ LENGTH('a) = 2 * (2 ^ (LENGTH('a) - 1) :: nat)"
  by (cases "LENGTH('a)") simp_all

lemma irrefl: "\<not> lt a a"
  by (simp add: lt_iff)

lemma opposite:
  fixes a b :: "'a word"
  assumes "a \<noteq> b"
  shows "unat (a - b) + unat (b - a) = 2 ^ LENGTH('a)"
proof -
  have "unat a \<noteq> unat b" using assms by (simp add: word_unat_eq_iff)
  moreover have "unat a < 2 ^ LENGTH('a)" "unat b < 2 ^ LENGTH('a)" by (rule unat_lt_pow)+
  ultimately show ?thesis
    unfolding unat_diff_circle [of a b] unat_diff_circle [of b a]
    by (cases "unat a" "unat b" rule: linorder_cases) (simp_all del: unsigned_less)
qed

lemma asym: "lt a b \<Longrightarrow> \<not> lt b a"
  using opposite [of a b] half by (auto simp: lt_iff)

text \<open>Two different values that neither precedes the other are exactly half a circle apart.\<close>

lemma incomparable: "\<not> lt a b \<Longrightarrow> \<not> lt b a \<Longrightarrow> a = b \<or> unat (b - a) = 2 ^ (LENGTH('a) - 1)"
  using opposite [of a b] half by (fastforce simp: lt_iff)

text \<open>\<open>in_window base x\<close>: \<open>x\<close> is less than half a circle ahead of \<open>base\<close>.\<close>

definition in_window :: "'a word \<Rightarrow> 'a word \<Rightarrow> bool" where
  "in_window base x \<longleftrightarrow> unat (x - base) < 2 ^ (LENGTH('a) - 1)"

lemma window_less:
  assumes "in_window base a" "in_window base b"
  shows "lt a b \<longleftrightarrow> unat (a - base) < unat (b - base)"
proof -
  let ?x = "a - base" and ?y = "b - base"
  have d: "b - a = ?y - ?x" by simp
  have ne: "a = b \<longleftrightarrow> unat ?x = unat ?y"
    by (simp add: word_unat_eq_iff [symmetric])
  have x: "unat ?x < 2 ^ (LENGTH('a) - 1)" and y: "unat ?y < 2 ^ (LENGTH('a) - 1)"
    using assms by (simp_all add: in_window_def)
  show ?thesis
  proof (cases "unat ?x \<le> unat ?y")
    case True
    then have "unat (b - a) = unat ?y - unat ?x" by (simp only: d unat_diff_circle if_True)
    with True y ne show ?thesis unfolding lt_iff by linarith
  next
    case False
    then have "unat (b - a) = 2 ^ LENGTH('a) + unat ?y - unat ?x"
      by (simp only: d unat_diff_circle if_False)
    with False x half show ?thesis unfolding lt_iff by linarith
  qed
qed

lemma window_trans:
  "\<lbrakk>in_window base a; in_window base b; in_window base c; lt a b; lt b c\<rbrakk> \<Longrightarrow> lt a c"
  by (simp add: window_less)

lemma window_total:
  "\<lbrakk>in_window base a; in_window base b; a \<noteq> b\<rbrakk> \<Longrightarrow> lt a b \<or> lt b a"
  by (metis diff_add_cancel linorder_neqE_nat word_unat_eq_iff window_less)

text \<open>A forward run of steps from \<open>base\<close> stays in the window and is ordered by the index.\<close>

lemma step_in_window: "i < 2 ^ (LENGTH('a) - 1) \<Longrightarrow> in_window base (base + of_nat i)"
  using half by (simp add: in_window_def)

lemma step_less:
  "\<lbrakk>i < 2 ^ (LENGTH('a) - 1); j < 2 ^ (LENGTH('a) - 1)\<rbrakk>
    \<Longrightarrow> lt (base + of_nat i) (base + of_nat j) \<longleftrightarrow> i < j"
  using half by (simp add: window_less [OF step_in_window step_in_window])

end

interpretation seq16: serial_order seqLessThan
  by unfold_locales (simp add: seqLessThan_def)

interpretation ts32: serial_order tsLessThan
  by unfold_locales (simp add: tsLessThan_def)

section \<open>The window laws at the two widths\<close>

lemma seq_window_less:
  assumes "unat (a - base) < 0x8000" "unat (b - base) < 0x8000"
  shows "seqLessThan a b \<longleftrightarrow> unat (a - base) < unat (b - base)"
  using seq16.window_less [of base a b] assms by (simp add: seq16.in_window_def)

lemma seq_step_less:
  "i < 0x8000 \<Longrightarrow> j < 0x8000 \<Longrightarrow> seqLessThan (s + of_nat i) (s + of_nat j) \<longleftrightarrow> i < j"
  using seq16.step_less [of i j s] by simp

text \<open>Sequence-number comparison across the 16-bit wrap: for any base number, the
  packets sent in the next half circle compare in sending order, the comparison never holds
  both ways or of a number with itself, and the distance that the jitter buffer counts with
  is the number of packets in between.\<close>

theorem seq_order_across_wrap:
  assumes "i < 0x8000" "j < 0x8000"
  shows "(seqLessThan (s + of_nat i) (s + of_nat j) \<longleftrightarrow> i < j) \<and>
         \<not> (seqLessThan a b \<and> seqLessThan b a) \<and> \<not> seqLessThan a a \<and>
         (i \<le> j \<longrightarrow> unat (seqDistance (s + of_nat i) (s + of_nat j)) = j - i)"
proof -
  have "unat (seqDistance (s + of_nat i) (s + of_nat j)) = j - i" if "i \<le> j"
  proof -
    have "(s + of_nat j :: u16) - (s + of_nat i) = of_nat (j - i)"
      using that by (simp add: of_nat_diff)
    then show ?thesis using assms by (simp add: seqDistance_def)
  qed
  then show ?thesis
    using assms seq_step_less seq16.asym seq16.irrefl by blast
qed

lemma seq_order_across_wrap_witness:
  "seqLessThan (65534 + of_nat 1) (65534 + of_nat 3) \<and>
   unat (seqDistance (65534 + of_nat 1) (65534 + of_nat 3)) = 2"
  using seq_order_across_wrap [of 1 3 65534 0 0] by simp

end
