(* ===== verification/Rtp.thy ===== *)
theory Rtp
  imports Common Serial
begin

text \<open>
  The RTP packet of src/src/network/RtpPacket.h: its fields, \<^verbatim>\<open>serialize\<close> and
  \<^verbatim>\<open>parse\<close> byte for byte, and what the pair guarantees. Shifts and masks are written as
  the code has them; an \<^verbatim>\<open>int\<close> promotion followed by a cast back to \<^verbatim>\<open>uint8_t\<close> is
  the operation on 8-bit words. A byte buffer \<^verbatim>\<open>(data, len)\<close> is a list; the null pointer
  is the empty list, which the length check refuses as the code refuses null.
\<close>

section \<open>The packet and its byte order\<close>

record rtp_packet =
  version :: u8
  padding :: bool
  extension :: bool
  marker :: bool
  payloadType :: u8
  sequenceNumber :: u16
  timestamp :: u32
  ssrc :: u32
  csrcs :: "u32 list"
  payload :: bytes

definition kFixedHeaderBytes :: nat where
  "kFixedHeaderBytes = 12"

definition kVersion :: u8 where
  "kVersion = 2"

definition new_packet :: rtp_packet where
  "new_packet = \<lparr>version = kVersion, padding = False, extension = False, marker = False,
     payloadType = 0, sequenceNumber = 0, timestamp = 0, ssrc = 0, csrcs = [], payload = []\<rparr>"

definition putU16 :: "u16 \<Rightarrow> bytes" where
  "putU16 v = [ucast (drop_bit 8 v AND 0xFF), ucast (v AND 0xFF)]"

definition putU32 :: "u32 \<Rightarrow> bytes" where
  "putU32 v = [ucast (drop_bit 24 v AND 0xFF), ucast (drop_bit 16 v AND 0xFF),
               ucast (drop_bit 8 v AND 0xFF), ucast (v AND 0xFF)]"

definition getU16 :: "bytes \<Rightarrow> nat \<Rightarrow> u16" where
  "getU16 d o1 = push_bit 8 (ucast (d ! o1)) OR ucast (d ! (o1 + 1))"

definition getU32 :: "bytes \<Rightarrow> nat \<Rightarrow> u32" where
  "getU32 d o1 = push_bit 24 (ucast (d ! o1)) OR push_bit 16 (ucast (d ! (o1 + 1))) OR
     push_bit 8 (ucast (d ! (o1 + 2))) OR ucast (d ! (o1 + 3))"

section \<open>serialize and parse\<close>

definition serialize :: "rtp_packet \<Rightarrow> bytes" where
  "serialize p =
    (let cc = (if length (csrcs p) > 15 then 15 else length (csrcs p));
         b0 = push_bit 6 (version p AND 0x03);
         b0 = (if padding p then b0 OR 0x20 else b0);
         b0 = (if extension p then b0 OR 0x10 else b0);
         b0 = b0 OR (of_nat cc AND 0x0F);
         b1 = payloadType p AND 0x7F;
         b1 = (if marker p then b1 OR 0x80 else b1)
     in [b0, b1] @ putU16 (sequenceNumber p) @ putU32 (timestamp p) @ putU32 (ssrc p)
        @ concat (map putU32 (take cc (csrcs p))) @ payload p)"

text \<open>The CSRC loop of \<^verbatim>\<open>parse\<close>: \<open>n\<close> identifiers from offset \<open>off\<close>, and the
  offset after them.\<close>

fun readCsrcs :: "bytes \<Rightarrow> nat \<Rightarrow> nat \<Rightarrow> u32 list \<times> nat" where
  "readCsrcs d off 0 = ([], off)"
| "readCsrcs d off (Suc n) =
     (let (cs, e) = readCsrcs d (off + 4) n in (getU32 d off # cs, e))"

text \<open>The optional header extension: \<open>None\<close> when it does not fit, else the offset after it.\<close>

definition skipExtension :: "bytes \<Rightarrow> nat \<Rightarrow> nat option" where
  "skipExtension d off =
    (if length d < off + 4 then None
     else let words = getU16 d (off + 2); off' = off + (4 + unat words * 4)
          in if length d < off' then None else Some off')"

text \<open>The trailing padding: \<open>None\<close> when malformed, else the end of the payload.\<close>

definition stripPadding :: "bytes \<Rightarrow> nat \<Rightarrow> nat option" where
  "stripPadding d off =
    (if length d \<le> off then None
     else let pad = unat (d ! (length d - 1))
          in if pad = 0 \<or> pad > length d - off then None else Some (length d - pad))"

definition parse :: "bytes \<Rightarrow> rtp_packet result" where
  "parse d =
    (if length d < kFixedHeaderBytes then fail Protocol
     else
       let b0 = d ! 0; v = drop_bit 6 b0 AND 0x03 in
       if v \<noteq> kVersion then fail Protocol
       else
         let pad = (b0 AND 0x20 \<noteq> 0); ext = (b0 AND 0x10 \<noteq> 0); cc = unat (b0 AND 0x0F);
             b1 = d ! 1; m = (b1 AND 0x80 \<noteq> 0); pt = b1 AND 0x7F
         in if length d < kFixedHeaderBytes + cc * 4 then fail Protocol
            else
              let (cs, off) = readCsrcs d kFixedHeaderBytes cc in
              case (if ext then skipExtension d off else Some off) of
                None \<Rightarrow> fail Protocol
              | Some off' \<Rightarrow>
                  (case (if pad then stripPadding d off' else Some (length d)) of
                     None \<Rightarrow> fail Protocol
                   | Some e \<Rightarrow> Inr \<lparr>version = v, padding = pad, extension = ext, marker = m,
                       payloadType = pt, sequenceNumber = getU16 d 2, timestamp = getU32 d 4,
                       ssrc = getU32 d 8, csrcs = cs, payload = cut off' e d\<rparr>))"

section \<open>Fields on the wire\<close>

lemma getU16_here [wire_simps]: "getU16 (xs @ putU16 v @ ys) (length xs) = v"
proof -
  have "push_bit 8 (ucast (ucast (drop_bit 8 v AND 0xFF) :: u8)) OR
        ucast (ucast (v AND 0xFF) :: u8) = v"
    unfolding FF_mask by (rule bit_word_eqI) (auto simp: bit_simps)
  then show ?thesis by (simp add: getU16_def putU16_def nth_append)
qed

lemma getU32_here [wire_simps]: "getU32 (xs @ putU32 v @ ys) (length xs) = v"
proof -
  have "push_bit 24 (ucast (ucast (drop_bit 24 v AND 0xFF) :: u8)) OR
      push_bit 16 (ucast (ucast (drop_bit 16 v AND 0xFF) :: u8)) OR
      push_bit 8 (ucast (ucast (drop_bit 8 v AND 0xFF) :: u8)) OR
      ucast (ucast (v AND 0xFF) :: u8) = v"
    unfolding FF_mask
  proof (rule bit_word_eqI, goal_cases)
    case (1 n)
    then consider "n < 8" | "8 \<le> n" "n < 16" | "16 \<le> n" "n < 24" | "24 \<le> n" "n < 32"
      by fastforce
    then show ?case by cases (auto simp: bit_simps)
  qed
  then show ?thesis by (simp add: getU32_def putU32_def nth_append)
qed

lemma putU16_getU16 [wire_simps]: "putU16 (getU16 d n) = [d ! n, d ! (n + 1)]"
  unfolding putU16_def getU16_def FF_mask
  by (intro list.inject [THEN iffD2] conjI refl; rule bit_word_eqI)
    (auto simp: bit_simps dest: bit_imp_le_length)

lemma putU32_getU32 [wire_simps]: "putU32 (getU32 d n) = [d ! n, d ! (n + 1), d ! (n + 2), d ! (n + 3)]"
  unfolding putU32_def getU32_def FF_mask
  by (intro list.inject [THEN iffD2] conjI refl; rule bit_word_eqI)
    (auto simp: bit_simps dest: bit_imp_le_length)

lemma length_put [simp]: "length (putU16 v) = 2" "length (putU32 w) = 4"
  by (simp_all add: putU16_def putU32_def)

lemma length_concat_putU32 [simp]: "length (concat (map putU32 cs)) = 4 * length cs"
  by (induction cs) simp_all

lemma readCsrcs_here [wire_simps]:
  "readCsrcs (xs @ concat (map putU32 cs) @ ys) (length xs) (length cs) =
     (cs, length xs + 4 * length cs)"
proof (induction cs arbitrary: xs)
  case (Cons c cs)
  then show ?case
    using getU32_here [of xs c "concat (map putU32 cs) @ ys"] Cons.IH [of "xs @ putU32 c"]
    by simp
qed simp

lemma readCsrcs_length: "length (fst (readCsrcs d off n)) = n" "snd (readCsrcs d off n) = off + 4 * n"
  by (induction n arbitrary: off) (simp_all add: split_beta)

lemma readCsrcs_bytes:
  "off + 4 * n \<le> length d \<Longrightarrow> concat (map putU32 (fst (readCsrcs d off n))) = cut off (off + 4 * n) d"
proof (induction n arbitrary: off)
  case (Suc n)
  have "cut off (off + 4 * Suc n) d =
      [d ! off, d ! (off + 1), d ! (off + 2), d ! (off + 3)] @ cut (off + 4) (off + 4 + 4 * n) d"
    using Suc.prems by (simp add: cut_def take_drop_Cons numeral_eq_Suc)
  with Suc show ?case by (simp add: split_beta putU32_getU32)
qed simp

section \<open>What serialize and parse guarantee\<close>

text \<open>The packets the sender builds: version 2, no padding and no extension flag, a 7-bit
  payload type and at most fifteen CSRCs.\<close>

definition plain_packet :: "rtp_packet \<Rightarrow> bool" where
  "plain_packet p \<longleftrightarrow> version p = kVersion \<and> \<not> padding p \<and> \<not> extension p \<and>
     unat (payloadType p) < 128 \<and> length (csrcs p) \<le> 15"

lemma u8_less128: "unat (b :: u8) < 128 \<longleftrightarrow> b AND 0x7F = b"
proof -
  have "b AND 0x7F = take_bit 7 b" by (simp add: take_bit_eq_mask mask_eq_exp_minus_1)
  then show ?thesis using take_bit_nat_eq_self_iff [of 7 "unat b"]
    by (simp add: word_unat_eq_iff unsigned_take_bit_eq)
qed

lemma nibble: "n \<le> 15 \<Longrightarrow> (of_nat n :: u8) AND 0x0F = of_nat n"
proof -
  assume "n \<le> 15"
  have "(of_nat n :: u8) AND 0x0F = take_bit 4 (of_nat n)"
    by (simp add: take_bit_eq_mask mask_eq_exp_minus_1)
  also have "\<dots> = of_nat (take_bit 4 n)" by (simp add: of_nat_take_bit)
  also have "\<dots> = of_nat n" using \<open>n \<le> 15\<close> by (simp add: take_bit_nat_eq_self)
  finally show ?thesis .
qed

lemma nibble_le: "unat (b AND 0x0F :: u8) \<le> 15"
proof -
  have "b AND 0x0F = take_bit 4 b" by (simp add: take_bit_eq_mask mask_eq_exp_minus_1)
  then have "unat (b AND 0x0F) = take_bit 4 (unat b)" by (simp add: unsigned_take_bit_eq)
  then show ?thesis using take_bit_nat_less_exp [of 4 "unat b"] by simp
qed

lemma head0:
  fixes c :: u8
  assumes "c AND 0x0F = c"
  shows "drop_bit 6 (push_bit 6 (2 AND 3) OR (c AND 0x0F)) AND 3 = 2"
    "(push_bit 6 (2 AND 3) OR (c AND 0x0F)) AND 0x0F = c"
    "(push_bit 6 (2 AND 3) OR (c AND 0x0F)) AND 0x20 = 0"
    "(push_bit 6 (2 AND 3) OR (c AND 0x0F)) AND 0x10 = 0"
proof -
  have "(push_bit 6 (2 AND 3) OR (c AND 0x0F)) AND 0x0F = c AND 0x0F"
    by (rule u8_eqI) (simp_all add: bit_simps)
  then show "(push_bit 6 (2 AND 3) OR (c AND 0x0F)) AND 0x0F = c" using assms by simp
qed (rule u8_eqI; simp add: bit_simps)+

lemma head1:
  fixes t :: u8
  assumes "t AND 0x7F = t"
  shows "(t AND 0x7F OR 0x80) AND 0x7F = t" "(t AND 0x7F OR 0x80) AND 0x80 \<noteq> 0"
    "(t AND 0x7F) AND 0x80 = 0"
proof -
  have "(t AND 0x7F OR 0x80) AND 0x7F = t AND 0x7F" by (rule u8_eqI) (simp_all add: bit_simps)
  then show "(t AND 0x7F OR 0x80) AND 0x7F = t" using assms by simp
qed (simp_all add: u8_mask_bit bit_simps)

lemma serialize_unflagged:
  assumes "\<not> padding p" "\<not> extension p" "length (csrcs p) \<le> 15"
  shows "serialize p =
    [push_bit 6 (version p AND 3) OR (of_nat (length (csrcs p)) AND 0x0F),
     (if marker p then payloadType p AND 0x7F OR 0x80 else payloadType p AND 0x7F)] @
    putU16 (sequenceNumber p) @ putU32 (timestamp p) @ putU32 (ssrc p) @
    concat (map putU32 (csrcs p)) @ payload p"
  using assms by (simp add: serialize_def Let_def)

lemma plain_serialize:
  assumes "plain_packet p"
  shows "serialize p =
    [push_bit 6 (2 AND 3) OR (of_nat (length (csrcs p)) AND 0x0F),
     (if marker p then payloadType p AND 0x7F OR 0x80 else payloadType p AND 0x7F)] @
    putU16 (sequenceNumber p) @ putU32 (timestamp p) @ putU32 (ssrc p) @
    concat (map putU32 (csrcs p)) @ payload p"
  using assms serialize_unflagged [of p] by (simp add: plain_packet_def kVersion_def)

lemma header_fields [wire_simps]:
  "getU16 ([b0, b1] @ putU16 sq @ r) 2 = sq"
  "getU32 ([b0, b1] @ putU16 sq @ putU32 ts @ r) 4 = ts"
  "getU32 ([b0, b1] @ putU16 sq @ putU32 ts @ putU32 sr @ r) 8 = sr"
  "readCsrcs ([b0, b1] @ putU16 sq @ putU32 ts @ putU32 sr @ concat (map putU32 cs) @ r) 12 (length cs)
     = (cs, 12 + 4 * length cs)"
  "12 + 4 * length cs = n \<Longrightarrow> n + length pl = e \<Longrightarrow> cut n e
     ([b0, b1] @ putU16 sq @ putU32 ts @ putU32 sr @ concat (map putU32 cs) @ pl) = pl"
proof -
  show "getU16 ([b0, b1] @ putU16 sq @ r) 2 = sq"
    using getU16_here [of "[b0, b1]" sq r] by (simp add: numeral_2_eq_2)
  show "getU32 ([b0, b1] @ putU16 sq @ putU32 ts @ r) 4 = ts"
    using getU32_here [of "[b0, b1] @ putU16 sq" ts r] by (simp add: eval_nat_numeral)
  show "getU32 ([b0, b1] @ putU16 sq @ putU32 ts @ putU32 sr @ r) 8 = sr"
    using getU32_here [of "[b0, b1] @ putU16 sq @ putU32 ts" sr r] by simp
  show "readCsrcs ([b0, b1] @ putU16 sq @ putU32 ts @ putU32 sr @ concat (map putU32 cs) @ r) 12
      (length cs) = (cs, 12 + 4 * length cs)"
    using readCsrcs_here [of "[b0, b1] @ putU16 sq @ putU32 ts @ putU32 sr" cs r] by simp
  show "cut n e ([b0, b1] @ putU16 sq @ putU32 ts @ putU32 sr @ concat (map putU32 cs) @ pl) = pl"
    if "12 + 4 * length cs = n" "n + length pl = e"
    using cut_mid [of n "[b0, b1] @ putU16 sq @ putU32 ts @ putU32 sr @ concat (map putU32 cs)"
      e pl "[]"] that by simp
qed

lemma parse_plain_bytes:
  assumes c: "c AND 0x0F = c" "unat c = length cs" and t: "t AND 0x7F = t"
  shows "parse ([push_bit 6 (2 AND 3) OR (c AND 0x0F),
                 (if m then t AND 0x7F OR 0x80 else t AND 0x7F)] @
      putU16 sq @ putU32 ts @ putU32 sr @ concat (map putU32 cs) @ pl) =
    Inr \<lparr>version = 2, padding = False, extension = False, marker = m, payloadType = t,
      sequenceNumber = sq, timestamp = ts, ssrc = sr, csrcs = cs, payload = pl\<rparr>"
    (is "parse ([?b0, ?b1] @ ?rest) = _")
proof -
  let ?d = "[?b0, ?b1] @ ?rest"
  have len: "length ?d = 12 + 4 * length cs + length pl" by simp
  have hd: "?d ! 0 = ?b0" "?d ! 1 = ?b1" by simp_all
  show ?thesis
    unfolding parse_def Let_def hd len header_fields kFixedHeaderBytes_def kVersion_def head0 [OF c(1)] c(2)
    using header_fields(5) [OF refl refl] head1 [OF t]
    by (simp add: t)
qed

lemma plain_byte_facts:
  assumes "plain_packet p"
  shows "(of_nat (length (csrcs p)) :: u8) AND 0x0F = of_nat (length (csrcs p))"
    "unat (of_nat (length (csrcs p)) :: u8) = length (csrcs p)"
    "payloadType p AND 0x7F = payloadType p"
  using assms by (simp_all add: plain_packet_def nibble u8_less128 [symmetric])

lemma parse_serialize_plain:
  assumes "plain_packet p"
  shows "parse (serialize p) = Inr p"
  unfolding plain_serialize [OF assms]
  using parse_plain_bytes [OF plain_byte_facts [OF assms]] assms
  by (simp add: plain_packet_def kVersion_def)

text \<open>C25. Parsing inverts serialization: every packet the sender can build (version 2,
  no padding or extension flag, a 7-bit payload type, up to fifteen CSRCs, any payload)
  comes back from its wire bytes field for field.\<close>

theorem parse_serialize:
  assumes "plain_packet p"
  shows "parse (serialize p) = Inr p"
  by (rule parse_serialize_plain [OF assms])

definition sample_packet :: rtp_packet where
  "sample_packet = new_packet\<lparr>marker := True, payloadType := 96, sequenceNumber := 65535,
     timestamp := 0xDEADBEEF, ssrc := 7, csrcs := [1, 2], payload := [9, 8, 7]\<rparr>"

lemma plain_sample: "plain_packet sample_packet"
  by (simp add: plain_packet_def sample_packet_def new_packet_def)

lemma parse_serialize_witness: "parse (serialize sample_packet) = Inr sample_packet"
  by (rule parse_serialize [OF plain_sample])

lemma length_serialize:
  "length (csrcs p) \<le> 15 \<Longrightarrow> length (serialize p) = 12 + 4 * length (csrcs p) + length (payload p)"
  by (simp add: serialize_def Let_def)

lemma head0_again:
  assumes "drop_bit 6 b AND 3 = (2 :: u8)" "b AND 0x20 = 0" "b AND 0x10 = 0"
  shows "0x80 OR (b AND 0x0F) = b"
proof -
  have "bit (drop_bit 6 b AND 3) 0 = bit (2 :: u8) 0" "bit (drop_bit 6 b AND 3) 1 = bit (2 :: u8) 1"
    by (simp_all only: assms(1))
  then have "\<not> bit b 6" "bit b 7" by (simp_all add: bit_simps)
  then show ?thesis
    using assms(2,3) by (intro u8_eqI) (simp_all add: bit_simps u8_mask_bit)
qed

lemma head1_again:
  "(if b AND 0x80 \<noteq> 0 then (b AND 0x7F) AND 0x7F OR 0x80 else (b AND 0x7F) AND 0x7F) = (b :: u8)"
  by (intro u8_eqI) (simp_all add: bit_simps u8_mask_bit)

lemma parse_regions:
  "12 \<le> length d \<Longrightarrow> take 12 d =
     [d ! 0, d ! 1] @ putU16 (getU16 d 2) @ putU32 (getU32 d 4) @ putU32 (getU32 d 8)"
  "12 + 4 * n \<le> length d \<Longrightarrow>
     concat (map putU32 (fst (readCsrcs d 12 n))) @ cut (12 + 4 * n) (length d) d = drop 12 d"
proof -
  show "take 12 d = [d ! 0, d ! 1] @ putU16 (getU16 d 2) @ putU32 (getU32 d 4) @ putU32 (getU32 d 8)"
    if "12 \<le> length d"
    using that unfolding putU16_getU16 putU32_getU32
    by (intro nth_equalityI) (auto simp: less_Suc_eq numeral_eq_Suc)
  show "concat (map putU32 (fst (readCsrcs d 12 n))) @ cut (12 + 4 * n) (length d) d = drop 12 d"
    if "12 + 4 * n \<le> length d"
    using readCsrcs_bytes [OF that] that
    by (simp add: cut_def) (metis add.commute append_take_drop_id drop_drop)
qed

text \<open>What an accepted buffer looks like: every step of \<^verbatim>\<open>parse\<close> read back.\<close>

lemma parse_Inr:
  assumes "parse d = Inr p"
  obtains off e where
    "12 \<le> length d" "version p = 2" "drop_bit 6 (d ! 0) AND 3 = 2"
    "padding p \<longleftrightarrow> d ! 0 AND 0x20 \<noteq> 0" "extension p \<longleftrightarrow> d ! 0 AND 0x10 \<noteq> 0"
    "marker p \<longleftrightarrow> d ! 1 AND 0x80 \<noteq> 0" "payloadType p = d ! 1 AND 0x7F"
    "sequenceNumber p = getU16 d 2" "timestamp p = getU32 d 4" "ssrc p = getU32 d 8"
    "csrcs p = fst (readCsrcs d 12 (unat (d ! 0 AND 0x0F)))"
    "length (csrcs p) = unat (d ! 0 AND 0x0F)" "payload p = cut off e d"
    "12 + 4 * length (csrcs p) \<le> off" "off \<le> e" "e \<le> length d"
    "extension p \<longrightarrow> 12 + 4 * length (csrcs p) < off"
    "\<not> extension p \<longrightarrow> off = 12 + 4 * length (csrcs p)"
    "padding p \<longrightarrow> e < length d" "\<not> padding p \<longrightarrow> e = length d"
proof -
  let ?cc = "unat (d ! 0 AND 0x0F)"
  obtain cs where r: "readCsrcs d 12 ?cc = (cs, 12 + 4 * ?cc)" and l: "length cs = ?cc"
    using readCsrcs_length [of d 12 ?cc] by (metis prod.collapse)
  show ?thesis
    using assms
    unfolding parse_def Let_def kFixedHeaderBytes_def kVersion_def r
    by (auto simp: skipExtension_def stripPadding_def Let_def r l fail_simps
        split: if_splits option.splits intro!: that)
qed

text \<open>Parsing is total and safe on arbitrary bytes: a buffer is either refused, always with
  the Protocol error, or yields a version-2 packet with a 7-bit payload type and at most fifteen
  CSRCs whose payload is a range of the buffer behind the header; header, CSRCs and payload
  together never exceed the buffer.\<close>

theorem parse_bounds:
  "case parse d of
     Inl e \<Rightarrow> e = Protocol
   | Inr p \<Rightarrow> version p = kVersion \<and> unat (payloadType p) < 128 \<and> length (csrcs p) \<le> 15 \<and>
       (\<exists>b e. 12 + 4 * length (csrcs p) \<le> b \<and> b \<le> e \<and> e \<le> length d \<and> payload p = cut b e d \<and>
              length (payload p) = e - b)"
proof (cases "parse d")
  case (Inl e)
  then show ?thesis
    by (auto simp: parse_def Let_def fail_def split: if_splits option.splits prod.splits)
next
  case (Inr p)
  then show ?thesis
  proof (rule parse_Inr, goal_cases)
    case (1 off e)
    have "d ! 1 AND 0x7F AND 0x7F = d ! 1 AND 0x7F" by (rule u8_eqI) (simp_all add: bit_simps)
    with 1 nibble_le show ?case by (auto simp: Inr kVersion_def u8_less128)
  qed
qed

text \<open>When the wire survives parse and serialize: for a buffer that parse accepts,
  re-serializing the packet gives the same bytes exactly when the buffer had neither the padding
  nor the extension bit. With either bit the header keeps the flag while the padding or the
  extension is gone, so what is sent is another, malformed packet.\<close>

theorem serialize_parse_iff:
  assumes "parse d = Inr p"
  shows "serialize p = d \<longleftrightarrow> \<not> padding p \<and> \<not> extension p"
  using assms
proof (rule parse_Inr, goal_cases)
  case (1 off e)
  have cc: "length (csrcs p) \<le> 15" unfolding 1(12) by (rule nibble_le)
  have len: "length (serialize p) = 12 + 4 * length (csrcs p) + (e - off)"
    using length_serialize [OF cc] length_cut [OF 1(16)] 1(13) by simp
  show ?case
  proof (cases "padding p \<or> extension p")
    case True
    then have "length (serialize p) < length d" using len 1(14-20) by linarith
    with True show ?thesis by auto
  next
    case False
    then have np: "\<not> padding p" "\<not> extension p" by simp_all
    then have pay: "payload p = cut (12 + 4 * length (csrcs p)) (length d) d"
      using 1(13,18,20) by simp
    have b0: "push_bit 6 (version p AND 3) OR (of_nat (length (csrcs p)) AND 0x0F) = d ! 0"
      using np 1(4,5) unfolding 1(2,12) by (simp add: head0_again [OF 1(3)])
    have b1: "(if marker p then payloadType p AND 0x7F OR 0x80 else payloadType p AND 0x7F) = d ! 1"
      unfolding 1(6,7) by (rule head1_again)
    have "serialize p = take 12 d @ drop 12 d"
      unfolding serialize_unflagged [OF np cc] b0 b1 pay 1(8-10) parse_regions(1) [OF 1(1)]
      using parse_regions(2) [of "length (csrcs p)" d] 1(11,12,14-16) by simp
    with np show ?thesis by simp
  qed
qed

definition padded_wire :: bytes where
  "padded_wire = [0xA0, 96, 0, 1, 0, 0, 0, 2, 0, 0, 0, 3, 9, 1]"

definition padded_packet :: rtp_packet where
  "padded_packet = new_packet\<lparr>padding := True, payloadType := 96, sequenceNumber := 1,
     timestamp := 2, ssrc := 3, payload := [9]\<rparr>"

lemma parse_padded: "parse padded_wire = Inr padded_packet"
  by code_simp

lemma serialize_parse_iff_witness:
  "parse padded_wire = Inr padded_packet \<and> serialize padded_packet \<noteq> padded_wire"
  using serialize_parse_iff [OF parse_padded] parse_padded by (simp add: padded_packet_def)

end
