(* ===== verification/Rtp_Handler.thy ===== *)
theory Rtp_Handler
  imports Rtp
begin

text \<open>
  The packetizer of src/src/network/RTPHandler.cpp: the Annex-B splitter
  (\<^verbatim>\<open>findNalUnits\<close>), single-NAL and FU-A packetization of H.264, the one-packet Opus
  path, and the reassembly \<^verbatim>\<open>depacketize\<close>. A handler is a record; the sequence counter
  \<^verbatim>\<open>seq_\<close> is threaded through every emitted packet. The loops are proved equal to pure
  functions of the NAL units (\<open>nal_payloads\<close>, \<open>stamped\<close>), and the round trips are stated over
  those.
\<close>

section \<open>State\<close>

record rtp_handler =
  rh_payloadType :: u8
  rh_ssrc :: u32
  rh_clockRateHz :: u32
  rh_maxPayload :: nat
  rh_seq :: u16

definition kDefaultMaxRtpPayload :: nat where
  "kDefaultMaxRtpPayload = 1200"

definition new_rtp_handler :: "u8 \<Rightarrow> u32 \<Rightarrow> u32 \<Rightarrow> nat \<Rightarrow> rtp_handler" where
  "new_rtp_handler pt sr clk mp = \<lparr>rh_payloadType = pt, rh_ssrc = sr, rh_clockRateHz = clk,
     rh_maxPayload = (if mp = 0 then kDefaultMaxRtpPayload else mp), rh_seq = 0\<rparr>"

definition kNalTypeMask :: u8 where
  "kNalTypeMask = 0x1F"

definition kNalFuA :: u8 where
  "kNalFuA = 28"

definition kFuStart :: u8 where
  "kFuStart = 0x80"

definition kFuEnd :: u8 where
  "kFuEnd = 0x40"

section \<open>findNalUnits\<close>

text \<open>The scan for start codes: markers \<open>(codeBegin, bodyBegin)\<close> in order.\<close>

definition code_at :: "bytes \<Rightarrow> nat \<Rightarrow> bool" where
  "code_at data i \<longleftrightarrow> data ! i = 0 \<and> data ! (i + 1) = 0 \<and> data ! (i + 2) = 1"

function scan_codes :: "bytes \<Rightarrow> nat \<Rightarrow> (nat \<times> nat) list \<Rightarrow> (nat \<times> nat) list" where
  "scan_codes data i markers =
    (if i + 3 \<le> length data then
       if code_at data i then
         let codeBegin = (if 1 \<le> i \<and> data ! (i - 1) = 0 \<and> markers \<noteq> [] \<and> snd (last markers) \<le> i - 1
                          then i - 1 else i)
         in scan_codes data (i + 3) (markers @ [(codeBegin, i + 3)])
       else scan_codes data (i + 1) markers
     else markers)"
  by pat_completeness auto
termination
  by (relation "measure (\<lambda>(data, i, _). length data - i)") auto

declare scan_codes.simps [simp del]

fun nal_ranges :: "(nat \<times> nat) list \<Rightarrow> nat \<Rightarrow> (nat \<times> nat) list" where
  "nal_ranges [] len = []"
| "nal_ranges [(c, b)] len = (if len > b then [(b, len)] else [])"
| "nal_ranges ((c, b) # (c', b') # ms) len =
     (if c' > b then [(b, c')] else []) @ nal_ranges ((c', b') # ms) len"

definition findNalUnits :: "bytes \<Rightarrow> (nat \<times> nat) list" where
  "findNalUnits data = nal_ranges (scan_codes data 0 []) (length data)"

section \<open>packetize\<close>

text \<open>One packet of the stream with the next sequence number (\<^verbatim>\<open>seq_++\<close>).\<close>

definition make_packet :: "rtp_handler \<Rightarrow> encoded_frame \<Rightarrow> bytes \<Rightarrow> rtp_packet" where
  "make_packet h f pl = new_packet\<lparr>payloadType := rh_payloadType h, ssrc := rh_ssrc h,
     timestamp := ef_rtpTimestamp f, sequenceNumber := rh_seq h, payload := pl\<rparr>"

definition bump :: "rtp_handler \<Rightarrow> rtp_handler" where
  "bump h = h\<lparr>rh_seq := rh_seq h + 1\<rparr>"

definition packetizeOpus :: "rtp_handler \<Rightarrow> encoded_frame \<Rightarrow> rtp_packet list result \<times> rtp_handler" where
  "packetizeOpus h f = (Inr [(make_packet h f (ef_data f))\<lparr>marker := True\<rparr>], bump h)"

definition fu_chunk :: "nat \<Rightarrow> nat" where
  "fu_chunk maxPayload = (if maxPayload > 2 then maxPayload - 2 else 1)"

text \<open>The FU-A loop over \<open>nal\<close> from \<open>pos\<close>.\<close>

function fu_loop :: "rtp_handler \<Rightarrow> encoded_frame \<Rightarrow> bytes \<Rightarrow> nat \<Rightarrow> bool \<Rightarrow> rtp_packet list \<times> rtp_handler" where
  "fu_loop h f nal pos first =
    (if pos < length nal then
       let nalHeader = nal ! 0;
           fuIndicator = (nalHeader AND 0xE0) OR kNalFuA;
           origType = nalHeader AND kNalTypeMask;
           tk = min (fu_chunk (rh_maxPayload h)) (length nal - pos);
           last = (pos + tk \<ge> length nal);
           fuHeader = origType;
           fuHeader = (if first then fuHeader OR kFuStart else fuHeader);
           fuHeader = (if last then fuHeader OR kFuEnd else fuHeader);
           p = make_packet h f ([fuIndicator, fuHeader] @ cut pos (pos + tk) nal);
           (ps, h') = fu_loop (bump h) f nal (pos + tk) False
       in (p # ps, h')
     else ([], h))"
  by pat_completeness auto
termination
  by (relation "measure (\<lambda>(h, f, nal, pos, _). length nal - pos)") (auto simp: fu_chunk_def)

declare fu_loop.simps [simp del]

fun nal_loop :: "rtp_handler \<Rightarrow> encoded_frame \<Rightarrow> (nat \<times> nat) list \<Rightarrow> rtp_packet list \<times> rtp_handler" where
  "nal_loop h f [] = ([], h)"
| "nal_loop h f ((b, e) # nals) =
    (let nalLen = e - b; nal = cut b e (ef_data f);
         (ps, h1) = (if nalLen \<le> rh_maxPayload h then ([make_packet h f nal], bump h)
                     else fu_loop h f nal 1 True);
         (qs, h2) = nal_loop h1 f nals
     in (ps @ qs, h2))"

definition mark_last :: "rtp_packet list \<Rightarrow> rtp_packet list" where
  "mark_last ps = butlast ps @ [(last ps)\<lparr>marker := True\<rparr>]"

definition packetizeH264 :: "rtp_handler \<Rightarrow> encoded_frame \<Rightarrow> rtp_packet list result \<times> rtp_handler" where
  "packetizeH264 h f =
    (let nals = findNalUnits (ef_data f) in
     if nals = [] then (fail Protocol, h)
     else let (ps, h') = nal_loop h f nals
          in if ps = [] then (fail Protocol, h') else (Inr (mark_last ps), h'))"

definition packetize :: "rtp_handler \<Rightarrow> encoded_frame \<Rightarrow> rtp_packet list result \<times> rtp_handler" where
  "packetize h f =
    (if ef_empty f then (fail InvalidArgument, h)
     else if ef_kind f = Video then
       (if ef_videoCodec f \<noteq> H264 then (fail Unsupported, h) else packetizeH264 h f)
     else if ef_audioCodec f \<noteq> Opus then (fail Unsupported, h)
     else packetizeOpus h f)"

section \<open>depacketize\<close>

record depack =
  dp_out :: bytes
  dp_fuAccum :: bytes
  dp_inFu :: bool
  dp_fuNalHeader :: u8
  dp_sawKeyframe :: bool

definition depack_init :: depack where
  "depack_init = \<lparr>dp_out = [], dp_fuAccum = [], dp_inFu = False, dp_fuNalHeader = 0,
     dp_sawKeyframe = False\<rparr>"

definition kStartCode :: bytes where
  "kStartCode = [0, 0, 0, 1]"

definition recordType :: "u8 \<Rightarrow> depack \<Rightarrow> depack" where
  "recordType t s = (if t = 5 \<or> t = 7 \<or> t = 8 then s\<lparr>dp_sawKeyframe := True\<rparr> else s)"

definition depack_step :: "depack \<Rightarrow> rtp_packet \<Rightarrow> depack result" where
  "depack_step s p =
    (if payload p = [] then fail Protocol
     else let type = payload p ! 0 AND kNalTypeMask in
       if type = kNalFuA then
         if length (payload p) < 2 then fail Protocol
         else
           let fuIndicator = payload p ! 0; fuHeader = payload p ! 1;
               start = (fuHeader AND kFuStart \<noteq> 0); fin = (fuHeader AND kFuEnd \<noteq> 0);
               origType = fuHeader AND kNalTypeMask
           in if start \<and> dp_inFu s then fail Protocol
              else if \<not> start \<and> \<not> dp_inFu s then fail Protocol
              else
                let s1 = (if start
                          then let hd = (fuIndicator AND 0xE0) OR origType
                               in s\<lparr>dp_inFu := True, dp_fuNalHeader := hd, dp_fuAccum := [hd]\<rparr>
                          else s);
                    s2 = s1\<lparr>dp_fuAccum := dp_fuAccum s1 @ drop 2 (payload p)\<rparr>
                in if fin then
                     let s3 = recordType (dp_fuNalHeader s2 AND kNalTypeMask) s2
                     in Inr (s3\<lparr>dp_out := dp_out s3 @ kStartCode @ dp_fuAccum s3,
                               dp_inFu := False, dp_fuAccum := []\<rparr>)
                   else Inr s2
       else if dp_inFu s then fail Protocol
       else let s1 = recordType type s
            in Inr (s1\<lparr>dp_out := dp_out s1 @ kStartCode @ payload p\<rparr>))"

fun depack_loop :: "depack \<Rightarrow> rtp_packet list \<Rightarrow> depack result" where
  "depack_loop s [] = Inr s"
| "depack_loop s (p # ps) = (case depack_step s p of Inl e \<Rightarrow> Inl e | Inr s' \<Rightarrow> depack_loop s' ps)"

definition depacketize :: "rtp_packet list \<Rightarrow> media_kind \<Rightarrow> video_codec \<Rightarrow> audio_codec \<Rightarrow> encoded_frame result" where
  "depacketize ps kind vc ac =
    (if ps = [] then fail InvalidArgument
     else let frame = new_encoded_frame\<lparr>ef_kind := kind, ef_rtpTimestamp := timestamp (hd ps)\<rparr> in
       if kind = Audio then Inr (setPayload (payload (hd ps)) (frame\<lparr>ef_audioCodec := ac\<rparr>))
       else case depack_loop depack_init ps of
              Inl e \<Rightarrow> Inl e
            | Inr s \<Rightarrow>
                if dp_inFu s then fail Protocol
                else Inr (setPayload (dp_out s)
                      (frame\<lparr>ef_videoCodec := vc, ef_keyframe := dp_sawKeyframe s\<rparr>)))"

section \<open>The splitter\<close>

text \<open>What the scan maintains: every marker sits on a start code, and no start code lies
  between the body of a marker and the next marker (or the scan position).\<close>

definition mark_ok :: "bytes \<Rightarrow> nat \<times> nat \<Rightarrow> bool" where
  "mark_ok data m \<longleftrightarrow> fst m + 3 \<le> snd m \<and> snd m \<le> length data \<and> code_at data (snd m - 3)"

definition mark_next :: "bytes \<Rightarrow> nat \<times> nat \<Rightarrow> nat \<times> nat \<Rightarrow> bool" where
  "mark_next data m m' \<longleftrightarrow> snd m \<le> fst m' \<and>
     (\<forall>j. snd m \<le> j \<longrightarrow> j + 3 \<le> fst m' \<longrightarrow> \<not> code_at data j)"

definition marks_ok :: "bytes \<Rightarrow> nat \<Rightarrow> (nat \<times> nat) list \<Rightarrow> bool" where
  "marks_ok data i ms \<longleftrightarrow> (\<forall>m\<in>set ms. mark_ok data m) \<and> successively (mark_next data) ms \<and>
     (ms \<noteq> [] \<longrightarrow> snd (last ms) \<le> i \<and>
       (\<forall>j. snd (last ms) \<le> j \<longrightarrow> j < i \<longrightarrow> j + 3 \<le> length data \<longrightarrow> \<not> code_at data j))"

lemma scan_codes_ok:
  "marks_ok data i ms \<Longrightarrow> \<exists>k. marks_ok data k (scan_codes data i ms) \<and> length data < k + 3"
proof (induction data i ms rule: scan_codes.induct)
  case (1 data i ms)
  show ?case
  proof (cases "i + 3 \<le> length data")
    case True
    show ?thesis
    proof (cases "code_at data i")
      case code: True
      let ?c = "if 1 \<le> i \<and> data ! (i - 1) = 0 \<and> ms \<noteq> [] \<and> snd (last ms) \<le> i - 1 then i - 1 else i"
      have "marks_ok data (i + 3) (ms @ [(?c, i + 3)])"
        using 1(3) True code
        by (auto simp: marks_ok_def mark_ok_def mark_next_def successively_append_iff)
      from 1(1) [OF True code refl this] show ?thesis
        using True code by (simp add: scan_codes.simps [of data i ms] Let_def)
    next
      case False
      have "marks_ok data (i + 1) ms"
        using 1(3) True False by (auto simp: marks_ok_def less_Suc_eq)
      from 1(2) [OF True False this] show ?thesis
        using True False by (simp add: scan_codes.simps [of data i ms])
    qed
  qed (use 1(3) in \<open>auto simp: scan_codes.simps [of data i ms]\<close>)
qed

lemma nal_ranges_begin: "(b, e) \<in> set (nal_ranges (m # ms) len) \<Longrightarrow>
   \<forall>x\<in>set (m # ms). mark_ok data x \<Longrightarrow> successively (mark_next data) (m # ms) \<Longrightarrow> snd m \<le> b"
proof (induction "m # ms" len arbitrary: m ms rule: nal_ranges.induct)
  case (3 c b c' b' ms len)
  then show ?case by (fastforce simp: mark_next_def mark_ok_def split: if_splits)
qed (auto split: if_splits)

lemma nal_ranges_ok:
  assumes "\<forall>x\<in>set ms. mark_ok data x" "successively (mark_next data) ms" "length data = len"
    "ms \<noteq> [] \<longrightarrow> (\<forall>j. snd (last ms) \<le> j \<longrightarrow> j + 3 \<le> len \<longrightarrow> \<not> code_at data j)"
  shows "sorted_wrt (\<lambda>r s. snd r + 3 \<le> fst s) (nal_ranges ms len) \<and>
    (\<forall>(b, e)\<in>set (nal_ranges ms len). 3 \<le> b \<and> b < e \<and> e \<le> len \<and> code_at data (b - 3) \<and>
       (\<forall>j. b \<le> j \<longrightarrow> j + 3 \<le> e \<longrightarrow> \<not> code_at data j))"
  using assms
proof (induction ms len rule: nal_ranges.induct)
  case (3 c b c' b' ms len)
  have start: "b' \<le> x" if "(x, y) \<in> set (nal_ranges ((c', b') # ms) len)" for x y
    using nal_ranges_begin [OF that, of data] 3(2,3) by simp
  have IH: "sorted_wrt (\<lambda>r s. snd r + 3 \<le> fst s) (nal_ranges ((c', b') # ms) len) \<and>
    (\<forall>(b, e)\<in>set (nal_ranges ((c', b') # ms) len). 3 \<le> b \<and> b < e \<and> e \<le> len \<and> code_at data (b - 3) \<and>
       (\<forall>j. b \<le> j \<longrightarrow> j + 3 \<le> e \<longrightarrow> \<not> code_at data j))"
    by (rule 3(1)) (use 3(2-5) in auto)
  have le: "c' + 3 \<le> b'" "b' \<le> len" "c + 3 \<le> b" "code_at data (b - 3)"
    "\<And>j. b \<le> j \<Longrightarrow> j + 3 \<le> c' \<Longrightarrow> \<not> code_at data j"
    using 3(2-4) by (auto simp: mark_ok_def mark_next_def)
  show ?case using IH le start by (fastforce split: if_splits)
qed (auto simp: mark_ok_def)

lemma findNalUnits_props:
  "sorted_wrt (\<lambda>r s. snd r + 3 \<le> fst s) (findNalUnits data) \<and>
   (\<forall>(b, e)\<in>set (findNalUnits data). 3 \<le> b \<and> b < e \<and> e \<le> length data \<and> code_at data (b - 3) \<and>
      (\<forall>j. b \<le> j \<longrightarrow> j + 3 \<le> e \<longrightarrow> \<not> code_at data j))"
proof -
  have "marks_ok data 0 []" by (simp add: marks_ok_def)
  from scan_codes_ok [OF this] obtain k where
    "marks_ok data k (scan_codes data 0 [])" "length data < k + 3" by blast
  then show ?thesis
    unfolding findNalUnits_def by (intro nal_ranges_ok) (auto simp: marks_ok_def)
qed


text \<open>The Annex-B splitter on arbitrary bytes: the ranges it returns are nonempty, in order
  and disjoint with room for a start code between them, lie inside the buffer, each begins right
  behind a start code, and no range contains a start code. Every read of the scan is in bounds.\<close>

theorem findNalUnits_sound:
  "sorted_wrt (\<lambda>r s. snd r + 3 \<le> fst s) (findNalUnits data) \<and>
   (\<forall>(b, e)\<in>set (findNalUnits data). 3 \<le> b \<and> b < e \<and> e \<le> length data \<and> code_at data (b - 3) \<and>
      (\<forall>j. b \<le> j \<longrightarrow> j + 3 \<le> e \<longrightarrow> \<not> code_at data j))"
  by (rule findNalUnits_props)

text \<open>The Annex-B form the handler itself writes: each NAL behind a four-byte code.\<close>

definition annexb :: "bytes list \<Rightarrow> bytes" where
  "annexb nals = concat (map (\<lambda>n. kStartCode @ n) nals)"

text \<open>A NAL unit with emulation prevention: not empty and free of start codes.\<close>

definition nal_ok :: "bytes \<Rightarrow> bool" where
  "nal_ok n \<longleftrightarrow> n \<noteq> [] \<and> (\<forall>j<length n. j + 3 \<le> length n \<longrightarrow> \<not> code_at n j)"

lemma scan_skip:
  "\<lbrakk>i \<le> k; \<And>j. i \<le> j \<Longrightarrow> j < k \<Longrightarrow> j + 3 \<le> length data \<Longrightarrow> \<not> code_at data j\<rbrakk>
    \<Longrightarrow> scan_codes data i ms = scan_codes data k ms"
proof (induction "k - i" arbitrary: i)
  case (Suc n)
  show ?case
  proof (cases "i + 3 \<le> length data")
    case True
    then have "scan_codes data i ms = scan_codes data (i + 1) ms"
      using Suc.prems Suc.hyps(2) by (subst scan_codes.simps) auto
    also have "\<dots> = scan_codes data k ms"
      by (rule Suc.hyps(1)) (use Suc in auto)
    finally show ?thesis .
  qed (use Suc.prems in \<open>simp add: scan_codes.simps\<close>)
qed simp

lemma code_at_shift: "code_at (pre @ xs) (length pre + j) \<longleftrightarrow> code_at xs j"
  by (auto simp: code_at_def nth_append)

lemma scan_code:
  assumes "code_at data i" "i + 3 \<le> length data" "1 \<le> i" "data ! (i - 1) = 0" "ms \<noteq> []"
    "snd (last ms) \<le> i - 1"
  shows "scan_codes data i ms = scan_codes data (i + 3) (ms @ [(i - 1, i + 3)])"
  using assms by (subst scan_codes.simps) simp

text \<open>Inside a NAL and across its end there is no start code before the second zero of the next.\<close>

lemma nal_no_code:
  assumes "nal_ok n" "j \<le> length n" "j + 3 \<le> length n + length rest"
    "rest = [] \<or> (\<exists>r. rest = kStartCode @ r)"
  shows "\<not> code_at (n @ rest) j"
proof (cases "j + 3 \<le> length n")
  case True
  then show ?thesis using assms(1) by (auto simp: nal_ok_def code_at_def nth_append)
next
  case False
  with assms obtain r where r: "rest = kStartCode @ r" by auto
  from False assms(2) consider "j + 2 = length n" | "j + 1 = length n" | "j = length n" by linarith
  then show ?thesis
    by cases (auto simp: r code_at_def kStartCode_def nth_append numeral_2_eq_2)
qed

fun markers_from :: "nat \<Rightarrow> bytes list \<Rightarrow> (nat \<times> nat) list" where
  "markers_from i [] = []"
| "markers_from i (n # ns) = (i, i + 4) # markers_from (i + 4 + length n) ns"

lemma annexb_simps [simp]: "annexb [] = []" "annexb (n # ns) = kStartCode @ n @ annexb ns"
  by (simp_all add: annexb_def)

lemma annexb_starts: "annexb ns = [] \<or> (\<exists>r. annexb ns = kStartCode @ r)"
  by (cases ns) auto

lemma kStartCode_len [simp]: "length kStartCode = 4"
  by (simp add: kStartCode_def)

lemma scan_annexb:
  assumes "\<forall>m\<in>set (n # ns). nal_ok m" "ms \<noteq> []" "snd (last ms) = length pre"
  shows "scan_codes (pre @ n @ annexb ns) (length pre) ms = ms @ markers_from (length pre + length n) ns"
  using assms
proof (induction ns arbitrary: pre n ms)
  case Nil
  have "scan_codes (pre @ n) (length pre) ms = scan_codes (pre @ n) (length (pre @ n)) ms"
    using Nil nal_no_code [of n _ "[]"]
    by (intro scan_skip) (auto simp: code_at_shift dest!: le_Suc_ex)
  then show ?case by (simp add: scan_codes.simps)
next
  case (Cons m ns)
  let ?d = "pre @ n @ annexb (m # ns)" and ?i = "length pre + length n"
  have "scan_codes ?d (length pre) ms = scan_codes ?d (?i + 1) ms"
    using Cons.prems nal_no_code [of n _ "annexb (m # ns)"] annexb_starts [of "m # ns"]
    by (intro scan_skip) (auto simp: code_at_shift simp del: annexb_simps dest!: le_Suc_ex)
  also have "\<dots> = scan_codes ?d (?i + 4) (ms @ [(?i, ?i + 4)])"
    using Cons.prems by (subst scan_code) (auto simp: code_at_def kStartCode_def nth_append add.commute)
  also have "\<dots> = (ms @ [(?i, ?i + 4)]) @ markers_from (length (pre @ n @ kStartCode) + length m) ns"
    using Cons.IH [of m "ms @ [(?i, ?i + 4)]" "pre @ n @ kStartCode"] Cons.prems
    by (simp add: add.assoc)
  finally show ?case by (simp add: add.assoc)
qed

lemma ranges_annexb:
  assumes "\<forall>m\<in>set (n # ns). nal_ok m"
  shows "map (\<lambda>(b, e). cut b e (pre @ n @ annexb ns))
     (nal_ranges ((c, length pre) # markers_from (length pre + length n) ns)
       (length (pre @ n @ annexb ns))) = n # ns"
  using assms
proof (induction ns arbitrary: pre n c)
  case Nil
  then show ?case by (auto simp: nal_ok_def cut_def)
next
  case (Cons m ns)
  have "cut (length pre) (length pre + length n) (pre @ n @ annexb (m # ns)) = n"
    by (rule cut_append_mid)
  moreover have "n \<noteq> []" using Cons.prems by (simp add: nal_ok_def)
  ultimately show ?case
    using Cons.IH [of m "pre @ n @ kStartCode" "length pre + length n"] Cons.prems
    by (simp add: add.assoc add.commute [of 4] add.left_commute)
qed

lemma split_annexb:
  assumes "\<forall>n\<in>set nals. nal_ok n"
  shows "map (\<lambda>(b, e). cut b e (annexb nals)) (findNalUnits (annexb nals)) = nals"
proof (cases nals)
  case Nil
  then show ?thesis by (simp add: findNalUnits_def scan_codes.simps)
next
  case (Cons n ns)
  let ?d = "kStartCode @ n @ annexb ns"
  have "scan_codes ?d 0 [] = scan_codes ?d 1 []"
    by (subst scan_codes.simps) (auto simp: code_at_def kStartCode_def)
  also have "\<dots> = scan_codes ?d 4 [(1, 4)]"
    by (subst scan_codes.simps) (auto simp: code_at_def kStartCode_def)
  also have "\<dots> = (1, 4) # markers_from (4 + length n) ns"
    using scan_annexb [of n ns "[(1, 4)]" kStartCode] assms Cons by simp
  finally show ?thesis
    using ranges_annexb [of n ns kStartCode 1] assms Cons by (simp add: findNalUnits_def)
qed

text \<open>The splitter inverts the Annex-B writer: NAL units that are not empty and contain no
  start code (what emulation prevention guarantees) are recovered one for one, in order, with
  their trailing zero bytes, from their four-byte start-code form.\<close>

theorem findNalUnits_annexb:
  assumes "\<forall>n\<in>set nals. nal_ok n"
  shows "map (\<lambda>(b, e). cut b e (annexb nals)) (findNalUnits (annexb nals)) = nals"
  by (rule split_annexb [OF assms])

lemma findNalUnits_annexb_witness:
  "map (\<lambda>(b, e). cut b e (annexb [[0x67, 0, 0], [0x65, 3]])) (findNalUnits (annexb [[0x67, 0, 0], [0x65, 3]]))
     = [[0x67, 0, 0], [0x65, 3]]"
  by (rule findNalUnits_annexb) (auto simp: nal_ok_def code_at_def less_Suc_eq)


section \<open>packetize as a function of the NAL units\<close>

text \<open>The payloads of one frame, without handler state: the FU-A fragments of a NAL, the packets
  of a NAL, the packets of an access unit; \<open>stamped\<close> numbers them.\<close>

definition fu_header :: "u8 \<Rightarrow> bool \<Rightarrow> bool \<Rightarrow> u8" where
  "fu_header h first fin =
    (let x = h AND kNalTypeMask; x = (if first then x OR kFuStart else x)
     in if fin then x OR kFuEnd else x)"

function fu_payloads :: "nat \<Rightarrow> u8 \<Rightarrow> bool \<Rightarrow> bytes \<Rightarrow> bytes list" where
  "fu_payloads mp h first rest =
    (if rest = [] then []
     else ([(h AND 0xE0) OR kNalFuA, fu_header h first (drop (fu_chunk mp) rest = [])]
            @ take (fu_chunk mp) rest) # fu_payloads mp h False (drop (fu_chunk mp) rest))"
  by pat_completeness auto
termination
  by (relation "measure (\<lambda>(_, _, _, rest). length rest)") (auto simp: fu_chunk_def)

declare fu_payloads.simps [simp del]

definition nal_payloads :: "nat \<Rightarrow> bytes \<Rightarrow> bytes list" where
  "nal_payloads mp n = (if length n \<le> mp then [n] else fu_payloads mp (n ! 0) True (drop 1 n))"

definition nals_of :: "bytes \<Rightarrow> bytes list" where
  "nals_of data = map (\<lambda>(b, e). cut b e data) (findNalUnits data)"

definition frame_payloads :: "nat \<Rightarrow> bytes \<Rightarrow> bytes list" where
  "frame_payloads mp data = concat (map (nal_payloads mp) (nals_of data))"

fun stamped :: "rtp_handler \<Rightarrow> encoded_frame \<Rightarrow> bytes list \<Rightarrow> rtp_packet list" where
  "stamped h f [] = []"
| "stamped h f (pl # pls) = make_packet h f pl # stamped (bump h) f pls"

definition bumps :: "nat \<Rightarrow> rtp_handler \<Rightarrow> rtp_handler" where
  "bumps k h = h\<lparr>rh_seq := rh_seq h + of_nat k\<rparr>"

lemma bump_simps [simp]: "rh_maxPayload (bump h) = rh_maxPayload h" "bumps 0 h = h"
  "bumps k (bump h) = bumps (Suc k) h" "rh_maxPayload (bumps k h) = rh_maxPayload h"
  "bumps j (bumps k h) = bumps (j + k) h" "bump h = bumps 1 h"
  by (simp_all add: bump_def bumps_def algebra_simps)

declare bump_simps(6) [simp del]

lemma stamped_append: "stamped h f (xs @ ys) = stamped h f xs @ stamped (bumps (length xs) h) f ys"
  by (induction xs arbitrary: h) simp_all

lemma stamped_Nil_iff [simp]: "stamped h f pls = [] \<longleftrightarrow> pls = []"
  by (cases pls) simp_all

lemma length_stamped [simp]: "length (stamped h f pls) = length pls"
  by (induction pls arbitrary: h) simp_all

lemma stamped_nth:
  "i < length pls \<Longrightarrow> stamped h f pls ! i = make_packet (bumps i h) f (pls ! i)"
  by (induction pls arbitrary: h i) (auto simp: nth_Cons split: nat.splits)

lemma fu_chunk_pos [simp]: "0 < fu_chunk mp"
  by (simp add: fu_chunk_def)

lemma cut_min: "pos < length xs \<Longrightarrow> cut pos (pos + min c (length xs - pos)) xs = take c (drop pos xs)"
  by (auto simp: cut_def min_def)

lemma fu_loop_eq:
  "fu_loop h f nal pos first =
    (let pls = fu_payloads (rh_maxPayload h) (nal ! 0) first (drop pos nal)
     in (stamped h f pls, bumps (length pls) h))"
proof (induction h f nal pos first rule: fu_loop.induct)
  case (1 h f nal pos first)
  let ?c = "fu_chunk (rh_maxPayload h)"
  show ?case
  proof (cases "pos < length nal")
    case True
    have d: "drop (pos + min ?c (length nal - pos)) nal = drop (?c + pos) nal"
      by (simp add: min_def add.commute)
    have l: "length nal \<le> pos + min ?c (length nal - pos) \<longleftrightarrow> drop ?c (drop pos nal) = []"
      using True by (auto simp: min_def)
    note IH = 1 [OF True refl refl refl refl refl refl refl refl refl]
    show ?thesis
      unfolding fu_loop.simps [of h f nal pos first] Let_def l
      using True IH by (simp add: fu_payloads.simps [of _ _ _ "drop pos nal"] cut_min fu_header_def
          Let_def d add.commute)
  qed (simp add: fu_loop.simps fu_payloads.simps)
qed

lemma nal_loop_eq:
  assumes "\<forall>(b, e)\<in>set nals. e \<le> length (ef_data f)"
  shows "nal_loop h f nals =
    (let pls = concat (map (nal_payloads (rh_maxPayload h)) (map (\<lambda>(b, e). cut b e (ef_data f)) nals))
     in (stamped h f pls, bumps (length pls) h))"
  using assms
proof (induction h f nals rule: nal_loop.induct)
  case (2 h f b e nals)
  show ?case
  proof (cases "e - b \<le> rh_maxPayload h")
    case True
    then show ?thesis using 2(2) 2(1) [OF refl refl refl] 
      by (simp add: nal_payloads_def Let_def)
  next
    case False
    then show ?thesis using 2(2) 2(1) [OF refl refl]
      by (simp add: nal_payloads_def Let_def fu_loop_eq stamped_append add.commute)
  qed
qed simp


lemma packetize_h264:
  assumes "\<not> ef_empty f" "ef_kind f = Video" "ef_videoCodec f = H264"
    "pls = frame_payloads (rh_maxPayload h) (ef_data f)"
  shows "packetize h f =
    (if findNalUnits (ef_data f) = [] then (fail Protocol, h)
     else if pls = [] then (fail Protocol, bumps (length pls) h)
     else (Inr (mark_last (stamped h f pls)), bumps (length pls) h))"
proof -
  have "\<forall>(b, e)\<in>set (findNalUnits (ef_data f)). e \<le> length (ef_data f)"
    using findNalUnits_props [of "ef_data f"] by auto
  from nal_loop_eq [OF this, of h]
  have "nal_loop h f (findNalUnits (ef_data f)) = (stamped h f pls, bumps (length pls) h)"
    unfolding assms(4) frame_payloads_def nals_of_def Let_def .
  then show ?thesis
    using assms(1-3) by (simp add: packetize_def packetizeH264_def)
qed

lemma nal_payloads_ne: "n \<noteq> [] \<Longrightarrow> 0 < mp \<Longrightarrow> nal_payloads mp n \<noteq> []"
  by (cases n rule: list.exhaust; cases "tl n") (auto simp: nal_payloads_def fu_payloads.simps)

lemma nals_of_ne: "n \<in> set (nals_of data) \<Longrightarrow> n \<noteq> []"
  using findNalUnits_props [of data] by (auto simp: nals_of_def cut_def)

lemma frame_payloads_ne:
  assumes "findNalUnits data \<noteq> []" "0 < mp"
  shows "frame_payloads mp data \<noteq> []"
proof -
  obtain n where n: "n \<in> set (nals_of data)"
    using assms(1) by (cases "findNalUnits data") (auto simp: nals_of_def)
  have "nal_payloads mp n \<noteq> []" using nals_of_ne [OF n] nal_payloads_ne assms(2) by blast
  with n show ?thesis unfolding frame_payloads_def concat_eq_Nil_conv by auto
qed

lemma fu_payloads_bound:
  "pl \<in> set (fu_payloads mp h first rest) \<Longrightarrow> length pl \<le> max mp 3 \<and> 3 \<le> length pl"
proof (induction mp h first rest rule: fu_payloads.induct)
  case (1 mp h first rest)
  show ?case
  proof (cases "rest = []")
    case False
    then have "1 \<le> min (length rest) (fu_chunk mp)" using fu_chunk_pos [of mp]
      by (simp add: Suc_le_eq del: fu_chunk_pos)
    then show ?thesis using 1 False
      by (auto simp: fu_payloads.simps [of mp h first rest] fu_chunk_def)
  qed (use 1 in \<open>simp add: fu_payloads.simps\<close>)
qed

lemma frame_payloads_bound:
  assumes "pl \<in> set (frame_payloads mp data)"
  shows "pl \<noteq> [] \<and> length pl \<le> max mp 3"
proof -
  from assms obtain n where n: "n \<in> set (nals_of data)" "pl \<in> set (nal_payloads mp n)"
    by (auto simp: frame_payloads_def)
  then show ?thesis
    using nals_of_ne [OF n(1)] fu_payloads_bound [of pl mp "n ! 0" True "drop 1 n"]
    by (cases "length n \<le> mp") (auto simp: nal_payloads_def)
qed

lemma mark_last_nth:
  "i < length ps \<Longrightarrow> mark_last ps ! i = (if i = length ps - 1 then (ps ! i)\<lparr>marker := True\<rparr> else ps ! i)"
  by (cases "ps = []") (auto simp: mark_last_def nth_append nth_butlast last_conv_nth)

lemma mark_last_ne [simp]: "mark_last ps \<noteq> []"
  by (simp add: mark_last_def)

lemma length_mark_last [simp]: "ps \<noteq> [] \<Longrightarrow> length (mark_last ps) = length ps"
  by (simp add: mark_last_def)

text \<open>The constructor's guarantee on \<^verbatim>\<open>maxPayload_\<close> and a 7-bit payload type.\<close>

definition handler_ok :: "rtp_handler \<Rightarrow> bool" where
  "handler_ok h \<longleftrightarrow> 0 < rh_maxPayload h \<and> unat (rh_payloadType h) < 128"

lemma packetize_cases:
  assumes "packetize h f = (Inr ps, h')"
  obtains (opus) "ef_kind f = Audio" "ps = [(make_packet h f (ef_data f))\<lparr>marker := True\<rparr>]" "h' = bump h"
  | (h264) pls where "ef_kind f = Video" "pls = frame_payloads (rh_maxPayload h) (ef_data f)" "pls \<noteq> []"
      "ps = mark_last (stamped h f pls)" "h' = bumps (length pls) h"
proof (cases "ef_kind f = Video")
  case True
  with assms have ne: "\<not> ef_empty f" "ef_videoCodec f = H264" by (auto simp: packetize_def split: if_splits)
  show ?thesis
    using packetize_h264 [where h = h, OF ne(1) True ne(2) refl] assms True
    by (intro h264) (auto split: if_splits)
next
  case False
  then have "ef_kind f = Audio" by (cases "ef_kind f") simp_all
  with assms opus show ?thesis by (auto simp: packetize_def packetizeOpus_def split: if_splits)
qed

lemma packetize_wire_all:
  assumes "packetize h f = (Inr ps, h')" "handler_ok h"
  shows "ps \<noteq> [] \<and> h' = h\<lparr>rh_seq := rh_seq h + of_nat (length ps)\<rparr> \<and>
    (\<forall>i<length ps. sequenceNumber (ps ! i) = rh_seq h + of_nat i \<and>
       timestamp (ps ! i) = ef_rtpTimestamp f \<and> ssrc (ps ! i) = rh_ssrc h \<and>
       payloadType (ps ! i) = rh_payloadType h \<and> (marker (ps ! i) \<longleftrightarrow> i = length ps - 1) \<and>
       parse (serialize (ps ! i)) = Inr (ps ! i))"
  using assms(1)
proof (cases rule: packetize_cases)
  case opus
  then show ?thesis using assms(2)
    by (auto simp: bump_def make_packet_def new_packet_def handler_ok_def plain_packet_def
        intro!: parse_serialize_plain)
next
  case (h264 pls)
  then show ?thesis using assms(2)
    by (auto simp: bumps_def make_packet_def new_packet_def mark_last_nth stamped_nth handler_ok_def
        plain_packet_def intro!: parse_serialize_plain)
qed

lemma packetize_wire:
  assumes "packetize h f = (Inr ps, h')" "handler_ok h" "p \<in> set ps"
  shows "projr (parse (serialize p)) = p"
  using packetize_wire_all [OF assms(1,2)] assms(3) by (auto simp: in_set_conv_nth)

text \<open>Numbering and headers of one access unit: the packets that packetize returns carry
  consecutive sequence numbers from the handler's counter (wrapping at 16 bits), which then stands
  behind the last one; all share the frame's timestamp, the stream's SSRC and payload type; the
  marker is set on the last packet and on no other; and each can go on the wire and be parsed
  back.\<close>

theorem packetize_headers:
  assumes "packetize h f = (Inr ps, h')" "handler_ok h"
  shows "ps \<noteq> [] \<and> h' = h\<lparr>rh_seq := rh_seq h + of_nat (length ps)\<rparr> \<and>
    (\<forall>i<length ps. sequenceNumber (ps ! i) = rh_seq h + of_nat i \<and>
       timestamp (ps ! i) = ef_rtpTimestamp f \<and> ssrc (ps ! i) = rh_ssrc h \<and>
       payloadType (ps ! i) = rh_payloadType h \<and> (marker (ps ! i) \<longleftrightarrow> i = length ps - 1) \<and>
       parse (serialize (ps ! i)) = Inr (ps ! i))"
  by (rule packetize_wire_all [OF assms])


text \<open>The outcome as a function of the frame alone.\<close>

definition frame_error :: "encoded_frame \<Rightarrow> error option" where
  "frame_error f =
    (if ef_data f = [] then Some InvalidArgument
     else if (if ef_kind f = Video then ef_videoCodec f \<noteq> H264 else ef_audioCodec f \<noteq> Opus)
     then Some Unsupported
     else if ef_kind f = Video \<and> findNalUnits (ef_data f) = [] then Some Protocol
     else None)"

lemma packetize_outcome:
  assumes "0 < rh_maxPayload h"
  shows "case frame_error f of
      Some e \<Rightarrow> packetize h f = (Inl e, h)
    | None \<Rightarrow> \<exists>ps h'. packetize h f = (Inr ps, h')"
proof (cases "ef_kind f")
  case Video
  then show ?thesis
    using frame_payloads_ne [OF _ assms, of "ef_data f"] packetize_h264 [where h = h and f = f, OF _ _ _ refl]
    by (cases "ef_data f = [] \<or> ef_videoCodec f \<noteq> H264")
      (auto simp: frame_error_def packetize_def [of h f] ef_empty_iff fail_def)
next
  case Audio
  then show ?thesis by (simp add: frame_error_def packetize_def packetizeOpus_def ef_empty_iff fail_def)
qed

text \<open>The error contract: an empty frame is InvalidArgument, a codec other than H.264 or Opus
  is Unsupported, a video payload without a NAL unit is Protocol; every other frame succeeds, and a
  refused frame leaves the handler (its sequence counter) unchanged.\<close>

theorem packetize_errors:
  assumes "0 < rh_maxPayload h"
  shows "case frame_error f of
      Some e \<Rightarrow> packetize h f = (Inl e, h)
    | None \<Rightarrow> \<exists>ps h'. packetize h f = (Inr ps, h')"
  by (rule packetize_outcome [OF assms])


section \<open>Reassembly\<close>

lemma fu_bytes:
  "((h AND 0xE0) OR kNalFuA) AND kNalTypeMask = kNalFuA"
  "(((h AND 0xE0) OR kNalFuA) AND 0xE0) OR (fu_header h first fin AND kNalTypeMask) = h"
  "fu_header h first fin AND kFuStart = 0 \<longleftrightarrow> \<not> first"
  "fu_header h first fin AND kFuEnd = 0 \<longleftrightarrow> \<not> fin"
proof -
  note defs = kNalFuA_def kNalTypeMask_def kFuStart_def kFuEnd_def fu_header_def Let_def
  show "((h AND 0xE0) OR kNalFuA) AND kNalTypeMask = kNalFuA"
    unfolding defs by (rule u8_eqI) (simp_all add: bit_simps)
  show "(((h AND 0xE0) OR kNalFuA) AND 0xE0) OR (fu_header h first fin AND kNalTypeMask) = h"
    unfolding defs by (rule u8_eqI) (simp_all add: bit_simps)
  show "fu_header h first fin AND kFuStart = 0 \<longleftrightarrow> \<not> first"
    "fu_header h first fin AND kFuEnd = 0 \<longleftrightarrow> \<not> fin"
    unfolding defs u8_mask_bit by (simp_all add: bit_simps)
qed

lemma depack_loop_payloads:
  "map payload ps = map payload qs \<Longrightarrow> depack_loop s ps = depack_loop s qs"
proof (induction ps arbitrary: qs s)
  case (Cons p ps)
  then obtain q qs' where q: "qs = q # qs'" "payload p = payload q" "map payload ps = map payload qs'"
    by auto
  have "depack_step s p = depack_step s q" unfolding depack_step_def q(2) ..
  then show ?case using Cons.IH [OF q(3)] by (simp add: q(1) split: sum.splits)
qed simp

definition body_packet :: "bytes \<Rightarrow> rtp_packet" where
  "body_packet pl = new_packet\<lparr>payload := pl\<rparr>"

lemma payload_body [simp]: "payload (body_packet pl) = pl"
  by (simp add: body_packet_def)

lemma map_payload_stamped: "map payload (stamped h f pls) = pls"
  by (induction pls arbitrary: h) (simp_all add: make_packet_def)

lemma map_payload_mark_last: "ps \<noteq> [] \<Longrightarrow> map payload (mark_last ps) = map payload ps"
  by (cases ps rule: rev_cases) (simp_all add: mark_last_def)

lemma depack_loop_mark_last:
  "pls \<noteq> [] \<Longrightarrow> depack_loop s (mark_last (stamped h f pls)) = depack_loop s (map body_packet pls)"
  by (rule depack_loop_payloads) (simp add: map_payload_mark_last map_payload_stamped o_def)

definition key_nal :: "bytes \<Rightarrow> bool" where
  "key_nal n \<longleftrightarrow> n ! 0 AND kNalTypeMask \<in> {5, 7, 8}"

text \<open>\<open>takes n s s'\<close>: between NAL units, \<open>s'\<close> is \<open>s\<close> after the NAL \<open>n\<close> was appended.\<close>

definition takes :: "bytes \<Rightarrow> depack \<Rightarrow> depack \<Rightarrow> bool" where
  "takes n s s' \<longleftrightarrow> \<not> dp_inFu s' \<and> dp_out s' = dp_out s @ kStartCode @ n \<and>
     dp_sawKeyframe s' = (dp_sawKeyframe s \<or> key_nal n)"

lemma recordType_simps [simp]:
  "dp_out (recordType t s) = dp_out s" "dp_inFu (recordType t s) = dp_inFu s"
  "dp_fuAccum (recordType t s) = dp_fuAccum s" "dp_fuNalHeader (recordType t s) = dp_fuNalHeader s"
  "dp_sawKeyframe (recordType t s) = (dp_sawKeyframe s \<or> t \<in> {5, 7, 8})"
  by (simp_all add: recordType_def)

lemma depack_fu_packet:
  assumes "first \<longleftrightarrow> \<not> dp_inFu s" "\<not> first \<Longrightarrow> dp_fuNalHeader s = h"
  defines "acc \<equiv> (if first then [h] else dp_fuAccum s)"
  shows "\<exists>s'. depack_step s (body_packet ([(h AND 0xE0) OR kNalFuA, fu_header h first fin] @ t)) = Inr s' \<and>
    (if fin then \<not> dp_inFu s' \<and> dp_out s' = dp_out s @ kStartCode @ acc @ t \<and>
        dp_sawKeyframe s' = (dp_sawKeyframe s \<or> h AND kNalTypeMask \<in> {5, 7, 8})
     else dp_inFu s' \<and> dp_out s' = dp_out s \<and> dp_sawKeyframe s' = dp_sawKeyframe s \<and>
        dp_fuNalHeader s' = h \<and> dp_fuAccum s' = acc @ t)"
  using assms(1,2) by (auto simp: depack_step_def Let_def fu_bytes acc_def)

lemma depack_fu_rest:
  "\<lbrakk>rest \<noteq> []; dp_inFu s; dp_fuNalHeader s = h; dp_fuAccum s = h # acc\<rbrakk> \<Longrightarrow>
   \<exists>s'. depack_loop s (map body_packet (fu_payloads mp h False rest) @ qs) = depack_loop s' qs \<and>
     takes (h # acc @ rest) s s'"
proof (induction mp h False rest arbitrary: s acc rule: fu_payloads.induct)
  case (1 mp h rest)
  let ?r = "drop (fu_chunk mp) rest" and ?t = "take (fu_chunk mp) rest"
  from depack_fu_packet [of False s h "?r = []" ?t] 1(3,4)
  obtain s1 where s1: "depack_step s (body_packet ([(h AND 0xE0) OR kNalFuA, fu_header h False (?r = [])] @ ?t)) = Inr s1"
    and c: "if ?r = [] then \<not> dp_inFu s1 \<and> dp_out s1 = dp_out s @ kStartCode @ (h # acc) @ ?t \<and>
        dp_sawKeyframe s1 = (dp_sawKeyframe s \<or> h AND kNalTypeMask \<in> {5, 7, 8})
     else dp_inFu s1 \<and> dp_out s1 = dp_out s \<and> dp_sawKeyframe s1 = dp_sawKeyframe s \<and>
        dp_fuNalHeader s1 = h \<and> dp_fuAccum s1 = (h # acc) @ ?t"
    using 1(5) by auto
  show ?case
  proof (cases "?r = []")
    case True
    then show ?thesis using s1 c 1(2)
      by (auto simp: fu_payloads.simps [of mp h False rest] fu_payloads.simps [of mp h False "[]"]
          takes_def key_nal_def)
  next
    case False
    with c 1(1) [OF 1(2) False, of s1 "acc @ ?t"]
    obtain s' where "depack_loop s1 (map body_packet (fu_payloads mp h False ?r) @ qs) = depack_loop s' qs"
      "takes (h # (acc @ ?t) @ ?r) s1 s'" by auto
    then show ?thesis using s1 c False 1(2)
      by (auto simp: fu_payloads.simps [of mp h False rest] takes_def)
  qed
qed

text \<open>A NAL may travel unfragmented only if its type is not the FU-A type itself.\<close>

definition sendable :: "nat \<Rightarrow> bytes \<Rightarrow> bool" where
  "sendable mp n \<longleftrightarrow> n \<noteq> [] \<and> (length n \<le> mp \<longrightarrow> n ! 0 AND kNalTypeMask \<noteq> kNalFuA)"

lemma depack_nal:
  assumes "sendable mp n" "0 < mp" "\<not> dp_inFu s"
  shows "\<exists>s'. depack_loop s (map body_packet (nal_payloads mp n) @ qs) = depack_loop s' qs \<and> takes n s s'"
proof (cases "length n \<le> mp")
  case True
  with assms show ?thesis
    by (auto simp: nal_payloads_def sendable_def depack_step_def Let_def takes_def key_nal_def)
next
  case False
  then obtain h rest where n: "n = h # rest" "rest \<noteq> []" using assms(2) by (cases n; cases "tl n") auto
  let ?r = "drop (fu_chunk mp) rest" and ?t = "take (fu_chunk mp) rest"
  from depack_fu_packet [of True s h "?r = []" ?t] assms(3)
  obtain s1 where s1: "depack_step s (body_packet ([(h AND 0xE0) OR kNalFuA, fu_header h True (?r = [])] @ ?t)) = Inr s1"
    and c: "if ?r = [] then \<not> dp_inFu s1 \<and> dp_out s1 = dp_out s @ kStartCode @ [h] @ ?t \<and>
        dp_sawKeyframe s1 = (dp_sawKeyframe s \<or> h AND kNalTypeMask \<in> {5, 7, 8})
     else dp_inFu s1 \<and> dp_out s1 = dp_out s \<and> dp_sawKeyframe s1 = dp_sawKeyframe s \<and>
        dp_fuNalHeader s1 = h \<and> dp_fuAccum s1 = [h] @ ?t"
    by auto
  have pls: "nal_payloads mp (h # rest) = ([(h AND 0xE0) OR kNalFuA, fu_header h True (?r = [])] @ ?t) # fu_payloads mp h False ?r"
    using False n by (simp add: nal_payloads_def fu_payloads.simps [of mp h True rest])
  show ?thesis
  proof (cases "?r = []")
    case True
    then show ?thesis using s1 c n
      by (auto simp: pls fu_payloads.simps [of mp h False "[]"] takes_def key_nal_def)
  next
    case False
    with c depack_fu_rest [of ?r s1 h ?t mp qs]
    obtain s' where "depack_loop s1 (map body_packet (fu_payloads mp h False ?r) @ qs) = depack_loop s' qs"
      "takes (h # ?t @ ?r) s1 s'" by auto
    then show ?thesis using s1 c False n by (auto simp: pls takes_def)
  qed
qed

lemma depack_nals:
  assumes "\<forall>n\<in>set nals. sendable mp n" "0 < mp" "\<not> dp_inFu s"
  shows "\<exists>s'. depack_loop s (map body_packet (concat (map (nal_payloads mp) nals))) = Inr s' \<and>
    \<not> dp_inFu s' \<and> dp_out s' = dp_out s @ annexb nals \<and>
    dp_sawKeyframe s' = (dp_sawKeyframe s \<or> (\<exists>n\<in>set nals. key_nal n))"
  using assms
proof (induction nals arbitrary: s)
  case (Cons n nals)
  from depack_nal [of mp n s "map body_packet (concat (map (nal_payloads mp) nals))"] Cons.prems
  obtain s1 where s1: "depack_loop s (map body_packet (concat (map (nal_payloads mp) (n # nals)))) =
      depack_loop s1 (map body_packet (concat (map (nal_payloads mp) nals)))" "takes n s s1" by auto
  then have "\<not> dp_inFu s1" by (simp add: takes_def)
  from Cons.IH [OF _ _ this] Cons.prems show ?case
    unfolding s1(1) using s1(2) by (auto simp: takes_def)
qed simp


lemma depacketize_payloads:
  assumes "packetize h f = (Inr ps, h')" "ef_kind f = Video" "0 < rh_maxPayload h"
    "\<forall>n\<in>set (nals_of (ef_data f)). sendable (rh_maxPayload h) n"
  shows "depacketize ps Video vc ac = Inr (new_encoded_frame\<lparr>ef_kind := Video, ef_videoCodec := vc,
     ef_keyframe := (\<exists>n\<in>set (nals_of (ef_data f)). key_nal n), ef_rtpTimestamp := ef_rtpTimestamp f,
     ef_payload := Some (annexb (nals_of (ef_data f)))\<rparr>)"
  using assms(1)
proof (cases rule: packetize_cases)
  case (h264 pls)
  have "\<not> dp_inFu depack_init" by (simp add: depack_init_def)
  from depack_nals [OF assms(4,3) this] obtain s' where s':
    "depack_loop depack_init (map body_packet pls) = Inr s'" "\<not> dp_inFu s'"
    "dp_out s' = annexb (nals_of (ef_data f))"
    "dp_sawKeyframe s' = (\<exists>n\<in>set (nals_of (ef_data f)). key_nal n)"
    by (auto simp: h264(2) frame_payloads_def depack_init_def)
  have "timestamp (hd ps) = ef_rtpTimestamp f"
    using h264(3,4) by (cases pls rule: list.exhaust; cases "tl pls = []")
      (auto simp: mark_last_def make_packet_def)
  moreover have "depack_loop depack_init ps = Inr s'"
    using s'(1) h264(3) by (simp add: h264(4) depack_loop_mark_last)
  ultimately show ?thesis
    using h264(4) s' by (simp add: depacketize_def setPayload_def new_encoded_frame_def)
qed (use assms in simp)

text \<open>Reassembly inverts packetization: the packets of any video frame whose NAL units may
  be sent (a NAL that fits one packet must not have the FU-A type) give back exactly the NAL units
  of the frame, each behind a four-byte start code, with the frame's timestamp and with the
  keyframe flag set when one of them is an IDR slice, an SPS or a PPS; single packets and fragment
  runs of any length alike.\<close>

theorem depacketize_packetize:
  assumes "packetize h f = (Inr ps, h')" "ef_kind f = Video" "0 < rh_maxPayload h"
    "\<forall>n\<in>set (nals_of (ef_data f)). sendable (rh_maxPayload h) n"
  shows "\<exists>g. depacketize ps Video H264 ac = Inr g \<and> ef_data g = annexb (nals_of (ef_data f)) \<and>
    ef_rtpTimestamp g = ef_rtpTimestamp f \<and> ef_videoCodec g = H264 \<and>
    (ef_keyframe g \<longleftrightarrow> (\<exists>n\<in>set (nals_of (ef_data f)). key_nal n))"
  using depacketize_payloads [OF assms] by (simp add: ef_data_def)


lemma depack_loop_whole:
  assumes "\<exists>nals. dp_out s = annexb nals \<and> [] \<notin> set nals \<and> length nals + (if dp_inFu s then 1 else 0) \<le> k"
    "dp_inFu s \<longrightarrow> dp_fuAccum s \<noteq> []"
  shows "case depack_loop s ps of Inl e \<Rightarrow> e = Protocol
    | Inr s' \<Rightarrow> \<exists>nals. dp_out s' = annexb nals \<and> [] \<notin> set nals \<and> length nals \<le> k + length ps"
  using assms
proof (induction ps arbitrary: s k)
  case (Cons p ps)
  obtain nals where n: "dp_out s = annexb nals" "[] \<notin> set nals" "length nals + (if dp_inFu s then 1 else 0) \<le> k"
    using Cons.prems(1) by blast
  have app: "annexb nals @ kStartCode @ x = annexb (nals @ [x])" for x by (simp add: annexb_def)
  show ?case
  proof (cases "depack_step s p")
    case (Inl e)
    then show ?thesis by (auto simp: depack_step_def Let_def fail_def split: if_splits)
  next
    case (Inr s1)
    have "(\<exists>nals. dp_out s1 = annexb nals \<and> [] \<notin> set nals \<and>
        length nals + (if dp_inFu s1 then 1 else 0) \<le> Suc k) \<and> (dp_inFu s1 \<longrightarrow> dp_fuAccum s1 \<noteq> [])"
    proof (cases "dp_out s1 = dp_out s")
      case True
      then have "dp_inFu s1" "dp_fuAccum s1 \<noteq> []" using Inr Cons.prems(2)
        by (auto simp: depack_step_def Let_def fail_def kStartCode_def split: if_splits)
      then show ?thesis using True n by (intro conjI exI [of _ nals]) (auto split: if_splits)
    next
      case False
      then obtain x where "dp_out s1 = dp_out s @ kStartCode @ x" "x \<noteq> []" "\<not> dp_inFu s1"
        using Inr Cons.prems(2)
        by (auto simp: depack_step_def Let_def fail_def split: if_splits)
      then show ?thesis using n app [of x] by (intro conjI exI [of _ "nals @ [x]"]) (auto split: if_splits)
    qed
    then have "case depack_loop s1 ps of Inl e \<Rightarrow> e = Protocol
      | Inr s' \<Rightarrow> \<exists>nals. dp_out s' = annexb nals \<and> [] \<notin> set nals \<and> length nals \<le> Suc k + length ps"
      by (intro Cons.IH) auto
    then show ?thesis by (simp only: depack_loop.simps Inr sum.case list.size add_Suc add_Suc_right add_0_right)
  qed
qed (auto split: if_splits)

text \<open>Reassembly of arbitrary packets never yields a partial NAL unit: the only errors are
  InvalidArgument for no packets and Protocol otherwise, and a frame that comes out is a sequence
  of nonempty NAL units behind start codes, no more than there were packets.\<close>

theorem depacketize_whole_nals:
  "case depacketize ps Video vc ac of
     Inl e \<Rightarrow> e = (if ps = [] then InvalidArgument else Protocol)
   | Inr f \<Rightarrow> \<exists>nals. ef_data f = annexb nals \<and> [] \<notin> set nals \<and> length nals \<le> length ps"
proof -
  have "case depack_loop depack_init ps of Inl e \<Rightarrow> e = Protocol
    | Inr s' \<Rightarrow> \<exists>nals. dp_out s' = annexb nals \<and> [] \<notin> set nals \<and> length nals \<le> 0 + length ps"
    by (rule depack_loop_whole) (auto simp: depack_init_def intro: exI [of _ "[]"])
  then show ?thesis
    by (auto simp: depacketize_def fail_def Let_def split: sum.splits)
qed


section \<open>Concrete runs\<close>

definition sample_handler :: rtp_handler where
  "sample_handler = (new_rtp_handler 96 7 90000 4)\<lparr>rh_seq := 65534\<rparr>"

definition sample_nals :: "bytes list" where
  "sample_nals = [[0x67, 1], [0x65, 1, 2, 3, 4]]"

definition sample_frame :: encoded_frame where
  "sample_frame = setPayload (annexb sample_nals)
     (new_encoded_frame\<lparr>ef_videoCodec := H264, ef_rtpTimestamp := 3000\<rparr>)"

definition sample_sent :: "rtp_packet list" where
  "sample_sent = [make_packet sample_handler sample_frame [0x67, 1],
     make_packet (bumps 1 sample_handler) sample_frame [0x7C, 0x85, 1, 2],
     (make_packet (bumps 2 sample_handler) sample_frame [0x7C, 0x45, 3, 4])\<lparr>marker := True\<rparr>]"

lemma sample_handler_ok: "handler_ok sample_handler" "0 < rh_maxPayload sample_handler"
  by (simp_all add: handler_ok_def sample_handler_def new_rtp_handler_def)

lemma sample_nals_ok: "\<forall>n\<in>set sample_nals. nal_ok n \<and> sendable (rh_maxPayload sample_handler) n"
  by (auto simp: sample_nals_def nal_ok_def code_at_def less_Suc_eq sendable_def sample_handler_def
      new_rtp_handler_def kNalTypeMask_def kNalFuA_def)

lemma sample_run: "packetize sample_handler sample_frame = (Inr sample_sent, bumps 3 sample_handler)"
  by code_simp

lemma sample_sendable:
  "\<forall>n\<in>set (nals_of (ef_data sample_frame)). sendable (rh_maxPayload sample_handler) n"
  using sample_nals_ok split_annexb [of sample_nals] by (simp add: nals_of_def sample_frame_def)

lemma sample_kind: "ef_kind sample_frame = Video" "ef_videoCodec sample_frame = H264"
  "ef_data sample_frame = annexb sample_nals" "sample_nals \<noteq> []"
  by (simp_all add: sample_frame_def new_encoded_frame_def sample_nals_def)

lemma packetize_headers_witness:
  "map sequenceNumber sample_sent = [65534, 65535, 0] \<and> parse (serialize (sample_sent ! 2)) = Inr (sample_sent ! 2)"
proof -
  have "length sample_sent = 3" by (simp add: sample_sent_def)
  then have "parse (serialize (sample_sent ! 2)) = Inr (sample_sent ! 2)"
    using packetize_headers [OF sample_run sample_handler_ok(1)] by simp
  then show ?thesis
    by (simp add: sample_sent_def make_packet_def bumps_def sample_handler_def new_rtp_handler_def)
qed


lemma packetize_errors_witness: "packetize sample_handler (setPayload [1, 2, 3] sample_frame) = (Inl Protocol, sample_handler)"
proof -
  have "frame_error (setPayload [1, 2, 3] sample_frame) = Some Protocol" by code_simp
  then show ?thesis using packetize_errors [OF sample_handler_ok(2), of "setPayload [1, 2, 3] sample_frame"] by simp
qed

lemma depacketize_packetize_witness:
  "\<exists>g. depacketize sample_sent Video H264 Opus = Inr g \<and> ef_data g = [0, 0, 0, 1, 0x67, 1, 0, 0, 0, 1, 0x65, 1, 2, 3, 4]"
proof -
  have "annexb (nals_of (ef_data sample_frame)) = [0, 0, 0, 1, 0x67, 1, 0, 0, 0, 1, 0x65, 1, 2, 3, 4]"
    using split_annexb [of sample_nals] sample_nals_ok sample_kind(3)
    by (simp add: nals_of_def) (simp add: sample_nals_def kStartCode_def)
  then show ?thesis
    using depacketize_packetize [OF sample_run sample_kind(1) sample_handler_ok(2) sample_sendable, of Opus]
    by auto
qed



lemma findNalUnits_sound_witness:
  "findNalUnits [0, 0, 1, 0x65, 7, 0, 0, 0, 1, 0x41] = [(3, 5), (9, 10)] \<and>
   code_at [0, 0, 1, 0x65, 7, 0, 0, 0, 1, 0x41] (9 - 3)"
proof -
  have "findNalUnits [0, 0, 1, 0x65, 7, 0, 0, 0, 1, 0x41] = [(3, 5), (9, 10)]" by code_simp
  then show ?thesis using findNalUnits_sound [of "[0, 0, 1, 0x65, 7, 0, 0, 0, 1, 0x41]"] by simp
qed

end
