(* ===== verification/Jitter.thy ===== *)
theory Jitter
  imports Rtp_Handler
begin

text \<open>
  The jitter buffer of src/src/network/JitterBuffer.cpp. The mutex makes every operation atomic,
  so an operation is a function on the record \<open>jitter_buffer\<close>. \<open>jb_frames\<close> is the ordered
  map of pending access units in its iteration order, looked up as the map does by the
  wraparound comparison \<^verbatim>\<open>tsLessThan\<close>: two timestamps neither of which precedes the other
  (equal, or exactly half the circle apart) are the same key. A frame's packets are a map that the
  code only looks up and counts, an association list here.
\<close>

section \<open>State\<close>

record jitter_config =
  targetDelay :: int
  jc_kind :: media_kind
  jc_videoCodec :: video_codec
  jc_audioCodec :: audio_codec

text \<open>Milliseconds as nanoseconds of the steady clock.\<close>

definition default_jitter_config :: jitter_config where
  "default_jitter_config = \<lparr>targetDelay = 50 * 1000000, jc_kind = Video, jc_videoCodec = H264,
     jc_audioCodec = Opus\<rparr>"

record jitter_stats =
  js_pushed :: u64
  js_duplicates :: u64
  js_late :: u64
  js_emitted :: u64
  js_reordered :: u64

record pending_frame =
  pf_timestamp :: u32
  pf_firstArrival :: steady_time
  pf_hasMarker :: bool
  pf_minSeq :: u16
  pf_maxSeq :: u16
  pf_seqInit :: bool
  pf_packets :: "(u16 \<times> rtp_packet) list"

definition new_pending :: pending_frame where
  "new_pending = \<lparr>pf_timestamp = 0, pf_firstArrival = 0, pf_hasMarker = False, pf_minSeq = 0,
     pf_maxSeq = 0, pf_seqInit = False, pf_packets = []\<rparr>"

type_synonym frames = "(u32 \<times> pending_frame) list"

record jitter_buffer =
  jb_config :: jitter_config
  jb_frames :: frames
  jb_hasEmitted :: bool
  jb_lastEmittedTs :: u32
  jb_stats :: jitter_stats

definition new_jitter_buffer :: "jitter_config \<Rightarrow> jitter_buffer" where
  "new_jitter_buffer c = \<lparr>jb_config = c, jb_frames = [], jb_hasEmitted = False,
     jb_lastEmittedTs = 0, jb_stats = \<lparr>js_pushed = 0, js_duplicates = 0, js_late = 0,
     js_emitted = 0, js_reordered = 0\<rparr>\<rparr>"

section \<open>The ordered map\<close>

fun frames_find :: "u32 \<Rightarrow> frames \<Rightarrow> pending_frame option" where
  "frames_find ts [] = None"
| "frames_find ts ((k, f) # r) =
     (if tsLessThan k ts then frames_find ts r else if tsLessThan ts k then None else Some f)"

fun frames_put :: "u32 \<Rightarrow> pending_frame \<Rightarrow> frames \<Rightarrow> frames" where
  "frames_put ts f [] = [(ts, f)]"
| "frames_put ts f ((k, g) # r) =
     (if tsLessThan k ts then (k, g) # frames_put ts f r
      else if tsLessThan ts k then (ts, f) # (k, g) # r else (k, f) # r)"

section \<open>push\<close>

definition is_late :: "jitter_buffer \<Rightarrow> u32 \<Rightarrow> bool" where
  "is_late b ts \<longleftrightarrow> jb_hasEmitted b \<and> (ts = jb_lastEmittedTs b \<or> tsLessThan ts (jb_lastEmittedTs b))"

definition touch_frame :: "rtp_packet \<Rightarrow> steady_time \<Rightarrow> pending_frame \<Rightarrow> pending_frame" where
  "touch_frame p arrival f =
    (if pf_packets f = [] then f\<lparr>pf_timestamp := timestamp p, pf_firstArrival := arrival\<rparr> else f)"

definition frame_has :: "u16 \<Rightarrow> pending_frame \<Rightarrow> bool" where
  "frame_has s f \<longleftrightarrow> map_of (pf_packets f) s \<noteq> None"

definition is_reordered :: "rtp_packet \<Rightarrow> pending_frame \<Rightarrow> bool" where
  "is_reordered p f \<longleftrightarrow> pf_seqInit f \<and> seqLessThan (sequenceNumber p) (pf_maxSeq f)"

definition frame_add :: "rtp_packet \<Rightarrow> pending_frame \<Rightarrow> pending_frame" where
  "frame_add p f =
    (let s = sequenceNumber p;
         f1 = (if \<not> pf_seqInit f then f\<lparr>pf_minSeq := s, pf_maxSeq := s, pf_seqInit := True\<rparr>
               else f\<lparr>pf_minSeq := (if seqLessThan s (pf_minSeq f) then s else pf_minSeq f),
                      pf_maxSeq := (if seqLessThan (pf_maxSeq f) s then s else pf_maxSeq f)\<rparr>)
     in f1\<lparr>pf_hasMarker := (if marker p then True else pf_hasMarker f1),
           pf_packets := AList.update s p (pf_packets f1)\<rparr>)"

definition push :: "jitter_buffer \<Rightarrow> rtp_packet \<Rightarrow> steady_time \<Rightarrow> bool \<times> jitter_buffer" where
  "push b p arrival =
    (if is_late b (timestamp p)
     then (False, b\<lparr>jb_stats := (jb_stats b)\<lparr>js_late := js_late (jb_stats b) + 1\<rparr>\<rparr>)
     else
       let f0 = (case frames_find (timestamp p) (jb_frames b) of Some f \<Rightarrow> f | None \<Rightarrow> new_pending);
           f = touch_frame p arrival f0
       in if frame_has (sequenceNumber p) f
          then (False, b\<lparr>jb_frames := frames_put (timestamp p) f (jb_frames b),
                  jb_stats := (jb_stats b)\<lparr>js_duplicates := js_duplicates (jb_stats b) + 1\<rparr>\<rparr>)
          else
            let st = (if is_reordered p f then (jb_stats b)\<lparr>js_reordered := js_reordered (jb_stats b) + 1\<rparr>
                      else jb_stats b)
            in (True, b\<lparr>jb_frames := frames_put (timestamp p) (frame_add p f) (jb_frames b),
                  jb_stats := st\<lparr>js_pushed := js_pushed st + 1\<rparr>\<rparr>))"

section \<open>isComplete and pop\<close>

definition isComplete :: "jitter_config \<Rightarrow> pending_frame \<Rightarrow> bool" where
  "isComplete c f =
    (if jc_kind c = Audio then pf_packets f \<noteq> []
     else if \<not> pf_hasMarker f \<or> pf_packets f = [] then False
     else unat (seqDistance (pf_minSeq f) (pf_maxSeq f)) + 1 = length (pf_packets f))"

lemma seq_step_measure: "s \<noteq> (m :: u16) \<Longrightarrow> unat (m - (s + 1)) < unat (m - s)"
proof -
  assume "s \<noteq> m"
  then have "m - s \<noteq> 0" by simp
  then have "unat (m - s - 1) < unat (m - s)" by (simp add: unat_minus_one unat_gt_0 word_neq_0_conv [symmetric])
  then show ?thesis by (simp add: diff_diff_eq)
qed

text \<open>The walk from \<^verbatim>\<open>minSeq\<close> to \<^verbatim>\<open>maxSeq\<close> with the 16-bit wrap.\<close>

function walk :: "(u16 \<times> rtp_packet) list \<Rightarrow> u16 \<Rightarrow> u16 \<Rightarrow> rtp_packet list" where
  "walk pk s m = (case map_of pk s of Some p \<Rightarrow> [p] | None \<Rightarrow> []) @
     (if s = m then [] else walk pk (s + 1) m)"
  by pat_completeness auto
termination
  by (relation "measure (\<lambda>(pk, s, m). unat (m - s))") (auto simp: seq_step_measure)

declare walk.simps [simp del]

definition ordered :: "pending_frame \<Rightarrow> rtp_packet list" where
  "ordered f = walk (pf_packets f) (pf_minSeq f) (pf_maxSeq f)"

definition emit_mark :: "frames \<Rightarrow> u32 \<Rightarrow> jitter_buffer \<Rightarrow> jitter_buffer" where
  "emit_mark rest ts b = b\<lparr>jb_frames := rest, jb_hasEmitted := True, jb_lastEmittedTs := ts\<rparr>"

function pop :: "jitter_buffer \<Rightarrow> steady_time \<Rightarrow> encoded_frame option \<times> jitter_buffer" where
  "pop b now =
    (case jb_frames b of
       [] \<Rightarrow> (None, b)
     | (k, f) # rest \<Rightarrow>
         if \<not> (now - pf_firstArrival f \<ge> targetDelay (jb_config b)) then (None, b)
         else
           let b' = emit_mark rest (pf_timestamp f) b in
           if \<not> isComplete (jb_config b) f then pop b' now
           else case depacketize (ordered f) (jc_kind (jb_config b)) (jc_videoCodec (jb_config b))
                       (jc_audioCodec (jb_config b)) of
                  Inl e \<Rightarrow> pop b' now
                | Inr g \<Rightarrow> (Some g, b'\<lparr>jb_stats := (jb_stats b')\<lparr>js_emitted := js_emitted (jb_stats b') + 1\<rparr>\<rparr>))"
  by pat_completeness auto
termination
  by (relation "measure (\<lambda>(b, _). length (jb_frames b))") (auto simp: emit_mark_def)

declare pop.simps [simp del]

section \<open>gaps and the accessors\<close>

record sequence_gap =
  firstMissing :: u16
  lastMissing :: u16

function gap_walk :: "(u16 \<times> rtp_packet) list \<Rightarrow> u16 \<Rightarrow> u16 \<Rightarrow> bool \<Rightarrow> sequence_gap \<Rightarrow> sequence_gap list" where
  "gap_walk pk s m inGap cur =
    (let present = (map_of pk s \<noteq> None);
         out = (if present \<and> inGap then [cur] else []);
         cur' = (if present then cur
                 else (if inGap then cur else cur\<lparr>firstMissing := s\<rparr>)\<lparr>lastMissing := s\<rparr>);
         inGap' = (\<not> present)
     in out @ (if s = m then (if inGap' then [cur'] else []) else gap_walk pk (s + 1) m inGap' cur'))"
  by pat_completeness auto
termination
  by (relation "measure (\<lambda>(pk, s, m, _). unat (m - s))") (auto simp: seq_step_measure)

declare gap_walk.simps [simp del]

definition frame_gaps :: "pending_frame \<Rightarrow> sequence_gap list" where
  "frame_gaps f = (if \<not> pf_seqInit f \<or> pf_packets f = [] then []
     else gap_walk (pf_packets f) (pf_minSeq f) (pf_maxSeq f) False \<lparr>firstMissing = 0, lastMissing = 0\<rparr>)"

definition gaps :: "jitter_buffer \<Rightarrow> sequence_gap list" where
  "gaps b = concat (map (\<lambda>(k, f). frame_gaps f) (jb_frames b))"

definition frameCount :: "jitter_buffer \<Rightarrow> nat" where
  "frameCount b = length (jb_frames b)"

section \<open>The ordered map on a window\<close>

text \<open>Timestamps that fit one half circle behave as a linear order of offsets, and the ordered
  map is then a finite map with sorted keys whatever tree the library builds.\<close>

abbreviation ts_window :: "u32 \<Rightarrow> u32 set \<Rightarrow> bool" where
  "ts_window base K \<equiv> (\<forall>k\<in>K. ts32.in_window base k)"

definition frame_keys :: "frames \<Rightarrow> u32 list" where
  "frame_keys fs = map fst fs"

lemma frame_keys_simps [simp]: "frame_keys [] = []" "frame_keys (kf # fs) = fst kf # frame_keys fs"
  by (simp_all add: frame_keys_def)

lemma frames_put_keys:
  assumes "ts_window base (insert ts (set (frame_keys fs)))" "sorted_wrt tsLessThan (frame_keys fs)"
  shows "sorted_wrt tsLessThan (frame_keys (frames_put ts f fs)) \<and>
    set (frame_keys (frames_put ts f fs)) = insert ts (set (frame_keys fs))"
  using assms
proof (induction ts f fs rule: frames_put.induct)
  case (2 ts f k g r)
  have tot: "\<not> tsLessThan k ts \<Longrightarrow> \<not> tsLessThan ts k \<Longrightarrow> k = ts"
    using 2(2) ts32.window_total [of base k ts] by auto
  have trans: "tsLessThan ts x" if "tsLessThan ts k" "x \<in> set (frame_keys r)" for x
    using 2(2,3) that ts32.window_trans [of base ts k x] by auto
  show ?case using 2 tot trans by auto
qed simp

lemma frames_put_mem:
  assumes "ts_window base (insert ts (set (frame_keys fs)))" "(k, g) \<in> set (frames_put ts f fs)"
  shows "(k = ts \<and> g = f) \<or> ((k, g) \<in> set fs)"
  using assms
proof (induction ts f fs rule: frames_put.induct)
  case (2 ts f k' g' r)
  have "\<not> tsLessThan k' ts \<Longrightarrow> \<not> tsLessThan ts k' \<Longrightarrow> k' = ts"
    using 2(2) ts32.window_total [of base k' ts] by auto
  with 2 show ?case by (auto split: if_splits)
qed simp

lemma frames_find_Some:
  assumes "ts_window base (insert ts (set (frame_keys fs)))" "frames_find ts fs = Some f"
  shows "(ts, f) \<in> set fs"
  using assms
proof (induction ts fs rule: frames_find.induct)
  case (2 ts k g r)
  have "\<not> tsLessThan k ts \<Longrightarrow> \<not> tsLessThan ts k \<Longrightarrow> k = ts"
    using 2(2) ts32.window_total [of base k ts] by auto
  with 2 show ?case by (auto split: if_splits)
qed simp

section \<open>The invariant\<close>

text \<open>A pending frame under the key \<open>k\<close>: it holds at least one packet, each under its own
  sequence number and with the frame's timestamp; the marker flag says that a marked packet is
  held; the extreme sequence numbers are those of packets held.\<close>

definition frame_ok :: "u32 \<Rightarrow> pending_frame \<Rightarrow> bool" where
  "frame_ok k f \<longleftrightarrow> pf_timestamp f = k \<and> pf_packets f \<noteq> [] \<and> pf_seqInit f \<and>
     distinct (map fst (pf_packets f)) \<and>
     (\<forall>(s, p)\<in>set (pf_packets f). sequenceNumber p = s \<and> timestamp p = k) \<and>
     (pf_hasMarker f \<longleftrightarrow> (\<exists>(s, p)\<in>set (pf_packets f). marker p)) \<and>
     pf_minSeq f \<in> fst ` set (pf_packets f) \<and> pf_maxSeq f \<in> fst ` set (pf_packets f)"

definition jb_ok :: "jitter_buffer \<Rightarrow> bool" where
  "jb_ok b \<longleftrightarrow> sorted_wrt tsLessThan (frame_keys (jb_frames b)) \<and>
     (\<forall>(k, f)\<in>set (jb_frames b). frame_ok k f) \<and>
     (jb_hasEmitted b \<longrightarrow> (\<forall>k\<in>set (frame_keys (jb_frames b)). tsLessThan (jb_lastEmittedTs b) k))"

text \<open>The timestamps the buffer knows of: its frames and the last one played out.\<close>

definition known_ts :: "jitter_buffer \<Rightarrow> u32 set" where
  "known_ts b = set (frame_keys (jb_frames b)) \<union> (if jb_hasEmitted b then {jb_lastEmittedTs b} else {})"

lemma jb_ok_new: "jb_ok (new_jitter_buffer c)"
  by (simp add: jb_ok_def new_jitter_buffer_def)

lemma frame_add_ok:
  assumes "frame_ok k f \<or> (pf_packets f = [] \<and> \<not> pf_seqInit f \<and> \<not> pf_hasMarker f \<and> pf_timestamp f = k)"
    "timestamp p = k" "\<not> frame_has (sequenceNumber p) f"
  shows "frame_ok k (frame_add p f)"
proof -
  have new: "AList.update (sequenceNumber p) p (pf_packets f) = pf_packets f @ [(sequenceNumber p, p)]"
    using assms(3) by (simp add: frame_has_def length_update_new)
  have "sequenceNumber p \<notin> fst ` set (pf_packets f)"
    using assms(3) by (simp add: frame_has_def map_of_None_iff)
  then show ?thesis using assms(1,2) by (auto simp: frame_ok_def frame_add_def Let_def new)
qed

lemma push_cases:
  assumes "push b p t = (r, b')"
  obtains (late) "is_late b (timestamp p)" "\<not> r"
      "b' = b\<lparr>jb_stats := (jb_stats b)\<lparr>js_late := js_late (jb_stats b) + 1\<rparr>\<rparr>"
  | (dup) f where "\<not> is_late b (timestamp p)" "\<not> r" "frames_find (timestamp p) (jb_frames b) = Some f"
      "frame_has (sequenceNumber p) (touch_frame p t f)"
      "b' = b\<lparr>jb_frames := frames_put (timestamp p) (touch_frame p t f) (jb_frames b),
         jb_stats := (jb_stats b)\<lparr>js_duplicates := js_duplicates (jb_stats b) + 1\<rparr>\<rparr>"
  | (new) f st where "\<not> is_late b (timestamp p)" "r"
      "f = touch_frame p t (case frames_find (timestamp p) (jb_frames b) of Some f \<Rightarrow> f | None \<Rightarrow> new_pending)"
      "\<not> frame_has (sequenceNumber p) f"
      "st = (if is_reordered p f then (jb_stats b)\<lparr>js_reordered := js_reordered (jb_stats b) + 1\<rparr>
             else jb_stats b)"
      "b' = b\<lparr>jb_frames := frames_put (timestamp p) (frame_add p f) (jb_frames b),
         jb_stats := st\<lparr>js_pushed := js_pushed st + 1\<rparr>\<rparr>"
proof (cases "is_late b (timestamp p)")
  case True
  with assms late show ?thesis by (simp add: push_def)
next
  case False
  show ?thesis
  proof (cases "frames_find (timestamp p) (jb_frames b)")
    case None
    then have "\<not> frame_has (sequenceNumber p) (touch_frame p t new_pending)"
      by (simp add: frame_has_def touch_frame_def new_pending_def)
    with assms False None new show ?thesis by (simp add: push_def Let_def)
  next
    case (Some f)
    with assms False dup new show ?thesis by (cases "frame_has (sequenceNumber p) (touch_frame p t f)")
      (simp_all add: push_def Let_def)
  qed
qed

lemma touch_ok: "frame_ok k f \<Longrightarrow> touch_frame p t f = f"
  by (simp add: frame_ok_def touch_frame_def)

lemma put_ok:
  assumes "jb_ok b" "ts_window base (insert ts (known_ts b))" "\<not> is_late b ts" "frame_ok ts f"
    "b' = b\<lparr>jb_frames := frames_put ts f (jb_frames b), jb_stats := st\<rparr>"
  shows "jb_ok b' \<and> known_ts b' \<subseteq> insert ts (known_ts b)"
proof -
  have w: "ts_window base (insert ts (set (frame_keys (jb_frames b))))"
    using assms(2) by (simp add: known_ts_def)
  have "sorted_wrt tsLessThan (frame_keys (jb_frames b))" using assms(1) by (simp add: jb_ok_def)
  note keys = frames_put_keys [OF w this, of f]
  have late: "tsLessThan (jb_lastEmittedTs b) ts" if "jb_hasEmitted b"
    using that assms(2,3) ts32.window_total [of base ts "jb_lastEmittedTs b"]
    by (auto simp: is_late_def known_ts_def)
  have "frame_ok k g" if "(k, g) \<in> set (frames_put ts f (jb_frames b))" for k g
    using frames_put_mem [OF w that] assms(1,4) by (auto simp: jb_ok_def)
  then show ?thesis
    using assms(1) keys late by (auto simp: assms(5) jb_ok_def known_ts_def)
qed

lemma pushed_frame_ok:
  assumes "jb_ok b" "ts_window base (insert (timestamp p) (known_ts b))" "\<not> frame_has (sequenceNumber p) f"
    "f = touch_frame p t (case frames_find (timestamp p) (jb_frames b) of Some f \<Rightarrow> f | None \<Rightarrow> new_pending)"
  shows "frame_ok (timestamp p) (frame_add p f)"
proof (cases "frames_find (timestamp p) (jb_frames b)")
  case None
  then show ?thesis using assms(3,4) by (intro frame_add_ok) (auto simp: touch_frame_def new_pending_def)
next
  case (Some g)
  have w: "ts_window base (insert (timestamp p) (set (frame_keys (jb_frames b))))"
    using assms(2) by (simp add: known_ts_def)
  have "frame_ok (timestamp p) g" using frames_find_Some [OF w Some] assms(1) by (auto simp: jb_ok_def)
  then show ?thesis using Some assms(3,4) by (intro frame_add_ok) (auto simp: touch_ok)
qed

lemma push_ok [inv_intros]:
  assumes "jb_ok b" "ts_window base (insert (timestamp p) (known_ts b))" "push b p t = (r, b')"
  shows "jb_ok b' \<and> known_ts b' \<subseteq> insert (timestamp p) (known_ts b)"
  using assms(3)
proof (cases rule: push_cases)
  case late
  then show ?thesis using assms(1) by (auto simp: jb_ok_def known_ts_def)
next
  case (dup f)
  have w: "ts_window base (insert (timestamp p) (set (frame_keys (jb_frames b))))"
    using assms(2) by (simp add: known_ts_def)
  have "frame_ok (timestamp p) f" using frames_find_Some [OF w dup(3)] assms(1) by (auto simp: jb_ok_def)
  then show ?thesis
    unfolding dup(5) touch_ok [OF \<open>frame_ok (timestamp p) f\<close>] by (rule put_ok [OF assms(1,2) dup(1) _ refl])
next
  case (new f st)
  show ?thesis
    unfolding new(6) by (rule put_ok [OF assms(1,2) new(1) pushed_frame_ok [OF assms(1,2) new(4,3)] refl])
qed

lemma walk_mem: "p \<in> set (walk pk s m) \<Longrightarrow> \<exists>s. (s, p) \<in> set pk"
proof (induction pk s m rule: walk.induct)
  case (1 pk s m)
  then show ?case
    by (subst (asm) walk.simps) (auto split: option.splits if_splits dest: sym [THEN map_of_SomeD])
qed

lemma walk_first: "map_of pk s = Some p \<Longrightarrow> walk pk s m = p # (if s = m then [] else walk pk (s + 1) m)"
  by (subst walk.simps) simp

lemma ordered_ok:
  assumes "frame_ok k f"
  shows "ordered f \<noteq> [] \<and> (\<forall>p\<in>set (ordered f). timestamp p = k)"
proof -
  obtain p where "map_of (pf_packets f) (pf_minSeq f) = Some p"
    using assms by (auto simp: frame_ok_def)
  then have "ordered f \<noteq> []" by (simp add: ordered_def walk_first)
  moreover have "timestamp p = k" if pin: "p \<in> set (ordered f)" for p
  proof -
    obtain s where "(s, p) \<in> set (pf_packets f)"
      using walk_mem pin unfolding ordered_def by blast
    then show ?thesis using assms unfolding frame_ok_def by blast
  qed
  ultimately show ?thesis by blast
qed

lemma depacketize_ts: "depacketize ps k v a = Inr g \<Longrightarrow> ef_rtpTimestamp g = timestamp (hd ps)"
  by (auto simp: depacketize_def Let_def split: if_splits sum.splits)

text \<open>What one \<^verbatim>\<open>pop\<close> does to the invariant and to the playout position.\<close>

lemma pop_ok:
  assumes "jb_ok b" "pop b now = (r, b')"
  shows "jb_ok b' \<and> known_ts b' \<subseteq> known_ts b \<and>
    (case r of None \<Rightarrow> jb_stats b' = jb_stats b
     | Some g \<Rightarrow> jb_hasEmitted b' \<and> jb_lastEmittedTs b' = ef_rtpTimestamp g \<and>
         ef_rtpTimestamp g \<in> set (frame_keys (jb_frames b)) \<and>
         js_emitted (jb_stats b') = js_emitted (jb_stats b) + 1)"
  using assms
proof (induction b now rule: pop.induct)
  case (1 b now)
  show ?case
  proof (cases "jb_frames b")
    case Nil
    then show ?thesis using 1(3,4) by (auto simp: pop.simps [of b])
  next
    case (Cons kf rest)
    obtain k f where kf: "kf = (k, f)" by (cases kf)
    let ?b = "emit_mark rest (pf_timestamp f) b"
    have fok: "frame_ok k f" and ts: "pf_timestamp f = k"
      using 1(3) Cons kf by (auto simp: jb_ok_def frame_ok_def)
    have ok: "jb_ok ?b" "known_ts ?b \<subseteq> known_ts b"
      using 1(3) Cons kf ts by (auto simp: jb_ok_def emit_mark_def known_ts_def)
    have keys: "set (frame_keys (jb_frames ?b)) \<subseteq> set (frame_keys (jb_frames b))" "jb_stats ?b = jb_stats b"
      using Cons by (auto simp: emit_mark_def)
    show ?thesis
    proof (cases "now - pf_firstArrival f \<ge> targetDelay (jb_config b)")
      case False
      then show ?thesis using 1(3,4) Cons kf by (auto simp: pop.simps [of b])
    next
      case due: True
      show ?thesis
      proof (cases "isComplete (jb_config b) f")
        case False
        then have "pop ?b now = (r, b')" using 1(4) Cons kf due by (simp add: pop.simps [of b])
        from 1(1) [OF Cons kf [symmetric] _ refl False ok(1) this] due ok keys show ?thesis
          by (auto split: option.splits)
      next
        case compl: True
        show ?thesis
        proof (cases "depacketize (ordered f) (jc_kind (jb_config b)) (jc_videoCodec (jb_config b)) (jc_audioCodec (jb_config b))")
          case (Inl e)
          then have "pop ?b now = (r, b')" using 1(4) Cons kf due compl by (simp add: pop.simps [of b])
          from 1(2) [OF Cons kf [symmetric] _ refl _ Inl ok(1) this] due compl ok keys show ?thesis
            by (auto split: option.splits)
        next
          case (Inr g)
          have "ef_rtpTimestamp g = k" using depacketize_ts [OF Inr] ordered_ok [OF fok] by simp
          then show ?thesis using 1(4) Cons kf due compl Inr ok ts
            by (auto simp: pop.simps [of b] emit_mark_def jb_ok_def known_ts_def)
        qed
      qed
    qed
  qed
qed


text \<open>A successful \<^verbatim>\<open>pop\<close> removes a frame; after an unsuccessful one nothing more is due.\<close>

lemma pop_shrinks:
  "pop b now = (r, b') \<Longrightarrow> length (jb_frames b') \<le> length (jb_frames b) \<and>
     (r \<noteq> None \<longrightarrow> length (jb_frames b') < length (jb_frames b)) \<and> jb_config b' = jb_config b"
proof (induction b now rule: pop.induct)
  case (1 b now)
  show ?case
  proof (cases "jb_frames b")
    case Nil
    then show ?thesis using 1(3) by (auto simp: pop.simps [of b])
  next
    case (Cons kf rest)
    obtain k f where kf: "kf = (k, f)" by (cases kf)
    let ?b = "emit_mark rest (pf_timestamp f) b"
    have e: "length (jb_frames ?b) < length (jb_frames b)" "jb_config ?b = jb_config b"
      using Cons by (auto simp: emit_mark_def)
    note IH = 1(1) [OF Cons kf [symmetric] _ refl] 1(2) [OF Cons kf [symmetric] _ refl]
    show ?thesis
      using 1(3) Cons kf e IH
      by (subst (asm) pop.simps) (auto split: if_splits sum.splits simp: Let_def)
  qed
qed

lemma pop_None_stable: "pop b now = (None, b') \<Longrightarrow> pop b' now = (None, b')"
proof (induction b now rule: pop.induct)
  case (1 b now)
  show ?case
  proof (cases "jb_frames b")
    case Nil
    then show ?thesis using 1(3) by (auto simp: pop.simps [of b] pop.simps [of b'])
  next
    case (Cons kf rest)
    obtain k f where kf: "kf = (k, f)" by (cases kf)
    note IH = 1(1) [OF Cons kf [symmetric] _ refl] 1(2) [OF Cons kf [symmetric] _ refl]
    show ?thesis
    proof (cases "now - pf_firstArrival f \<ge> targetDelay (jb_config b)")
      case False
      then show ?thesis using 1(3) Cons kf by (auto simp: pop.simps [of b] pop.simps [of b'])
    next
      case True
      then show ?thesis using 1(3) Cons kf IH
        by (subst (asm) pop.simps) (auto split: if_splits sum.splits simp: Let_def)
    qed
  qed
qed

section \<open>Runs of the receive and playout threads\<close>

text \<open>The two threads take the mutex in turn: a run is any interleaving of arrivals and playout
  calls. \<open>play\<close> collects the frames handed out.\<close>

datatype jitter_event = Arrive rtp_packet steady_time | Playout steady_time

fun play :: "jitter_buffer \<Rightarrow> jitter_event list \<Rightarrow> encoded_frame list \<times> jitter_buffer" where
  "play b [] = ([], b)"
| "play b (Arrive p t # evs) = play (snd (push b p t)) evs"
| "play b (Playout now # evs) =
     (let (r, b1) = pop b now; (gs, b2) = play b1 evs
      in ((case r of None \<Rightarrow> [] | Some g \<Rightarrow> [g]) @ gs, b2))"

fun event_ts :: "jitter_event \<Rightarrow> u32 set" where
  "event_ts (Arrive p t) = {timestamp p}"
| "event_ts (Playout now) = {}"

lemma pop_last:
  "jb_ok b \<Longrightarrow> pop b now = (r, b') \<Longrightarrow> b' = b \<or>
     (jb_hasEmitted b' \<and> jb_lastEmittedTs b' \<in> set (frame_keys (jb_frames b)))"
proof (induction b now rule: pop.induct)
  case (1 b now)
  show ?case
  proof (cases "jb_frames b")
    case Nil
    then show ?thesis using 1(4) by (auto simp: pop.simps [of b])
  next
    case (Cons kf rest)
    obtain k f where kf: "kf = (k, f)" by (cases kf)
    let ?b = "emit_mark rest (pf_timestamp f) b"
    have ts: "pf_timestamp f = k" using 1(3) Cons kf by (auto simp: jb_ok_def frame_ok_def)
    have ok: "jb_ok ?b" "jb_hasEmitted ?b" "jb_lastEmittedTs ?b = k" "frame_keys (jb_frames ?b) = frame_keys rest"
      using 1(3) Cons kf ts by (auto simp: jb_ok_def emit_mark_def)
    note IH = 1(1) [OF Cons kf [symmetric] _ refl _ ok(1)] 1(2) [OF Cons kf [symmetric] _ refl _ _ ok(1)]
    show ?thesis
      using 1(4) Cons kf ok ts IH
      by (subst (asm) pop.simps) (auto split: if_splits sum.splits simp: emit_mark_def Let_def)
  qed
qed

lemma play_order:
  assumes "jb_ok b" "ts_window base (known_ts b)" "\<forall>e\<in>set evs. ts_window base (event_ts e)"
    "play b evs = (gs, b')"
  shows "jb_ok b' \<and> ts_window base (ef_rtpTimestamp ` set gs) \<and>
    sorted_wrt (\<lambda>g h. tsLessThan (ef_rtpTimestamp g) (ef_rtpTimestamp h)) gs \<and>
    (jb_hasEmitted b \<longrightarrow> (\<forall>g\<in>set gs. tsLessThan (jb_lastEmittedTs b) (ef_rtpTimestamp g))) \<and>
    js_emitted (jb_stats b') = js_emitted (jb_stats b) + of_nat (length gs)"
  using assms
proof (induction b evs arbitrary: gs b' rule: play.induct)
  case (2 b p t evs)
  obtain r b1 where b1: "push b p t = (r, b1)" by fastforce
  have w: "ts_window base (insert (timestamp p) (known_ts b))" using 2(3,4) by simp
  note ok = push_ok [OF 2(2) w b1]
  have same: "jb_hasEmitted b1 = jb_hasEmitted b" "jb_lastEmittedTs b1 = jb_lastEmittedTs b"
    "js_emitted (jb_stats b1) = js_emitted (jb_stats b)"
    using b1 by (auto elim!: push_cases)
  from 2(1) [of gs b'] ok w 2(4,5) same b1 show ?case by auto
next
  case (3 b now evs)
  obtain r b1 where b1: "pop b now = (r, b1)" by fastforce
  obtain hs where hs: "play b1 evs = (hs, b')" "gs = (case r of None \<Rightarrow> [] | Some g \<Rightarrow> [g]) @ hs"
    using 3(5) by (auto simp: b1 split: prod.splits)
  note ok = pop_ok [OF 3(2) b1]
  have w: "ts_window base (known_ts b1)" using ok 3(3) by blast
  have IH: "jb_ok b' \<and> ts_window base (ef_rtpTimestamp ` set hs) \<and>
    sorted_wrt (\<lambda>g h. tsLessThan (ef_rtpTimestamp g) (ef_rtpTimestamp h)) hs \<and>
    (jb_hasEmitted b1 \<longrightarrow> (\<forall>g\<in>set hs. tsLessThan (jb_lastEmittedTs b1) (ef_rtpTimestamp g))) \<and>
    js_emitted (jb_stats b') = js_emitted (jb_stats b1) + of_nat (length hs)"
    using 3(1) [OF b1 [symmetric] refl, of hs b'] ok w 3(4) hs(1) by simp
  have after: "tsLessThan (jb_lastEmittedTs b) (jb_lastEmittedTs b1)" "jb_hasEmitted b1"
    if "jb_hasEmitted b" "b1 \<noteq> b"
    using pop_last [OF 3(2) b1] that 3(2) by (auto simp: jb_ok_def)
  have later: "tsLessThan (jb_lastEmittedTs b) (ef_rtpTimestamp g)" if "jb_hasEmitted b" "g \<in> set hs" for g
  proof (cases "b1 = b")
    case False
    have "ts32.in_window base (jb_lastEmittedTs b)" "ts32.in_window base (jb_lastEmittedTs b1)"
      using 3(3) w that(1) after(2) [OF that(1) False] by (auto simp: known_ts_def)
    then show ?thesis
      using ts32.window_trans [of base "jb_lastEmittedTs b" "jb_lastEmittedTs b1" "ef_rtpTimestamp g"]
        after [OF that(1) False] IH that(2) by blast
  qed (use IH that in simp)
  show ?case
  proof (cases r)
    case None
    then show ?thesis using IH ok hs(2) later by simp
  next
    case (Some g)
    have "ts32.in_window base (ef_rtpTimestamp g)" using ok 3(3) by (simp add: Some known_ts_def)
    moreover have "jb_hasEmitted b \<longrightarrow> tsLessThan (jb_lastEmittedTs b) (ef_rtpTimestamp g)"
      using ok 3(2) by (auto simp: Some jb_ok_def)
    ultimately show ?thesis using IH ok hs(2) later Some by (auto simp: algebra_simps)
  qed
qed (auto simp: jb_ok_def)

text \<open>C7. Playout order over whole runs: for every interleaving of packet arrivals and playout
  calls on a fresh buffer whose timestamps stay within half the 32-bit circle, whatever the order,
  loss and duplication of the packets, the frames handed out have strictly increasing timestamps (no
  frame is played twice or after a newer one), and the emitted counter counts them.\<close>

theorem playout_in_order:
  assumes "\<forall>e\<in>set evs. ts_window base (event_ts e)" "play (new_jitter_buffer c) evs = (gs, b)"
  shows "sorted_wrt (\<lambda>g h. tsLessThan (ef_rtpTimestamp g) (ef_rtpTimestamp h)) gs \<and>
    js_emitted (jb_stats b) = of_nat (length gs)"
  using play_order [OF jb_ok_new _ assms] by (simp add: known_ts_def new_jitter_buffer_def)

section \<open>Acceptance and accounting\<close>

lemma frames_find_mem:
  assumes "ts_window base (insert ts (set (frame_keys fs)))" "sorted_wrt tsLessThan (frame_keys fs)"
    "(ts, f) \<in> set fs"
  shows "frames_find ts fs = Some f"
  using assms
proof (induction ts fs rule: frames_find.induct)
  case (2 ts k g r)
  have "tsLessThan k ts" if "(ts, f) \<in> set r"
    using 2(3) that by (force simp: frame_keys_def)
  then show ?case using 2 ts32.irrefl by fastforce
qed simp

lemma frames_put_same:
  assumes "ts_window base (insert ts (set (frame_keys fs)))" "frames_find ts fs = Some f"
  shows "frames_put ts f fs = fs"
  using assms by (induction ts fs rule: frames_find.induct) (auto split: if_splits)

definition holds_packet :: "jitter_buffer \<Rightarrow> u32 \<Rightarrow> u16 \<Rightarrow> bool" where
  "holds_packet b ts s \<longleftrightarrow> (\<exists>f. (ts, f) \<in> set (jb_frames b) \<and> frame_has s f)"

text \<open>Acceptance: under the buffer's invariant a packet is buffered exactly when its
  access unit has not been played out or skipped (its timestamp is after the last one) and no
  packet with its timestamp and sequence number is held; a refused packet leaves the pending frames
  as they are, and each call increments exactly one of the counters pushed, duplicates and late.\<close>

theorem push_accepts_iff:
  assumes "jb_ok b" "ts_window base (insert (timestamp p) (known_ts b))" "push b p t = (r, b')"
  shows "(r \<longleftrightarrow> \<not> is_late b (timestamp p) \<and> \<not> holds_packet b (timestamp p) (sequenceNumber p)) \<and>
    (\<not> r \<longrightarrow> jb_frames b' = jb_frames b) \<and>
    js_pushed (jb_stats b') = js_pushed (jb_stats b) + of_bool r \<and>
    js_late (jb_stats b') = js_late (jb_stats b) + of_bool (is_late b (timestamp p)) \<and>
    js_duplicates (jb_stats b') = js_duplicates (jb_stats b) + of_bool (\<not> r \<and> \<not> is_late b (timestamp p))"
proof -
  have w: "ts_window base (insert (timestamp p) (set (frame_keys (jb_frames b))))"
    and sorted: "sorted_wrt tsLessThan (frame_keys (jb_frames b))"
    using assms(1,2) by (simp_all add: known_ts_def jb_ok_def)
  note mem = frames_find_mem [OF w sorted] and found = frames_find_Some [OF w]
  have held: "holds_packet b (timestamp p) s \<longleftrightarrow>
      (case frames_find (timestamp p) (jb_frames b) of None \<Rightarrow> False | Some f \<Rightarrow> frame_has s f)" for s
  proof (cases "frames_find (timestamp p) (jb_frames b)")
    case None
    then show ?thesis using mem by (auto simp: holds_packet_def)
  next
    case (Some f)
    have "f' = f" if "(timestamp p, f') \<in> set (jb_frames b)" for f' using mem [OF that] Some by simp
    then show ?thesis using found [OF Some] unfolding holds_packet_def Some option.case by blast
  qed
  have touch: "touch_frame p t f = f" if "frames_find (timestamp p) (jb_frames b) = Some f" for f
    using found [OF that] assms(1) by (auto simp: jb_ok_def intro: touch_ok)
  show ?thesis
    using assms(3)
  proof (cases rule: push_cases)
    case (dup f)
    then show ?thesis by (simp add: held touch frames_put_same [OF w])
  next
    case (new f st)
    then show ?thesis by (auto simp: held touch split: option.splits)
  qed simp
qed

section \<open>Reassembly of an access unit\<close>

text \<open>The packets of one access unit: consecutive sequence numbers from \<open>base\<close> (across the
  wrap), one timestamp, the marker on the last packet only, at most half the circle long.\<close>

definition access_unit :: "u16 \<Rightarrow> u32 \<Rightarrow> rtp_packet list \<Rightarrow> bool" where
  "access_unit base ts ps \<longleftrightarrow> ps \<noteq> [] \<and> length ps \<le> 0x8000 \<and>
     (\<forall>i<length ps. sequenceNumber (ps ! i) = base + of_nat i \<and> timestamp (ps ! i) = ts \<and>
        (marker (ps ! i) \<longleftrightarrow> i = length ps - 1))"

text \<open>\<open>frame_holds base ps I f\<close>: the frame holds exactly the packets of \<open>ps\<close> at the
  indices \<open>I\<close>.\<close>

definition frame_holds :: "u16 \<Rightarrow> rtp_packet list \<Rightarrow> nat set \<Rightarrow> pending_frame \<Rightarrow> bool" where
  "frame_holds base ps I f \<longleftrightarrow> I \<noteq> {} \<and> I \<subseteq> {..<length ps} \<and> pf_seqInit f \<and>
     distinct (map fst (pf_packets f)) \<and> fst ` set (pf_packets f) = (\<lambda>i. base + of_nat i) ` I \<and>
     (\<forall>i\<in>I. map_of (pf_packets f) (base + of_nat i) = Some (ps ! i)) \<and>
     pf_minSeq f = base + of_nat (Min I) \<and> pf_maxSeq f = base + of_nat (Max I) \<and>
     (pf_hasMarker f \<longleftrightarrow> (\<exists>i\<in>I. marker (ps ! i)))"

lemma holds_bounds:
  assumes "frame_holds base ps I f"
  shows "finite I" "Min I \<in> I" "Max I \<in> I" "\<And>i. i \<in> I \<Longrightarrow> i < length ps"
  using assms finite_subset [of I "{..<length ps}"]
  by (auto simp: frame_holds_def intro!: Min_in Max_in)

lemma holds_has:
  assumes "frame_holds base ps I f" "access_unit base ts ps" "i < length ps"
  shows "frame_has (base + of_nat i) f \<longleftrightarrow> i \<in> I"
proof -
  have "base + of_nat i = base + of_nat j \<longleftrightarrow> i = j" if "j \<in> I" for j
    using that assms(2,3) holds_bounds(4) [OF assms(1) that]
    by (intro word_step_inject) (auto simp: access_unit_def)
  then show ?thesis using assms(1) by (auto simp: frame_has_def map_of_None_iff frame_holds_def)
qed

lemma holds_add:
  assumes "frame_holds base ps I f" "access_unit base ts ps" "i < length ps" "i \<notin> I"
  shows "frame_holds base ps (insert i I) (frame_add (ps ! i) f)"
proof -
  note b = holds_bounds [OF assms(1)]
  have len: "length ps \<le> 0x8000" and seq: "sequenceNumber (ps ! i) = base + of_nat i"
    using assms(2,3) by (auto simp: access_unit_def)
  have inj: "base + of_nat i = base + of_nat j \<longleftrightarrow> i = j" if "j \<in> I" for j
    using b(4) [OF that] assms(3) len by (intro word_step_inject) auto
  have less: "seqLessThan (base + of_nat i) (base + of_nat j) \<longleftrightarrow> i < j"
    "seqLessThan (base + of_nat j) (base + of_nat i) \<longleftrightarrow> j < i" if "j \<in> I" for j
    using b(4) [OF that] assms(3) len by (intro seq_step_less; simp)+
  have nothas: "base + of_nat i \<notin> fst ` set (pf_packets f)"
    using holds_has [OF assms(1,2,3)] assms(4) by (simp add: frame_has_def map_of_None_iff)
  then have none: "map_of (pf_packets f) (base + of_nat i) = None" by (simp add: map_of_None_iff)
  then have upd: "AList.update (base + of_nat i) (ps ! i) (pf_packets f) = pf_packets f @ [(base + of_nat i, ps ! i)]"
    by (rule length_update_new)
  have mm: "Min (insert i I) = min i (Min I)" "Max (insert i I) = max i (Max I)"
    using b(1,2) by (auto intro!: Min_insert Max_insert)
  have look: "map_of (pf_packets f @ [(base + of_nat i, ps ! i)]) (base + of_nat k) = Some (ps ! k)"
    if "k \<in> insert i I" for k
    using that assms(1) none by (auto simp: frame_holds_def map_add_def)
  show ?thesis
    using assms(1) assms(3,4) nothas less(1) [OF b(2)] less(2) [OF b(3)] look
    by (auto simp: frame_holds_def frame_add_def Let_def seq upd mm simp del: map_of_append)
qed

lemma holds_first:
  assumes "access_unit base ts ps" "i < length ps"
  shows "frame_holds base ps {i} (frame_add (ps ! i) (touch_frame (ps ! i) t new_pending))"
  using assms by (auto simp: frame_holds_def frame_add_def touch_frame_def new_pending_def access_unit_def Let_def)

lemma holds_length:
  assumes "frame_holds base ps I f" "access_unit base ts ps"
  shows "length (pf_packets f) = card I"
proof -
  have "inj_on (\<lambda>i. base + of_nat i) I"
  proof (rule inj_onI)
    fix x y assume "x \<in> I" "y \<in> I" "base + of_nat x = base + of_nat y"
    moreover have "x < 0x8000" "y < 0x8000"
      using calculation(1,2) holds_bounds(4) [OF assms(1)] assms(2)
      by (auto simp: access_unit_def intro: less_le_trans)
    ultimately show "x = y" by (subst (asm) word_step_inject) simp_all
  qed
  then have "card (fst ` set (pf_packets f)) = card I"
    using assms(1) by (simp add: frame_holds_def card_image)
  then show ?thesis
    using assms(1) distinct_card [of "map fst (pf_packets f)"] by (simp add: frame_holds_def)
qed

text \<open>What completeness means: the packets held are a nonempty tail of the access unit.\<close>

lemma complete_iff_tail:
  assumes "frame_holds base ps I f" "access_unit base ts ps" "jc_kind c = Video"
  shows "isComplete c f \<longleftrightarrow> (\<exists>j<length ps. I = {j..<length ps})"
proof -
  note b = holds_bounds [OF assms(1)]
  have len: "length ps \<le> 0x8000" and n: "ps \<noteq> []" using assms(2) by (auto simp: access_unit_def)
  have mk: "pf_hasMarker f \<longleftrightarrow> length ps - 1 \<in> I"
    using assms(1,2) b(4) by (auto simp: frame_holds_def access_unit_def)
  have "Min I \<le> Max I" using b(1,3) by (rule Min_le)
  then have "(base + of_nat (Max I)) - (base + of_nat (Min I)) = (of_nat (Max I - Min I) :: u16)"
    by (simp add: of_nat_diff)
  then have span: "unat (seqDistance (pf_minSeq f) (pf_maxSeq f)) = Max I - Min I"
    using assms(1) b(4) [OF b(3)] len by (simp add: frame_holds_def seqDistance_def)
  have ne: "pf_packets f \<noteq> []" using assms(1) by (auto simp: frame_holds_def)
  have sub: "I \<subseteq> {Min I..Max I}" using b(1) by auto
  have "isComplete c f \<longleftrightarrow> length ps - 1 \<in> I \<and> Max I - Min I + 1 = card I"
    using assms(3) mk ne span holds_length [OF assms(1,2)] by (auto simp: isComplete_def)
  also have "\<dots> \<longleftrightarrow> (\<exists>j<length ps. I = {j..<length ps})"
  proof
    assume c: "length ps - 1 \<in> I \<and> Max I - Min I + 1 = card I"
    then have "Max I = length ps - 1" using b(1,4) by (fastforce intro!: Max_eqI)
    moreover have "I = {Min I..Max I}"
      using c sub \<open>Min I \<le> Max I\<close> by (intro card_subset_eq) auto
    moreover have "{Min I..length ps - 1} = {Min I..<length ps}" using n by (cases "length ps") auto
    ultimately show "\<exists>j<length ps. I = {j..<length ps}"
      using b(4) [OF b(2)] by metis
  next
    assume "\<exists>j<length ps. I = {j..<length ps}"
    then obtain j where j: "j < length ps" "I = {j..<length ps}" by blast
    have "Min I = j" "Max I = length ps - 1" using j by (auto intro!: Min_eqI Max_eqI)
    then show "length ps - 1 \<in> I \<and> Max I - Min I + 1 = card I" using j by auto
  qed
  finally show ?thesis .
qed

lemma walk_tail:
  assumes "access_unit base ts ps" "i < length ps"
    "\<forall>k. i \<le> k \<longrightarrow> k < length ps \<longrightarrow> map_of pk (base + of_nat k) = Some (ps ! k)"
  shows "walk pk (base + of_nat i) (base + of_nat (length ps - 1)) = drop i ps"
  using assms(2,3)
proof (induction "length ps - i" arbitrary: i)
  case (Suc n)
  have eq: "base + of_nat i = base + of_nat (length ps - 1) \<longleftrightarrow> i = length ps - 1"
    using Suc.prems assms(1) by (intro word_step_inject) (auto simp: access_unit_def)
  show ?case
  proof (cases "i = length ps - 1")
    case True
    have "walk pk (base + of_nat i) (base + of_nat i) = [ps ! i]"
      using Suc.prems by (subst walk.simps) simp
    then show ?thesis using Suc.prems unfolding True [symmetric]
      by (simp add: Cons_nth_drop_Suc [symmetric] True)
  next
    case False
    then have "walk pk (base + of_nat (Suc i)) (base + of_nat (length ps - 1)) = drop (Suc i) ps"
      using Suc by (intro Suc.hyps(1)) auto
    then show ?thesis using Suc.prems False eq
      by (subst walk.simps) (simp add: Cons_nth_drop_Suc [symmetric] add.assoc add.commute [of 1])
  qed
qed simp

text \<open>The packets of one access unit arriving in any order, with losses and repeats.\<close>

fun receive :: "jitter_buffer \<Rightarrow> (rtp_packet \<times> steady_time) list \<Rightarrow> jitter_buffer" where
  "receive b [] = b"
| "receive b ((p, t) # qs) = receive (snd (push b p t)) qs"

definition arrived :: "rtp_packet list \<Rightarrow> (rtp_packet \<times> steady_time) list \<Rightarrow> nat set" where
  "arrived ps qs = {i. i < length ps \<and> ps ! i \<in> fst ` set qs}"

lemma access_unit_distinct: "access_unit base ts ps \<Longrightarrow> distinct ps"
proof (unfold distinct_conv_nth, intro allI impI)
  fix i j assume a: "access_unit base ts ps" "i < length ps" "j < length ps" "i \<noteq> j"
  then have "i < 2 ^ LENGTH(16)" "j < 2 ^ LENGTH(16)" by (auto simp: access_unit_def)
  then have "(base + of_nat i = (base + of_nat j :: u16)) = (i = j)" by (rule word_step_inject)
  with a show "ps ! i \<noteq> ps ! j" by (metis access_unit_def)
qed

lemma arrived_Cons:
  "access_unit base ts ps \<Longrightarrow> i < length ps \<Longrightarrow> arrived ps ((ps ! i, t) # qs) = insert i (arrived ps qs)"
  using access_unit_distinct [of base ts ps] by (auto simp: arrived_def nth_eq_iff_index_eq)

text \<open>The buffer while only this access unit is pending.\<close>

definition pending :: "u16 \<Rightarrow> u32 \<Rightarrow> rtp_packet list \<Rightarrow> nat set \<Rightarrow> steady_time \<Rightarrow> jitter_buffer \<Rightarrow> bool" where
  "pending base ts ps I t0 b \<longleftrightarrow> (\<exists>f. jb_frames b = [(ts, f)] \<and> frame_holds base ps I f \<and>
     pf_timestamp f = ts \<and> pf_firstArrival f = t0) \<and> \<not> is_late b ts"

lemma frame_add_keeps [simp]:
  "pf_timestamp (frame_add p f) = pf_timestamp f" "pf_firstArrival (frame_add p f) = pf_firstArrival f"
  by (simp_all add: frame_add_def Let_def)

lemma push_first:
  assumes "access_unit base ts ps" "i < length ps" "jb_frames b = []" "\<not> is_late b ts"
  shows "pending base ts ps {i} t (snd (push b (ps ! i) t)) \<and>
    jb_config (snd (push b (ps ! i) t)) = jb_config b"
proof -
  have ts: "timestamp (ps ! i) = ts" using assms(1,2) by (simp add: access_unit_def)
  have "\<not> frame_has s (touch_frame (ps ! i) t new_pending)" for s
    by (simp add: frame_has_def touch_frame_def new_pending_def)
  then show ?thesis
    using assms(3,4) holds_first [OF assms(1,2), of t]
    by (simp add: pending_def push_def Let_def ts touch_frame_def new_pending_def is_late_def)
qed

lemma push_next:
  assumes "access_unit base ts ps" "i < length ps" "pending base ts ps I t0 b"
  shows "pending base ts ps (insert i I) t0 (snd (push b (ps ! i) t)) \<and>
    jb_config (snd (push b (ps ! i) t)) = jb_config b"
proof -
  obtain f where f: "jb_frames b = [(ts, f)]" "frame_holds base ps I f" "pf_timestamp f = ts"
    "pf_firstArrival f = t0" "\<not> is_late b ts"
    using assms(3) by (auto simp: pending_def)
  have p: "timestamp (ps ! i) = ts" "sequenceNumber (ps ! i) = base + of_nat i"
    using assms(1,2) by (simp_all add: access_unit_def)
  have t: "touch_frame (ps ! i) t f = f" using f(2) by (auto simp: frame_holds_def touch_frame_def)
  show ?thesis
  proof (cases "i \<in> I")
    case True
    then show ?thesis using f holds_has [OF f(2) assms(1,2)] ts32.irrefl
      by (simp add: pending_def push_def Let_def p t insert_absorb is_late_def)
  next
    case False
    then show ?thesis using f holds_has [OF f(2) assms(1,2)] ts32.irrefl
        holds_add [OF f(2) assms(1,2) False]
      by (auto simp: pending_def push_def Let_def p t is_late_def)
  qed
qed

lemma receive_next:
  assumes "access_unit base ts ps" "fst ` set qs \<subseteq> set ps" "pending base ts ps I t0 b"
  shows "pending base ts ps (I \<union> arrived ps qs) t0 (receive b qs) \<and> jb_config (receive b qs) = jb_config b"
  using assms(2,3)
proof (induction qs arbitrary: b I)
  case (Cons q qs)
  obtain i t where q: "q = (ps ! i, t)" "i < length ps"
    using Cons.prems(1) by (cases q) (auto simp: in_set_conv_nth)
  note step = push_next [OF assms(1) q(2) Cons.prems(2), of t]
  have "pending base ts ps (insert i I \<union> arrived ps qs) t0 (receive (snd (push b (ps ! i) t)) qs) \<and>
      jb_config (receive (snd (push b (ps ! i) t)) qs) = jb_config b"
    using Cons.IH [OF _ conjunct1 [OF step]] Cons.prems(1) step by simp
  then show ?case by (simp add: q arrived_Cons [OF assms(1) q(2)])
qed (simp add: arrived_def)

lemma receive_all:
  assumes "access_unit base ts ps" "fst ` set qs \<subseteq> set ps" "qs \<noteq> []" "jb_frames b = []"
    "\<not> is_late b ts"
  shows "pending base ts ps (arrived ps qs) (snd (hd qs)) (receive b qs) \<and>
    jb_config (receive b qs) = jb_config b"
proof (cases qs)
  case (Cons q qs')
  obtain i t where q: "q = (ps ! i, t)" "i < length ps"
    using assms(2) Cons by (cases q) (auto simp: in_set_conv_nth)
  note first = push_first [OF assms(1) q(2) assms(4,5), of t]
  from receive_next [OF assms(1) _ conjunct1 [OF first], of qs'] assms(2) first
  show ?thesis by (simp add: Cons q arrived_Cons [OF assms(1) q(2)])
qed (use assms in simp)

text \<open>Playout of the single pending access unit.\<close>

lemma pop_pending:
  assumes "access_unit base ts ps" "pending base ts ps I t0 b" "jc_kind (jb_config b) = Video"
  shows "fst (pop b now) =
    (if now - t0 \<ge> targetDelay (jb_config b) \<and> (\<exists>j<length ps. I = {j..<length ps})
     then (case depacketize (drop (Min I) ps) Video (jc_videoCodec (jb_config b)) (jc_audioCodec (jb_config b))
           of Inl _ \<Rightarrow> None | Inr g \<Rightarrow> Some g)
     else None)"
proof -
  obtain f where f: "jb_frames b = [(ts, f)]" "frame_holds base ps I f" "pf_firstArrival f = t0"
    using assms(2) by (auto simp: pending_def)
  have empty: "pop (emit_mark [] k b) now = (None, emit_mark [] k b)" for k
    by (subst pop.simps) (simp add: emit_mark_def)
  have compl: "isComplete (jb_config b) f \<longleftrightarrow> (\<exists>j<length ps. I = {j..<length ps})"
    by (rule complete_iff_tail [OF f(2) assms(1,3)])
  have "ordered f = drop (Min I) ps" if ex: "\<exists>j<length ps. I = {j..<length ps}"
  proof -
    obtain j where j: "j < length ps" "I = {j..<length ps}" using ex by blast
    have "Min I = j" "Max I = length ps - 1" using j by (auto intro!: Min_eqI Max_eqI)
    then show ?thesis using f(2) j walk_tail [OF assms(1) j(1), of "pf_packets f"]
      by (simp add: ordered_def frame_holds_def)
  qed
  then show ?thesis
    using f compl empty assms(3)
    by (subst pop.simps) (auto simp: Let_def split: sum.splits)
qed

lemma packetize_unit:
  assumes "packetize h f = (Inr ps, h')" "handler_ok h" "length ps \<le> 0x8000"
  shows "access_unit (rh_seq h) (ef_rtpTimestamp f) ps"
  using packetize_wire_all [OF assms(1,2)] assms(3) by (simp add: access_unit_def)

lemma arrived_tail:
  assumes "distinct ps" "fst ` set qs \<subseteq> set ps" "j < length ps"
  shows "arrived ps qs = {j..<length ps} \<longleftrightarrow> fst ` set qs = set (drop j ps)"
proof -
  have tail: "set (drop j ps) = (!) ps ` {j..<length ps}"
  proof -
    have "x \<in> set (drop j ps) \<longleftrightarrow> (\<exists>i<length ps - j. x = ps ! (j + i))" for x
      by (auto simp: in_set_conv_nth)
    moreover have "(\<exists>i<length ps - j. x = ps ! (j + i)) \<longleftrightarrow> x \<in> (!) ps ` {j..<length ps}" for x
      by (auto simp: image_iff dest: le_Suc_ex) (metis add_diff_inverse_nat diff_less_mono not_le)
    ultimately show ?thesis by blast
  qed
  have got: "fst ` set qs = (!) ps ` arrived ps qs"
    using assms(2) by (force simp: arrived_def in_set_conv_nth)
  have inj: "inj_on ((!) ps) {..<length ps}" using assms(1) by (simp add: inj_on_nth)
  have "arrived ps qs \<subseteq> {..<length ps}" "{j..<length ps} \<subseteq> {..<length ps}"
    by (auto simp: arrived_def)
  then show ?thesis unfolding got tail using inj_on_image_eq_iff [OF inj] by blast
qed

lemma arrived_set: "fst ` set qs = set ps \<Longrightarrow> ps \<noteq> [] \<Longrightarrow> arrived ps qs = {0..<length ps}"
  by (auto simp: arrived_def)

lemma reassembled:
  assumes "packetize h f = (Inr ps, h')" "handler_ok h" "ef_kind f = Video" "length ps \<le> 0x8000"
    "\<forall>n\<in>set (nals_of (ef_data f)). sendable (rh_maxPayload h) n"
    "fst ` set qs = set ps" "jb_frames b = []" "\<not> is_late b (ef_rtpTimestamp f)"
    "jc_kind (jb_config b) = Video"
  shows "case fst (pop (receive b qs) now) of
      None \<Rightarrow> now - snd (hd qs) < targetDelay (jb_config b)
    | Some g \<Rightarrow> now - snd (hd qs) \<ge> targetDelay (jb_config b) \<and> ef_data g = annexb (nals_of (ef_data f)) \<and>
        ef_rtpTimestamp g = ef_rtpTimestamp f \<and> ef_kind g = Video \<and>
        (ef_keyframe g \<longleftrightarrow> (\<exists>n\<in>set (nals_of (ef_data f)). key_nal n))"
proof -
  note unit = packetize_unit [OF assms(1,2,4)]
  then have ne: "ps \<noteq> []" by (simp add: access_unit_def)
  then have "qs \<noteq> []" using assms(6) by auto
  from receive_all [OF unit _ this assms(7,8)] assms(6)
  have r: "pending (rh_seq h) (ef_rtpTimestamp f) ps {0..<length ps} (snd (hd qs)) (receive b qs)"
    "jb_config (receive b qs) = jb_config b"
    by (simp_all add: arrived_set [OF assms(6) ne])
  have tail: "\<exists>j<length ps. {0..<length ps} = {j..<length ps}" "Min {0..<length ps} = 0"
    using ne by (auto intro!: Min_eqI)
  have mp: "0 < rh_maxPayload h" using assms(2) by (simp add: handler_ok_def)
  show ?thesis
    using pop_pending [OF unit r(1), of now] tail assms(9) r(2)
      depacketize_payloads [OF assms(1,3) mp assms(5)]
    by (simp add: ef_data_def)
qed

text \<open>C6. Transport and playout of a video frame: the packets of a frame, received in any
  order and with any repetitions into an empty buffer that has not yet played past the frame,
  give exactly the frame that was sent (its NAL units, timestamp and keyframe flag) at the first
  playout call once the target delay since the first arrival has elapsed, and nothing before.\<close>

theorem reassembly_any_order:
  assumes "packetize h f = (Inr ps, h')" "handler_ok h" "ef_kind f = Video" "length ps \<le> 0x8000"
    "\<forall>n\<in>set (nals_of (ef_data f)). sendable (rh_maxPayload h) n"
    "fst ` set qs = set ps" "jb_frames b = []" "\<not> is_late b (ef_rtpTimestamp f)"
    "jc_kind (jb_config b) = Video"
  shows "case fst (pop (receive b qs) now) of
      None \<Rightarrow> now - snd (hd qs) < targetDelay (jb_config b)
    | Some g \<Rightarrow> now - snd (hd qs) \<ge> targetDelay (jb_config b) \<and> ef_data g = annexb (nals_of (ef_data f)) \<and>
        ef_rtpTimestamp g = ef_rtpTimestamp f \<and> ef_kind g = Video \<and>
        (ef_keyframe g \<longleftrightarrow> (\<exists>n\<in>set (nals_of (ef_data f)). key_nal n))"
  by (rule reassembled [OF assms])


section \<open>Gap reports\<close>

definition gap_of :: "u16 \<Rightarrow> nat \<times> nat \<Rightarrow> sequence_gap" where
  "gap_of base r = \<lparr>firstMissing = base + of_nat (fst r), lastMissing = base + of_nat (snd r)\<rparr>"

lemma gap_walk_runs:
  assumes "i \<le> m" "m < 0x8000" "inGap \<longrightarrow> a < i \<and> cur = gap_of base (a, i - 1)"
  shows "\<exists>rs. gap_walk pk (base + of_nat i) (base + of_nat m) inGap cur = map (gap_of base) rs \<and>
     sorted_wrt (\<lambda>r s. snd r + 1 < fst s) rs \<and>
     (\<forall>r\<in>set rs. (if inGap then a else i) \<le> fst r \<and> fst r \<le> snd r \<and> snd r \<le> m \<and>
        (inGap \<longrightarrow> fst r = a \<or> i < fst r)) \<and>
     (\<forall>k. (\<exists>r\<in>set rs. fst r \<le> k \<and> k \<le> snd r) \<longleftrightarrow>
        (inGap \<and> a \<le> k \<and> k < i) \<or> (i \<le> k \<and> k \<le> m \<and> map_of pk (base + of_nat k) = None))"
  using assms(1,3)
proof (induction "m - i" arbitrary: i inGap cur a)
  case 0
  then have im: "i = m" by simp
  show ?case
  proof (cases "map_of pk (base + of_nat m)")
    case None
    let ?a = "if inGap then a else m"
    have "gap_walk pk (base + of_nat i) (base + of_nat m) inGap cur = map (gap_of base) [(?a, m)]"
      using 0 None by (subst gap_walk.simps) (simp add: im Let_def gap_of_def)
    then show ?thesis using 0 None im by (intro exI [of _ "[(?a, m)]"]) (auto split: if_splits)
  next
    case (Some p)
    let ?rs = "if inGap then [(a, m - 1)] else []"
    have "gap_walk pk (base + of_nat i) (base + of_nat m) inGap cur = map (gap_of base) ?rs"
      using 0 Some by (subst gap_walk.simps) (simp add: im Let_def)
    then show ?thesis using 0 Some im by (intro exI [of _ ?rs]) (auto split: if_splits)
  qed
next
  case (Suc d)
  then have im: "i < m" by simp
  have ne: "base + of_nat i \<noteq> base + of_nat m"
    using im assms(2) word_step_inject [of i m base] by simp
  have dd: "d = m - Suc i" using Suc.hyps(2) by simp
  have nxt: "base + of_nat i + 1 = base + of_nat (Suc i)" by simp
  show ?case
  proof (cases "map_of pk (base + of_nat i)")
    case None
    define A where "A = (if inGap then a else i)"
    have A: "A < Suc i" using Suc.prems by (auto simp: A_def)
    obtain rs where rs: "gap_walk pk (base + of_nat (Suc i)) (base + of_nat m) True (gap_of base (A, i)) = map (gap_of base) rs"
      "sorted_wrt (\<lambda>r s. snd r + 1 < fst s) rs"
      "\<forall>r\<in>set rs. A \<le> fst r \<and> fst r \<le> snd r \<and> snd r \<le> m \<and> (fst r = A \<or> Suc i < fst r)"
      "\<forall>k. (\<exists>r\<in>set rs. fst r \<le> k \<and> k \<le> snd r) \<longleftrightarrow>
        (A \<le> k \<and> k < Suc i) \<or> (Suc i \<le> k \<and> k \<le> m \<and> map_of pk (base + of_nat k) = None)"
      using Suc.hyps(1) [of "Suc i" True A "gap_of base (A, i)", OF dd] A im by auto
    have "gap_walk pk (base + of_nat i) (base + of_nat m) inGap cur = map (gap_of base) rs"
      unfolding rs(1) [symmetric] using Suc.prems None ne
      by (cases cur) (subst gap_walk.simps, auto simp: Let_def gap_of_def nxt A_def)
    moreover have "(A \<le> k \<and> k < Suc i) \<or> (Suc i \<le> k \<and> k \<le> m \<and> map_of pk (base + of_nat k) = None) \<longleftrightarrow>
        (inGap \<and> a \<le> k \<and> k < i) \<or> (i \<le> k \<and> k \<le> m \<and> map_of pk (base + of_nat k) = None)" for k
      using None im Suc.prems by (cases "k = i") (auto simp: A_def)
    ultimately show ?thesis using rs(2-4) A Suc.prems by (intro exI [of _ rs]) (auto simp: A_def split: if_splits)
  next
    case (Some p)
    obtain rs where rs: "gap_walk pk (base + of_nat (Suc i)) (base + of_nat m) False cur = map (gap_of base) rs"
      "sorted_wrt (\<lambda>r s. snd r + 1 < fst s) rs"
      "\<forall>r\<in>set rs. Suc i \<le> fst r \<and> fst r \<le> snd r \<and> snd r \<le> m"
      "\<forall>k. (\<exists>r\<in>set rs. fst r \<le> k \<and> k \<le> snd r) \<longleftrightarrow>
        (Suc i \<le> k \<and> k \<le> m \<and> map_of pk (base + of_nat k) = None)"
      using Suc.hyps(1) [of "Suc i" False a cur, OF dd] im by auto
    let ?rs = "(if inGap then [(a, i - 1)] else []) @ rs"
    have "gap_walk pk (base + of_nat i) (base + of_nat m) inGap cur = map (gap_of base) ?rs"
      using Suc.prems Some ne rs(1) by (subst gap_walk.simps) (simp add: Let_def nxt)
    moreover have "(Suc i \<le> k \<and> k \<le> m \<and> map_of pk (base + of_nat k) = None) \<longleftrightarrow>
        (i \<le> k \<and> k \<le> m \<and> map_of pk (base + of_nat k) = None)" for k
      using Some by (cases "k = i") auto
    ultimately show ?thesis using rs(2-4) Suc.prems by (intro exI [of _ ?rs]) (auto simp: Suc_le_eq)
  qed
qed

text \<open>The gap report of a frame is exact: when the packets at the indices \<open>I\<close> of an
  access unit have arrived, the reported gaps are disjoint maximal runs in ascending order (at
  least one packet apart), and together they cover precisely the indices between the first and the
  last arrival that have not arrived, across the sequence-number wrap.\<close>

theorem gaps_exact:
  assumes "access_unit base ts ps" "frame_holds base ps I f"
  shows "\<exists>rs. frame_gaps f = map (gap_of base) rs \<and> sorted_wrt (\<lambda>r s. snd r + 1 < fst s) rs \<and>
     (\<forall>r\<in>set rs. fst r \<le> snd r) \<and>
     (\<Union>r\<in>set rs. {fst r..snd r}) = {Min I..Max I} - I"
proof -
  note b = holds_bounds [OF assms(2)]
  have m: "Max I < 0x8000" using b(4) [OF b(3)] assms(1) by (auto simp: access_unit_def)
  have le: "Min I \<le> Max I" using b(1,3) by (rule Min_le)
  have miss: "map_of (pf_packets f) (base + of_nat k) = None \<longleftrightarrow> k \<notin> I" if "k \<le> Max I" for k
    using holds_has [OF assms(2,1), of k] that b(4) [OF b(3)] by (simp add: frame_has_def del: not_None_eq) blast
  have fg: "frame_gaps f = gap_walk (pf_packets f) (base + of_nat (Min I)) (base + of_nat (Max I)) False
      \<lparr>firstMissing = 0, lastMissing = 0\<rparr>"
    using assms(2) by (auto simp: frame_gaps_def frame_holds_def)
  obtain rs where rs: "frame_gaps f = map (gap_of base) rs" "sorted_wrt (\<lambda>r s. snd r + 1 < fst s) rs"
    "\<forall>r\<in>set rs. fst r \<le> snd r"
    and cover: "\<And>k. (\<exists>r\<in>set rs. fst r \<le> k \<and> k \<le> snd r) \<longleftrightarrow>
      (Min I \<le> k \<and> k \<le> Max I \<and> map_of (pf_packets f) (base + of_nat k) = None)"
    using gap_walk_runs [OF le m, of False 0 "\<lparr>firstMissing = 0, lastMissing = 0\<rparr>" base "pf_packets f"]
    unfolding fg by auto
  have "k \<in> (\<Union>r\<in>set rs. {fst r..snd r}) \<longleftrightarrow> k \<in> {Min I..Max I} - I" for k
    using cover [of k] miss [of k] by auto
  then have "(\<Union>r\<in>set rs. {fst r..snd r}) = {Min I..Max I} - I" by blast
  with rs show ?thesis by blast
qed

section \<open>Concrete runs\<close>

definition sample_buffer :: jitter_buffer where
  "sample_buffer = new_jitter_buffer default_jitter_config"

text \<open>The three packets of the sample frame (sequence numbers 65534, 65535, 0) out of order,
  one of them twice.\<close>

definition sample_arrivals :: "(rtp_packet \<times> steady_time) list" where
  "sample_arrivals = [(sample_sent ! 2, 5), (sample_sent ! 0, 6), (sample_sent ! 2, 7), (sample_sent ! 1, 8)]"

lemma sample_sent_len: "length sample_sent = 3"
  by (simp add: sample_sent_def)

lemma sample_set: "fst ` set sample_arrivals = set sample_sent"
  by (auto simp: sample_arrivals_def sample_sent_def)

lemma sample_unit: "access_unit 65534 3000 sample_sent"
  using packetize_unit [OF sample_run sample_handler_ok(1)] sample_sent_len
  by (simp add: sample_handler_def sample_frame_def setPayload_def)

lemma sample_buffer_simps: "jb_frames sample_buffer = []" "jc_kind (jb_config sample_buffer) = Video"
  "\<not> is_late sample_buffer ts" "targetDelay (jb_config sample_buffer) = 50000000"
  by (simp_all add: sample_buffer_def new_jitter_buffer_def default_jitter_config_def is_late_def)

lemma playout_in_order_witness:
  "sorted_wrt (\<lambda>g h. tsLessThan (ef_rtpTimestamp g) (ef_rtpTimestamp h))
     (fst (play sample_buffer [Arrive (sample_sent ! 2) 5, Arrive (sample_packet) 6, Playout 60000000, Playout 70000000]))"
proof -
  have "\<forall>e\<in>set [Arrive (sample_sent ! 2) 5, Arrive (sample_packet) 6, Playout 60000000, Playout 70000000].
      ts_window 0xD0000000 (event_ts e)"
    by (simp add: ts32.in_window_def sample_sent_def make_packet_def sample_frame_def sample_packet_def
        setPayload_def)
  from playout_in_order [OF this, of default_jitter_config] show ?thesis
    unfolding sample_buffer_def by (metis prod.collapse)
qed

lemma push_accepts_iff_witness: "fst (push sample_buffer (sample_sent ! 2) 5)"
proof -
  have ok: "jb_ok sample_buffer" by (simp add: sample_buffer_def jb_ok_new)
  have "ts_window 3000 (insert (timestamp (sample_sent ! 2)) (known_ts sample_buffer))"
    using sample_unit by (simp add: sample_buffer_def known_ts_def new_jitter_buffer_def
        ts32.in_window_def access_unit_def sample_sent_len)
  from push_accepts_iff [OF ok this, of 5] sample_buffer_simps show ?thesis
    by (metis holds_packet_def list.set(1) empty_iff prod.collapse)
qed

lemma reassembly_any_order_witness:
  "case fst (pop (receive sample_buffer sample_arrivals) 50000005) of
     None \<Rightarrow> False | Some g \<Rightarrow> ef_data g = annexb (nals_of (ef_data sample_frame))"
  using reassembly_any_order [OF sample_run sample_handler_ok(1) sample_kind(1) _ sample_sendable sample_set
      sample_buffer_simps(1,3,2), of 50000005] sample_sent_len sample_buffer_simps(4)
  by (auto simp: sample_arrivals_def split: option.splits)


lemma gaps_exact_witness:
  "\<exists>rs. frame_gaps (frame_add (sample_sent ! 2) (frame_add (sample_sent ! 0) (touch_frame (sample_sent ! 0) 5 new_pending)))
     = map (gap_of 65534) rs \<and> (\<Union>r\<in>set rs. {fst r..snd r}) = {1}"
proof -
  have "frame_holds 65534 sample_sent {2, 0}
      (frame_add (sample_sent ! 2) (frame_add (sample_sent ! 0) (touch_frame (sample_sent ! 0) 5 new_pending)))"
    by (rule holds_add [OF holds_first [OF sample_unit] sample_unit]) (simp_all add: sample_sent_len)
  from gaps_exact [OF sample_unit this]
  have "\<exists>rs. frame_gaps (frame_add (sample_sent ! 2) (frame_add (sample_sent ! 0) (touch_frame (sample_sent ! 0) 5 new_pending)))
     = map (gap_of 65534) rs \<and> (\<Union>r\<in>set rs. {fst r..snd r}) = {Min {2, 0}..Max {2, 0}} - {2, 0}" by blast
  moreover have "{Min {2, 0}..Max {2, 0 :: nat}} - {2, 0} = {1}" by auto
  ultimately show ?thesis by simp
qed

end
