(* ===== verification/Registry.thy ===== *)
theory Registry
  imports Prelude
begin

text \<open>
  The contract of a bounded set of members with admission and removal, as the forwarding unit's
  \<^verbatim>\<open>Room\<close> and the tiles of the call window keep one. What follows from the contract is proved once here: admission and
  removal keep the members distinct and within the capacity, over any sequence of requests.
\<close>

locale member_registry =
  fixes members :: "'r \<Rightarrow> 'k list"
    and capacity :: "'r \<Rightarrow> nat"
    and admit :: "'k \<Rightarrow> 'r \<Rightarrow> 'r option"
    and expel :: "'k \<Rightarrow> 'r \<Rightarrow> 'r"
  assumes admit_iff: "admit k r = None \<longleftrightarrow> k \<in> set (members r) \<or> capacity r \<le> length (members r)"
    and admit_members: "admit k r = Some r' \<Longrightarrow> members r' = members r @ [k] \<and> capacity r' = capacity r"
    and expel_members: "distinct (members r) \<Longrightarrow>
      members (expel k r) = filter (\<lambda>x. x \<noteq> k) (members r) \<and> capacity (expel k r) = capacity r"
begin

definition sound :: "'r \<Rightarrow> bool" where
  "sound r \<longleftrightarrow> distinct (members r) \<and> length (members r) \<le> capacity r"

lemma admit_sound: "sound r \<Longrightarrow> admit k r = Some r' \<Longrightarrow> sound r'"
  using admit_iff [of k r] admit_members [of k r r'] by (auto simp: sound_def)

lemma expel_sound: "sound r \<Longrightarrow> sound (expel k r)"
  using expel_members [of r k] length_filter_le [of "\<lambda>x. x \<noteq> k" "members r"]
  unfolding sound_def by (metis distinct_filter le_trans)

lemma expel_gone: "sound r \<Longrightarrow> k \<notin> set (members (expel k r))"
  using expel_members [of r k] by (simp add: sound_def)

lemma expel_others: "sound r \<Longrightarrow> x \<noteq> k \<Longrightarrow> x \<in> set (members (expel k r)) \<longleftrightarrow> x \<in> set (members r)"
  using expel_members [of r k] by (simp add: sound_def)

lemma expel_frees:
  assumes "sound r" "k \<in> set (members r)"
  shows "\<exists>r'. admit k (expel k r) = Some r'"
proof -
  have "length (filter (\<lambda>x. x \<noteq> k) (members r)) < length (members r)"
    using assms(2) by (intro length_filter_less) auto
  then have "admit k (expel k r) \<noteq> None"
    using assms expel_members [of r k] by (simp add: sound_def admit_iff)
  then show ?thesis by auto
qed

text \<open>A sequence of requests: \<open>Inl k\<close> asks for admission, \<open>Inr k\<close> for removal.\<close>

fun requests :: "('k + 'k) list \<Rightarrow> 'r \<Rightarrow> 'r" where
  "requests [] r = r"
| "requests (Inl k # qs) r = requests qs (case admit k r of Some r' \<Rightarrow> r' | None \<Rightarrow> r)"
| "requests (Inr k # qs) r = requests qs (expel k r)"

lemma requests_sound: "sound r \<Longrightarrow> sound (requests qs r)"
  by (induction qs r rule: requests.induct) (auto simp: expel_sound dest: admit_sound split: option.splits)

end

end
