(* ===== verification/Sfu.thy ===== *)
theory Sfu
  imports Rtp Registry "HOL-Library.Multiset"
begin

text \<open>
  The selective forwarding unit of src/src/sfu: \<^verbatim>\<open>Participant\<close>, \<^verbatim>\<open>Room\<close> and
  \<^verbatim>\<open>SFUServer\<close>. Unordered maps are association lists, so a delivery list is in the map's
  iteration order, which the properties do not depend on. A packet sink is an opaque value of type
  \<open>'s\<close> (the \<^verbatim>\<open>std::function\<close>), its call an entry of the returned delivery list; the
  keyframe callback is likewise a returned list of the senders asked. A room returned by pointer is
  its name.
\<close>

section \<open>Participant\<close>

type_synonym participant_id = string

record 's participant =
  pt_id :: participant_id
  pt_sink :: "'s option"
  pt_audioSsrc :: u32
  pt_videoSsrc :: u32
  pt_needsKeyframe :: bool
  pt_targetBitrate :: u32
  pt_rembEstimate :: u32
  pt_lastForwardedSeq :: "(u32 \<times> u16) list"

definition new_participant :: "participant_id \<Rightarrow> 's option \<Rightarrow> 's participant" where
  "new_participant i sink = \<lparr>pt_id = i, pt_sink = sink, pt_audioSsrc = 0, pt_videoSsrc = 0,
     pt_needsKeyframe = False, pt_targetBitrate = 0, pt_rembEstimate = 0, pt_lastForwardedSeq = []\<rparr>"

definition setAudioSsrc :: "u32 \<Rightarrow> 's participant \<Rightarrow> 's participant" where
  "setAudioSsrc s p = p\<lparr>pt_audioSsrc := s\<rparr>"

definition setVideoSsrc :: "u32 \<Rightarrow> 's participant \<Rightarrow> 's participant" where
  "setVideoSsrc s p = p\<lparr>pt_videoSsrc := s\<rparr>"

definition hasVideo :: "'s participant \<Rightarrow> bool" where
  "hasVideo p \<longleftrightarrow> pt_videoSsrc p \<noteq> 0"

definition deliver :: "rtp_packet \<Rightarrow> 's participant \<Rightarrow> 's participant \<times> ('s \<times> rtp_packet) list" where
  "deliver pkt p =
    (p\<lparr>pt_lastForwardedSeq := AList.update (ssrc pkt) (sequenceNumber pkt) (pt_lastForwardedSeq p)\<rparr>,
     case pt_sink p of Some s \<Rightarrow> [(s, pkt)] | None \<Rightarrow> [])"

definition lastForwardedSeq :: "u32 \<Rightarrow> 's participant \<Rightarrow> u16 option" where
  "lastForwardedSeq s p = map_of (pt_lastForwardedSeq p) s"

definition setNeedsKeyframe :: "bool \<Rightarrow> 's participant \<Rightarrow> 's participant" where
  "setNeedsKeyframe n p = p\<lparr>pt_needsKeyframe := n\<rparr>"

definition setTargetBitrate :: "u32 \<Rightarrow> 's participant \<Rightarrow> 's participant" where
  "setTargetBitrate b p = p\<lparr>pt_targetBitrate := b\<rparr>"

definition setRembEstimate :: "u32 \<Rightarrow> 's participant \<Rightarrow> 's participant" where
  "setRembEstimate b p = p\<lparr>pt_rembEstimate := b\<rparr>"

section \<open>Room\<close>

type_synonym 's members = "(participant_id \<times> 's participant) list"

record 's room =
  rm_id :: string
  rm_keyframeRequest :: bool
  rm_maxParticipants :: nat
  rm_participants :: "'s members"

definition kMaxParticipants :: nat where
  "kMaxParticipants = 8"

definition new_room :: "string \<Rightarrow> bool \<Rightarrow> nat \<Rightarrow> 's room" where
  "new_room i kf mx = \<lparr>rm_id = i, rm_keyframeRequest = kf, rm_maxParticipants = mx, rm_participants = []\<rparr>"

definition room_add :: "participant_id \<Rightarrow> 's option \<Rightarrow> 's room
    \<Rightarrow> 's participant result \<times> participant_id list \<times> 's room" where
  "room_add i sink r =
    (if map_of (rm_participants r) i \<noteq> None then (fail InvalidArgument, [], r)
     else if length (rm_participants r) \<ge> rm_maxParticipants r then (fail ResourceExhausted, [], r)
     else
       let existing = map fst (filter (\<lambda>(k, p). hasVideo p) (rm_participants r));
           p = setNeedsKeyframe True (new_participant i sink)
       in (Inr p, if rm_keyframeRequest r then existing else [],
           r\<lparr>rm_participants := rm_participants r @ [(i, p)]\<rparr>))"

text \<open>The inner loop of \<^verbatim>\<open>recomputeTargetsLocked\<close>: \<open>(minEstimate, any)\<close>.\<close>

fun min_estimate :: "participant_id \<Rightarrow> 's members \<Rightarrow> u32 \<times> bool \<Rightarrow> u32 \<times> bool" where
  "min_estimate sender [] acc = acc"
| "min_estimate sender ((k, recv) # ps) (m, any) =
    (if k = sender then min_estimate sender ps (m, any)
     else if pt_rembEstimate recv = 0 then min_estimate sender ps (m, any)
     else min_estimate sender ps (if pt_rembEstimate recv < m then pt_rembEstimate recv else m, True))"

definition recomputeTargetsLocked :: "'s members \<Rightarrow> 's members" where
  "recomputeTargetsLocked ps =
    map (\<lambda>(sender, p). let (m, any) = min_estimate sender ps (-1, False)
           in (sender, setTargetBitrate (if any then m else 0) p)) ps"

definition room_remove :: "participant_id \<Rightarrow> 's room \<Rightarrow> status \<times> 's room" where
  "room_remove i r =
    (if map_of (rm_participants r) i = None then (fail NotFound, r)
     else (ok, r\<lparr>rm_participants := recomputeTargetsLocked (AList.delete i (rm_participants r))\<rparr>))"

definition room_find :: "participant_id \<Rightarrow> 's room \<Rightarrow> 's participant option" where
  "room_find i r = map_of (rm_participants r) i"

fun forward_loop :: "participant_id \<Rightarrow> rtp_packet \<Rightarrow> 's members \<Rightarrow> 's members \<times> ('s \<times> rtp_packet) list" where
  "forward_loop sender pkt [] = ([], [])"
| "forward_loop sender pkt ((k, p) # ps) =
    (let (ps', ds) = forward_loop sender pkt ps in
     if k = sender then ((k, p) # ps', ds)
     else let (p', d) = deliver pkt p in ((k, p') # ps', d @ ds))"

definition room_forward :: "participant_id \<Rightarrow> rtp_packet \<Rightarrow> 's room \<Rightarrow> 's room \<times> ('s \<times> rtp_packet) list" where
  "room_forward sender pkt r =
    (if map_of (rm_participants r) sender = None then (r, [])
     else let (ps, ds) = forward_loop sender pkt (rm_participants r)
          in (r\<lparr>rm_participants := ps\<rparr>, ds))"

definition room_onRemb :: "participant_id \<Rightarrow> u32 \<Rightarrow> 's room \<Rightarrow> 's room" where
  "room_onRemb i bps r =
    (case map_of (rm_participants r) i of
       None \<Rightarrow> r
     | Some p \<Rightarrow> r\<lparr>rm_participants :=
         recomputeTargetsLocked (AList.update i (setRembEstimate bps p) (rm_participants r))\<rparr>)"

definition room_targetBitrate :: "participant_id \<Rightarrow> 's room \<Rightarrow> u32" where
  "room_targetBitrate i r = (case map_of (rm_participants r) i of None \<Rightarrow> 0 | Some p \<Rightarrow> pt_targetBitrate p)"

definition room_size :: "'s room \<Rightarrow> nat" where
  "room_size r = length (rm_participants r)"

section \<open>SFUServer\<close>

record 's sfu_server =
  sv_keyframeRequest :: bool
  sv_rooms :: "(string \<times> 's room) list"

definition new_sfu_server :: "'s sfu_server" where
  "new_sfu_server = \<lparr>sv_keyframeRequest = False, sv_rooms = []\<rparr>"

definition setKeyframeRequestCallback :: "bool \<Rightarrow> 's sfu_server \<Rightarrow> 's sfu_server" where
  "setKeyframeRequestCallback fn s = s\<lparr>sv_keyframeRequest := fn\<rparr>"

definition findRoom :: "string \<Rightarrow> 's sfu_server \<Rightarrow> 's room option" where
  "findRoom rid s = map_of (sv_rooms s) rid"

definition put_room :: "string \<Rightarrow> 's room \<Rightarrow> 's sfu_server \<Rightarrow> 's sfu_server" where
  "put_room rid r s = s\<lparr>sv_rooms := AList.update rid r (sv_rooms s)\<rparr>"

definition addParticipant :: "string \<Rightarrow> participant_id \<Rightarrow> 's option \<Rightarrow> 's sfu_server
    \<Rightarrow> 's participant result \<times> participant_id list \<times> 's sfu_server" where
  "addParticipant rid i sink s =
    (let room = (case findRoom rid s of Some r \<Rightarrow> r | None \<Rightarrow> new_room rid (sv_keyframeRequest s) kMaxParticipants);
         (res, asked, room') = room_add i sink room
     in (res, asked, put_room rid room' s))"

definition removeParticipant :: "string \<Rightarrow> participant_id \<Rightarrow> 's sfu_server \<Rightarrow> status \<times> 's sfu_server" where
  "removeParticipant rid i s =
    (case findRoom rid s of
       None \<Rightarrow> (fail NotFound, s)
     | Some r \<Rightarrow>
         let (st, r') = room_remove i r in
         (st, if room_size r' = 0 then s\<lparr>sv_rooms := AList.delete rid (sv_rooms s)\<rparr> else put_room rid r' s))"

definition routePacket :: "string \<Rightarrow> participant_id \<Rightarrow> rtp_packet \<Rightarrow> 's sfu_server
    \<Rightarrow> 's sfu_server \<times> ('s \<times> rtp_packet) list" where
  "routePacket rid sender pkt s =
    (case findRoom rid s of
       None \<Rightarrow> (s, [])
     | Some r \<Rightarrow> let (r', ds) = room_forward sender pkt r in (put_room rid r' s, ds))"

definition sfu_onRemb :: "string \<Rightarrow> participant_id \<Rightarrow> u32 \<Rightarrow> 's sfu_server \<Rightarrow> 's sfu_server" where
  "sfu_onRemb rid i bps s =
    (case findRoom rid s of None \<Rightarrow> s | Some r \<Rightarrow> put_room rid (room_onRemb i bps r) s)"

definition sfu_targetBitrate :: "string \<Rightarrow> participant_id \<Rightarrow> 's sfu_server \<Rightarrow> u32" where
  "sfu_targetBitrate rid i s = (case findRoom rid s of None \<Rightarrow> 0 | Some r \<Rightarrow> room_targetBitrate i r)"

definition roomCount :: "'s sfu_server \<Rightarrow> nat" where
  "roomCount s = length (sv_rooms s)"

section \<open>The room as a member registry\<close>

lemma fst_recompute [simp]: "map fst (recomputeTargetsLocked ps) = map fst ps"
  by (induction ps) (auto simp: recomputeTargetsLocked_def Let_def split: prod.splits)

lemma length_recompute [simp]: "length (recomputeTargetsLocked ps) = length ps"
  by (simp add: recomputeTargetsLocked_def)

definition room_members :: "'s room \<Rightarrow> participant_id list" where
  "room_members r = map fst (rm_participants r)"

definition room_admit :: "'s option \<Rightarrow> participant_id \<Rightarrow> 's room \<Rightarrow> 's room option" where
  "room_admit sink i r = (case room_add i sink r of (Inr p, _, r') \<Rightarrow> Some r' | (Inl e, _, _) \<Rightarrow> None)"

definition room_expel :: "participant_id \<Rightarrow> 's room \<Rightarrow> 's room" where
  "room_expel i r = snd (room_remove i r)"

interpretation sfu_room: member_registry room_members rm_maxParticipants "room_admit sink" room_expel
  for sink :: "'s option"
proof
  fix k :: participant_id and r :: "'s room"
  show "room_admit sink k r = None \<longleftrightarrow> k \<in> set (room_members r) \<or> rm_maxParticipants r \<le> length (room_members r)"
    by (auto simp: room_admit_def room_add_def room_members_def Let_def map_of_None_iff fail_def
        split: sum.splits)
next
  fix k :: participant_id and r r' :: "'s room"
  assume "room_admit sink k r = Some r'"
  then show "room_members r' = room_members r @ [k] \<and> rm_maxParticipants r' = rm_maxParticipants r"
    by (auto simp: room_admit_def room_add_def room_members_def Let_def fail_def split: if_splits)
next
  fix k :: participant_id and r :: "'s room"
  have "map_of (rm_participants r) k = None \<Longrightarrow> filter (\<lambda>x. x \<noteq> k) (map fst (rm_participants r)) = map fst (rm_participants r)"
    by (auto simp: map_of_None_iff filter_id_conv)
  then show "room_members (room_expel k r) = filter (\<lambda>x. x \<noteq> k) (room_members r) \<and>
      rm_maxParticipants (room_expel k r) = rm_maxParticipants r"
    by (auto simp: room_expel_def room_remove_def room_members_def keys_delete_filter)
qed

section \<open>Forwarding\<close>

lemma fst_forward_loop [simp]: "map fst (fst (forward_loop s pkt ps)) = map fst ps"
  by (induction s pkt ps rule: forward_loop.induct) (auto simp: deliver_def split: prod.splits)

lemma forward_loop_deliveries:
  "snd (forward_loop s pkt ps) =
    concat (map (\<lambda>(k, p). if k = s then [] else (case pt_sink p of Some t \<Rightarrow> [(t, pkt)] | None \<Rightarrow> [])) ps)"
  by (induction s pkt ps rule: forward_loop.induct) (auto simp: deliver_def split: prod.splits)

lemma forward_loop_members:
  "fst (forward_loop s pkt ps) = map (\<lambda>(k, p). (k, if k = s then p else fst (deliver pkt p))) ps"
  by (induction s pkt ps rule: forward_loop.induct) (auto split: prod.splits simp: split_beta)

text \<open>C8. Selective forwarding: a packet of a member reaches every other member of the room that
  has a sink exactly once and unchanged (as many deliveries as there are such members, each to
  its sink), is never returned to its sender, and every other member's bookkeeping records the
  packet's sequence number under its SSRC; a packet of a sender that is not in the room goes
  nowhere and changes nothing.\<close>

theorem forward_exactly_others:
  fixes r :: "'s room"
  assumes "distinct (room_members r)" "room_forward sender pkt r = (r', ds)"
  shows "(sender \<notin> set (room_members r) \<longrightarrow> r' = r \<and> ds = []) \<and>
    (sender \<in> set (room_members r) \<longrightarrow>
       mset ds = image_mset (\<lambda>(k, p). (the (pt_sink p), pkt))
         (mset (filter (\<lambda>(k, p). k \<noteq> sender \<and> pt_sink p \<noteq> None) (rm_participants r))) \<and>
       room_members r' = room_members r \<and> room_find sender r' = room_find sender r \<and>
       (\<forall>k p. k \<noteq> sender \<longrightarrow> room_find k r = Some p \<longrightarrow>
          (\<exists>p'. room_find k r' = Some p' \<and>
             (\<forall>x. lastForwardedSeq x p' = (if x = ssrc pkt then Some (sequenceNumber pkt) else lastForwardedSeq x p)))))"
proof (cases "map_of (rm_participants r) sender")
  case None
  then have "sender \<notin> set (room_members r)" by (simp add: room_members_def map_of_None_iff)
  with None assms(2) show ?thesis by (simp add: room_forward_def)
next
  case (Some p)
  then have mem: "sender \<in> set (room_members r)"
    by (force simp: room_members_def dest: map_of_SomeD)
  let ?ps = "rm_participants r"
  have r': "rm_participants r' = fst (forward_loop sender pkt ?ps)" "ds = snd (forward_loop sender pkt ?ps)"
    using assms(2) Some by (auto simp: room_forward_def split: prod.splits)
  have look: "map_of (fst (forward_loop sender pkt ps)) k =
      (if k = sender then map_of ps k else map_option (\<lambda>p. fst (deliver pkt p)) (map_of ps k))"
    for k and ps :: "'s members"
    unfolding forward_loop_members by (induction ps) auto
  have "mset (snd (forward_loop sender pkt ps)) = image_mset (\<lambda>(k, p). (the (pt_sink p), pkt))
         (mset (filter (\<lambda>(k, p). k \<noteq> sender \<and> pt_sink p \<noteq> None) ps))"
    for ps :: "'s members"
    unfolding forward_loop_deliveries by (induction ps) (auto split: option.splits)
  then show ?thesis using mem look r'
    by (auto simp: room_find_def room_members_def deliver_def lastForwardedSeq_def alist_simps)
qed

section \<open>Reachable servers\<close>

text \<open>The application changes a member through the pointer \<^verbatim>\<open>addParticipant\<close> returned or
  \<^verbatim>\<open>findRoom\<close> / \<^verbatim>\<open>Room::find\<close> give it (to register its SSRCs).\<close>

definition with_member :: "string \<Rightarrow> participant_id \<Rightarrow> ('s participant \<Rightarrow> 's participant) \<Rightarrow> 's sfu_server \<Rightarrow> 's sfu_server" where
  "with_member rid i f s =
    (case findRoom rid s of
       None \<Rightarrow> s
     | Some r \<Rightarrow> (case room_find i r of
         None \<Rightarrow> s
       | Some p \<Rightarrow> put_room rid (r\<lparr>rm_participants := AList.update i (f p) (rm_participants r)\<rparr>) s))"

inductive sfu_reachable :: "'s sfu_server \<Rightarrow> bool" where
  start: "sfu_reachable new_sfu_server"
| callback: "sfu_reachable s \<Longrightarrow> sfu_reachable (setKeyframeRequestCallback fn s)"
| add: "sfu_reachable s \<Longrightarrow> addParticipant rid i sink s = (res, asked, s') \<Longrightarrow> sfu_reachable s'"
| remove: "sfu_reachable s \<Longrightarrow> removeParticipant rid i s = (st, s') \<Longrightarrow> sfu_reachable s'"
| route: "sfu_reachable s \<Longrightarrow> routePacket rid i pkt s = (s', ds) \<Longrightarrow> sfu_reachable s'"
| remb: "sfu_reachable s \<Longrightarrow> sfu_reachable (sfu_onRemb rid i bps s)"
| audio: "sfu_reachable s \<Longrightarrow> sfu_reachable (with_member rid i (setAudioSsrc n) s)"
| video: "sfu_reachable s \<Longrightarrow> sfu_reachable (with_member rid i (setVideoSsrc n) s)"

definition member_ok :: "participant_id \<Rightarrow> 's participant \<Rightarrow> bool" where
  "member_ok k p \<longleftrightarrow> pt_id p = k \<and> pt_needsKeyframe p"

definition room_ok :: "string \<Rightarrow> 's room \<Rightarrow> bool" where
  "room_ok rid r \<longleftrightarrow> rm_id r = rid \<and> rm_maxParticipants r = kMaxParticipants \<and> distinct (room_members r) \<and>
     length (room_members r) \<le> kMaxParticipants \<and> (\<forall>(k, p)\<in>set (rm_participants r). member_ok k p)"

definition sfu_ok :: "'s sfu_server \<Rightarrow> bool" where
  "sfu_ok s \<longleftrightarrow> distinct (map fst (sv_rooms s)) \<and>
     (\<forall>(rid, r)\<in>set (sv_rooms s). room_ok rid r \<and> rm_participants r \<noteq> [])"

lemma room_new_ok: "room_ok rid (new_room rid kf kMaxParticipants)"
  by (simp add: room_ok_def new_room_def room_members_def)

lemma room_add_ok [inv_intros]:
  assumes "room_ok rid r" "room_add i sink r = (res, asked, r')"
  shows "room_ok rid r' \<and> (r' = r \<or> rm_participants r' \<noteq> [])"
  using assms
  by (auto simp: room_add_def room_ok_def Let_def room_members_def map_of_None_iff member_ok_def
      setNeedsKeyframe_def new_participant_def split: if_splits)

lemma recompute_ok: "(\<forall>(k, p)\<in>set ps. member_ok k p) \<Longrightarrow> (\<forall>(k, p)\<in>set (recomputeTargetsLocked ps). member_ok k p)"
  by (auto simp: recomputeTargetsLocked_def Let_def member_ok_def setTargetBitrate_def split: prod.splits)

lemma update_members_ok:
  assumes "room_ok rid r" "map_of (rm_participants r) i = Some p" "member_ok i p'"
  shows "room_ok rid (r\<lparr>rm_participants := AList.update i p' (rm_participants r)\<rparr>)"
proof -
  have "map fst (AList.update i p' (rm_participants r)) = map fst (rm_participants r)"
    using assms(2) by (intro keys_update_old) simp
  then have "length (AList.update i p' (rm_participants r)) = length (rm_participants r)"
    by (metis length_map)
  moreover have "member_ok k q" if "(k, q) \<in> set (AList.update i p' (rm_participants r))" for k q
    using update_mem [OF that] assms(1,3) by (auto simp: room_ok_def)
  ultimately show ?thesis using assms(1) \<open>map fst _ = _\<close> by (auto simp: room_ok_def room_members_def)
qed

lemma room_recompute_ok:
  "room_ok rid (r\<lparr>rm_participants := ps\<rparr>) \<Longrightarrow> room_ok rid (r\<lparr>rm_participants := recomputeTargetsLocked ps\<rparr>)"
  using recompute_ok [of ps] by (simp add: room_ok_def room_members_def)

lemma room_remove_ok [inv_intros]:
  assumes "room_ok rid r" "room_remove i r = (st, r')"
  shows "room_ok rid r'"
proof -
  have "member_ok k q" if "(k, q) \<in> set (AList.delete i (rm_participants r))" for k q
    using delete_mem [OF that] assms(1) by (auto simp: room_ok_def)
  moreover have "length (AList.delete i (rm_participants r)) \<le> kMaxParticipants"
    using assms(1) length_delete_le [of i "rm_participants r"] by (simp add: room_ok_def room_members_def)
  moreover have "distinct (map fst (AList.delete i (rm_participants r)))"
    using assms(1) by (simp add: room_ok_def room_members_def distinct_keys_delete)
  ultimately have "room_ok rid (r\<lparr>rm_participants := AList.delete i (rm_participants r)\<rparr>)"
    using assms(1) by (auto simp: room_ok_def room_members_def)
  then show ?thesis using assms by (auto simp: room_remove_def room_recompute_ok split: if_splits)
qed

lemma room_forward_ok [inv_intros]:
  assumes "room_ok rid r" "room_forward i pkt r = (r', ds)"
  shows "room_ok rid r' \<and> map fst (rm_participants r') = map fst (rm_participants r)"
proof -
  have "\<forall>(k, p)\<in>set (fst (forward_loop i pkt (rm_participants r))). member_ok k p"
    using assms(1) by (auto simp: forward_loop_members room_ok_def member_ok_def deliver_def)
  then show ?thesis using assms
    by (auto simp: room_forward_def room_ok_def room_members_def split: if_splits prod.splits)
      (metis fst_conv fst_forward_loop length_map)+
qed

lemma room_onRemb_ok [inv_intros]:
  assumes "room_ok rid r"
  shows "room_ok rid (room_onRemb i bps r) \<and> map fst (rm_participants (room_onRemb i bps r)) = map fst (rm_participants r)"
proof (cases "map_of (rm_participants r) i")
  case (Some p)
  then have "member_ok i (setRembEstimate bps p)"
    using assms by (auto simp: room_ok_def member_ok_def setRembEstimate_def dest: map_of_SomeD)
  then show ?thesis
    using room_recompute_ok [OF update_members_ok [OF assms Some]] Some
    by (simp add: room_onRemb_def keys_update_old)
qed (use assms in \<open>simp add: room_onRemb_def\<close>)

lemma put_room_ok:
  assumes "sfu_ok s" "room_ok rid r" "rm_participants r \<noteq> []"
  shows "sfu_ok (put_room rid r s)"
  using assms update_mem [of _ _ rid r "sv_rooms s"]
  by (fastforce simp: sfu_ok_def put_room_def distinct_update)

lemma findRoom_ok: "sfu_ok s \<Longrightarrow> findRoom rid s = Some r \<Longrightarrow> room_ok rid r \<and> rm_participants r \<noteq> []"
  by (auto simp: sfu_ok_def findRoom_def dest: map_of_SomeD)

lemma add_ok:
  assumes "sfu_ok s" "addParticipant rid i sink s = (res, asked, s')"
  shows "sfu_ok s'"
proof -
  let ?r = "case findRoom rid s of Some r \<Rightarrow> r | None \<Rightarrow> new_room rid (sv_keyframeRequest s) kMaxParticipants"
  have r: "room_ok rid ?r \<and> (findRoom rid s = None \<or> rm_participants ?r \<noteq> [])"
    using findRoom_ok [OF assms(1)] room_new_ok by (auto split: option.splits)
  obtain r' where r': "room_add i sink ?r = (res, asked, r')" "s' = put_room rid r' s"
    using assms(2) by (auto simp: addParticipant_def Let_def split: prod.splits)
  have "rm_participants r' \<noteq> []"
  proof (cases "findRoom rid s")
    case None
    then show ?thesis using r'(1)
      by (auto simp: room_add_def new_room_def kMaxParticipants_def Let_def)
  next
    case (Some q)
    then show ?thesis using r r'(1) room_add_ok [of rid ?r i sink res asked r'] by auto
  qed
  then show ?thesis unfolding r'(2) using room_add_ok [OF conjunct1 [OF r] r'(1)] assms(1)
    by (intro put_room_ok) auto
qed

lemma remove_ok:
  assumes "sfu_ok s" "removeParticipant rid i s = (st, s')"
  shows "sfu_ok s'"
proof (cases "findRoom rid s")
  case None
  then show ?thesis using assms by (simp add: removeParticipant_def)
next
  case (Some r)
  obtain st' r' where r': "room_remove i r = (st', r')" by fastforce
  have ok: "room_ok rid r'" using findRoom_ok [OF assms(1) Some] room_remove_ok r' by blast
  have "sfu_ok (s\<lparr>sv_rooms := AList.delete rid (sv_rooms s)\<rparr>)"
    using assms(1) delete_mem [of _ _ rid "sv_rooms s"] by (fastforce simp: sfu_ok_def distinct_delete)
  moreover have "room_size r' \<noteq> 0 \<Longrightarrow> sfu_ok (put_room rid r' s)"
    using ok assms(1) by (intro put_room_ok) (auto simp: room_size_def)
  ultimately show ?thesis using assms(2) Some r' by (auto simp: removeParticipant_def split: if_splits)
qed

lemma with_member_ok:
  assumes "sfu_ok s" "\<And>p. pt_id (f p) = pt_id p \<and> pt_needsKeyframe (f p) = pt_needsKeyframe p"
  shows "sfu_ok (with_member rid i f s)"
proof (cases "findRoom rid s")
  case None
  then show ?thesis using assms(1) by (simp add: with_member_def)
next
  case (Some r)
  show ?thesis
  proof (cases "room_find i r")
    case None
    then show ?thesis using assms(1) Some by (simp add: with_member_def)
  next
    case (Some p)
    note ok = findRoom_ok [OF assms(1) \<open>findRoom rid s = Some r\<close>]
    have "member_ok i p" using Some ok by (auto simp: room_find_def room_ok_def dest: map_of_SomeD)
    then have "member_ok i (f p)" using assms(2) by (simp add: member_ok_def)
    from update_members_ok [OF _ _ this, of rid r p] ok Some
    have "room_ok rid (r\<lparr>rm_participants := AList.update i (f p) (rm_participants r)\<rparr>)"
      by (simp add: room_find_def)
    then show ?thesis using Some \<open>findRoom rid s = Some r\<close> ok
      by (auto simp: with_member_def intro!: put_room_ok assms(1))
  qed
qed

lemma route_ok:
  assumes "sfu_ok s" "routePacket rid i pkt s = (s', ds)"
  shows "sfu_ok s'"
proof (cases "findRoom rid s")
  case (Some r)
  obtain r' where r': "room_forward i pkt r = (r', ds)" "s' = put_room rid r' s"
    using assms(2) Some by (auto simp: routePacket_def split: prod.splits)
  note fw = room_forward_ok [OF conjunct1 [OF findRoom_ok [OF assms(1) Some]] r'(1)]
  have "rm_participants r' \<noteq> []"
    using findRoom_ok [OF assms(1) Some] arg_cong [OF conjunct2 [OF fw], of length] by auto
  with fw assms(1) show ?thesis unfolding r'(2) by (intro put_room_ok) auto
qed (use assms in \<open>simp add: routePacket_def\<close>)

lemma onRemb_ok:
  assumes "sfu_ok s"
  shows "sfu_ok (sfu_onRemb rid i bps s)"
proof (cases "findRoom rid s")
  case (Some r)
  note ok = findRoom_ok [OF assms Some]
  note rb = room_onRemb_ok [OF conjunct1 [OF ok], of i bps]
  have "rm_participants (room_onRemb i bps r) \<noteq> []"
    using ok arg_cong [OF conjunct2 [OF rb], of length] by auto
  with Some rb assms show ?thesis by (simp add: sfu_onRemb_def put_room_ok)
qed (use assms in \<open>simp add: sfu_onRemb_def\<close>)

lemma sfu_ok_new: "sfu_ok new_sfu_server"
  by (simp add: sfu_ok_def new_sfu_server_def)

lemma callback_ok: "sfu_ok (setKeyframeRequestCallback fn s) = sfu_ok s"
  by (simp add: sfu_ok_def setKeyframeRequestCallback_def)

text \<open>C23. Server invariant: in every state the server can reach by joins, leaves, packets, bitrate
  reports and SSRC registrations, room names are unique, no room is empty, no room has more than
  eight members, members are unique and stored under their own id, and every member still has its
  needs-keyframe flag (nothing ever clears it, although the header says forwarding a keyframe
  does).\<close>

theorem sfu_invariant:
  assumes "sfu_reachable s"
  shows "distinct (map fst (sv_rooms s)) \<and>
    (\<forall>(rid, r)\<in>set (sv_rooms s). rm_id r = rid \<and> 0 < room_size r \<and> room_size r \<le> 8 \<and>
       distinct (room_members r) \<and> (\<forall>(k, p)\<in>set (rm_participants r). pt_id p = k \<and> pt_needsKeyframe p))"
proof -
  from assms have "sfu_ok s"
    by (induction rule: sfu_reachable.induct)
      (auto intro: sfu_ok_new add_ok remove_ok route_ok onRemb_ok with_member_ok
        simp: callback_ok setAudioSsrc_def setVideoSsrc_def)
  then show ?thesis
    by (auto simp: sfu_ok_def room_ok_def room_size_def room_members_def kMaxParticipants_def member_ok_def)
qed

section \<open>Bitrate targets\<close>

text \<open>The reported estimates of everyone but \<open>k\<close>, and the target they impose.\<close>

definition estimates :: "participant_id \<Rightarrow> 's members \<Rightarrow> u32 list" where
  "estimates k ps = map (\<lambda>(j, p). pt_rembEstimate p) (filter (\<lambda>(j, p). j \<noteq> k \<and> pt_rembEstimate p \<noteq> 0) ps)"

definition spec_target :: "participant_id \<Rightarrow> 's members \<Rightarrow> u32" where
  "spec_target k ps = (if estimates k ps = [] then 0 else Min (set (estimates k ps)))"

lemma min_estimate_fold:
  "min_estimate k ps (m, any) = (fold min (estimates k ps) m, any \<or> estimates k ps \<noteq> [])"
  by (induction k ps "(m, any)" arbitrary: m any rule: min_estimate.induct)
    (auto simp: estimates_def min_def intro: arg_cong2 [where f = fold])

lemma fold_min_top: "es \<noteq> [] \<Longrightarrow> fold min es (-1 :: u32) = Min (set es)"
proof -
  assume "es \<noteq> []"
  have "fold min es (-1) = Min (set (-1 # es))" by (simp add: Min.set_eq_fold del: list.set)
  also have "\<dots> = min (-1) (Min (set es))" using \<open>es \<noteq> []\<close> by simp
  finally show ?thesis by (auto simp: min_def intro: antisym)
qed

lemma recompute_map:
  "recomputeTargetsLocked ps = map (\<lambda>(j, p). (j, setTargetBitrate (spec_target j ps) p)) ps"
  by (auto simp: recomputeTargetsLocked_def min_estimate_fold spec_target_def fold_min_top)

lemma recompute_lookup:
  fixes ps :: "'s members"
  shows "map_of (recomputeTargetsLocked ps) k = map_option (setTargetBitrate (spec_target k ps)) (map_of ps k)"
proof -
  have "map_of (map (\<lambda>(j, p). (j, setTargetBitrate (t j) p)) qs) k =
      map_option (setTargetBitrate (t k)) (map_of qs k)" for t and qs :: "'s members"
    by (induction qs) auto
  then show ?thesis by (simp add: recompute_map)
qed

lemma estimates_recompute [simp]:
  fixes ps :: "'s members"
  shows "estimates k (recomputeTargetsLocked ps) = estimates k ps"
proof -
  have "estimates k (map (\<lambda>(j, p). (j, setTargetBitrate (t j) p)) qs) = estimates k qs"
    for t and qs :: "'s members"
    by (induction qs) (auto simp: estimates_def setTargetBitrate_def)
  then show ?thesis by (simp add: recompute_map)
qed

definition targets_current :: "'s room \<Rightarrow> bool" where
  "targets_current r \<longleftrightarrow> (\<forall>k\<in>set (room_members r). room_targetBitrate k r = spec_target k (rm_participants r))"

lemma targets_recompute: "targets_current (r\<lparr>rm_participants := recomputeTargetsLocked ps\<rparr>)"
proof -
  have "spec_target k (recomputeTargetsLocked ps) = spec_target k ps" for k by (simp add: spec_target_def)
  then show ?thesis
    by (auto simp: targets_current_def room_members_def room_targetBitrate_def recompute_lookup
        setTargetBitrate_def split: option.splits dest!: map_of_None_iff [THEN iffD1])
qed

text \<open>C29. Bitrate adaptation: after every report of a member and every departure, each member's
  target is the minimum of the nonzero estimates of the other members, and 0 when none of them has
  reported. A join does not recompute: the old members' targets stay current, but the newcomer's
  target is 0 even when the others have reported estimates that should bound it.\<close>

theorem target_is_slowest_receiver:
  "(i \<in> set (room_members r) \<longrightarrow> targets_current (room_onRemb i bps r)) \<and>
   (i \<in> set (room_members r) \<longrightarrow> targets_current (snd (room_remove i r))) \<and>
   (room_add i sink r = (Inr p, asked, r') \<longrightarrow>
      (\<forall>k\<in>set (room_members r). room_targetBitrate k r' = room_targetBitrate k r \<and>
         spec_target k (rm_participants r') = spec_target k (rm_participants r)) \<and>
      room_targetBitrate i r' = 0 \<and>
      spec_target i (rm_participants r') = (if estimates i (rm_participants r) = [] then 0
         else Min (set (estimates i (rm_participants r)))))"
proof (intro conjI impI)
  assume m: "i \<in> set (room_members r)"
  then obtain q where q: "map_of (rm_participants r) i = Some q"
    by (cases "map_of (rm_participants r) i") (auto simp: room_members_def map_of_None_iff)
  then show "targets_current (room_onRemb i bps r)" by (simp add: room_onRemb_def targets_recompute)
  show "targets_current (snd (room_remove i r))" using q by (simp add: room_remove_def targets_recompute)
next
  assume a: "room_add i sink r = (Inr p, asked, r')"
  then have i: "map_of (rm_participants r) i = None"
    and r': "rm_participants r' = rm_participants r @ [(i, p)]" and p: "p = setNeedsKeyframe True (new_participant i sink)"
    by (auto simp: room_add_def Let_def fail_def split: if_splits)
  have e: "estimates k (rm_participants r') = estimates k (rm_participants r)" for k
    by (simp add: estimates_def r' p setNeedsKeyframe_def new_participant_def)
  show "room_targetBitrate i r' = 0"
    using i by (simp add: room_targetBitrate_def r' map_add_def p setNeedsKeyframe_def new_participant_def)
  show "spec_target i (rm_participants r') = (if estimates i (rm_participants r) = [] then 0
         else Min (set (estimates i (rm_participants r))))" by (simp add: spec_target_def e)
  show "\<forall>k\<in>set (room_members r). room_targetBitrate k r' = room_targetBitrate k r \<and>
         spec_target k (rm_participants r') = spec_target k (rm_participants r)"
    using i by (auto simp: room_targetBitrate_def r' map_add_def spec_target_def e [unfolded r'] room_members_def
        map_of_None_iff split: option.splits)
qed

section \<open>Isolation of rooms and keyframes on join\<close>

lemma find_put [simp]: "findRoom rid (put_room rid' r s) = (if rid = rid' then Some r else findRoom rid s)"
  by (simp add: findRoom_def put_room_def alist_simps)

text \<open>Room isolation: joins, leaves, packets and bitrate reports of one room leave every other
  room exactly as it was, and a packet is delivered only to sinks of other members of the sender's
  own room.\<close>

theorem rooms_isolated:
  assumes "rid' \<noteq> rid"
  shows "findRoom rid' (snd (snd (addParticipant rid i sink s))) = findRoom rid' s \<and>
    findRoom rid' (snd (removeParticipant rid i s)) = findRoom rid' s \<and>
    findRoom rid' (fst (routePacket rid i pkt s)) = findRoom rid' s \<and>
    findRoom rid' (sfu_onRemb rid i bps s) = findRoom rid' s \<and>
    (\<forall>(t, q)\<in>set (snd (routePacket rid i pkt s)). q = pkt \<and>
       (\<exists>r k p. findRoom rid s = Some r \<and> (k, p) \<in> set (rm_participants r) \<and> k \<noteq> i \<and> pt_sink p = Some t))"
proof (intro conjI)
  show "findRoom rid' (snd (snd (addParticipant rid i sink s))) = findRoom rid' s"
    using assms by (simp add: addParticipant_def Let_def split_beta)
  show "findRoom rid' (snd (removeParticipant rid i s)) = findRoom rid' s"
    using assms by (auto simp: removeParticipant_def Let_def split_beta split: option.splits)
      (simp add: findRoom_def alist_simps)
  show "findRoom rid' (fst (routePacket rid i pkt s)) = findRoom rid' s"
    using assms by (simp add: routePacket_def split_beta split: option.splits)
  show "findRoom rid' (sfu_onRemb rid i bps s) = findRoom rid' s"
    using assms by (simp add: sfu_onRemb_def split: option.splits)
  show "\<forall>(t, q)\<in>set (snd (routePacket rid i pkt s)). q = pkt \<and>
       (\<exists>r k p. findRoom rid s = Some r \<and> (k, p) \<in> set (rm_participants r) \<and> k \<noteq> i \<and> pt_sink p = Some t)"
    by (auto simp: routePacket_def room_forward_def forward_loop_deliveries split_beta
        split: option.splits if_splits) (metis)
qed

text \<open>Keyframe on join: a successful join asks exactly the members that send video, each once,
  when a callback is set (and nobody otherwise), flags the newcomer, and leaves the others
  untouched; a refused join (a duplicate id or a full room) asks nobody and changes nothing.\<close>

theorem join_requests_keyframes:
  "case room_add i sink r of
     (Inr p, asked, r') \<Rightarrow> pt_needsKeyframe p \<and> room_find i r' = Some p \<and>
        (\<forall>k. k \<noteq> i \<longrightarrow> room_find k r' = room_find k r) \<and>
        asked = (if rm_keyframeRequest r then map fst (filter (\<lambda>(k, q). hasVideo q) (rm_participants r)) else [])
   | (Inl e, asked, r') \<Rightarrow> asked = [] \<and> r' = r \<and>
        e = (if i \<in> set (room_members r) then InvalidArgument else ResourceExhausted) \<and>
        (i \<in> set (room_members r) \<or> rm_maxParticipants r \<le> room_size r)"
proof -
  have m: "k \<in> set (room_members r) \<longleftrightarrow> map_of (rm_participants r) k \<noteq> None" for k
    by (simp add: room_members_def map_of_None_iff)
  show ?thesis
    by (auto simp: room_add_def Let_def room_find_def m room_size_def map_add_def fail_def
        setNeedsKeyframe_def new_participant_def split: option.splits)
qed

section \<open>Concrete runs\<close>

definition demo_room :: "nat room" where
  "demo_room = (new_room ''r'' True 8)\<lparr>rm_participants :=
     [(''a'', setVideoSsrc 7 (new_participant ''a'' (Some 1))),
      (''b'', setRembEstimate 500 (new_participant ''b'' (Some 2))),
      (''c'', setRembEstimate 300 (new_participant ''c'' None))]\<rparr>"

lemma forward_exactly_others_witness:
  "mset (snd (room_forward ''a'' sample_packet demo_room)) = {#(2, sample_packet)#}"
proof -
  have "distinct (room_members demo_room)" by (simp add: room_members_def demo_room_def)
  from forward_exactly_others [OF this, of "''a''" sample_packet "fst (room_forward ''a'' sample_packet demo_room)"
      "snd (room_forward ''a'' sample_packet demo_room)"]
  show ?thesis by (simp add: room_members_def demo_room_def setVideoSsrc_def setRembEstimate_def new_participant_def)
qed

definition demo_server :: "nat sfu_server" where
  "demo_server = snd (snd (addParticipant ''r'' ''b'' (Some 2)
     (snd (snd (addParticipant ''r'' ''a'' (Some 1) new_sfu_server)))))"

lemma reach_add: "sfu_reachable s \<Longrightarrow> sfu_reachable (snd (snd (addParticipant rid i sink s)))"
  using sfu_reachable.add by (metis prod.collapse)

lemma demo_rooms: "sv_rooms demo_server = [(''r'', (new_room ''r'' False 8)\<lparr>rm_participants :=
     [(''a'', setNeedsKeyframe True (new_participant ''a'' (Some 1))),
      (''b'', setNeedsKeyframe True (new_participant ''b'' (Some 2)))]\<rparr>)]"
  by (simp add: demo_server_def addParticipant_def new_sfu_server_def findRoom_def room_add_def new_room_def
      kMaxParticipants_def put_room_def Let_def)

lemma sfu_invariant_witness:
  "map fst (sv_rooms demo_server) = [''r''] \<and> distinct (map fst (sv_rooms demo_server)) \<and>
   room_size (snd (hd (sv_rooms demo_server))) \<le> 8"
proof -
  have "sfu_reachable demo_server"
    unfolding demo_server_def by (intro reach_add sfu_reachable.start)
  from sfu_invariant [OF this] show ?thesis by (simp add: demo_rooms)
qed

lemma target_is_slowest_receiver_witness:
  "room_targetBitrate ''a'' (room_onRemb ''c'' 200 demo_room) = 200 \<and> ''c'' \<in> set (room_members demo_room)"
proof -
  have c: "''c'' \<in> set (room_members demo_room)" by (simp add: room_members_def demo_room_def)
  with target_is_slowest_receiver [of "''c''" demo_room 200 None]
  have "targets_current (room_onRemb ''c'' 200 demo_room)" by blast
  moreover have "room_members (room_onRemb ''c'' 200 demo_room) = [''a'', ''b'', ''c'']"
    by (simp add: room_members_def demo_room_def room_onRemb_def)
  ultimately have "room_targetBitrate ''a'' (room_onRemb ''c'' 200 demo_room) =
      spec_target ''a'' (rm_participants (room_onRemb ''c'' 200 demo_room))"
    by (simp add: targets_current_def)
  also have "\<dots> = 200"
    by (simp add: spec_target_def demo_room_def room_onRemb_def estimates_def[of _ "_ # _"] setRembEstimate_def
        new_participant_def setVideoSsrc_def min_def)
  finally show ?thesis using c by simp
qed

lemma rooms_isolated_witness:
  "findRoom ''r'' (fst (routePacket ''q'' ''a'' sample_packet demo_server)) = findRoom ''r'' demo_server"
  using rooms_isolated [of "''r''" "''q''" "''a''" None demo_server sample_packet 0] by simp

lemma join_requests_keyframes_witness:
  "fst (snd (room_add ''d'' (Some 4) demo_room)) = [''a'']"
proof -
  have "fst (room_add ''d'' (Some 4) demo_room) =
      Inr (setNeedsKeyframe True (new_participant ''d'' (Some 4)))"
    by (simp add: room_add_def demo_room_def new_room_def Let_def)
  with join_requests_keyframes [where i = "''d''" and sink = "Some 4" and r = demo_room] show ?thesis
    by (auto simp: demo_room_def new_room_def hasVideo_def setVideoSsrc_def setRembEstimate_def new_participant_def
        split: prod.splits)
qed

end
