(* ===== verification/Sfu_Threads.thy ===== *)
theory Sfu_Threads
  imports Sfu
begin

text \<open>
  The forwarding unit under several threads (src/src/sfu/SFUServer.cpp, Room.cpp), at the granularity of its
  locks. \<open>Sfu\<close> runs each call as one step; in the code a call finds its room under the registry
  lock, releases it, and only then takes the lock of the room. Here the rooms have addresses, the two halves of a
  call are two steps, any steps of other calls may come between them, and a step through the address of a
  room that was destroyed is undefined (\<open>None\<close>).
\<close>

section \<open>Calls and their steps\<close>

datatype 's sfu_call = Add_Call string participant_id "'s option" | Route_Call string participant_id rtp_packet
  | Remb_Call string participant_id u32

text \<open>A call between its steps; \<open>Asking\<close> is an addition that has left the lock of the room and has yet to
  ask the senders for keyframes.\<close>

datatype 's task = Doing "'s sfu_call" | Asking string "participant_id list"

datatype 's thread_event = Added "'s participant result" | Asked "participant_id list" | Sent "('s \<times> rtp_packet) list"
  | Removed status | Estimated

record 's sfu_threads =
  th_keyframeRequest :: bool
  th_rooms :: "(string \<times> nat) list"
  th_heap :: "(nat \<times> 's room) list"
  th_next :: nat
  th_tasks :: "('s task \<times> nat) list"

definition new_sfu_threads :: "bool \<Rightarrow> 's sfu_threads" where
  "new_sfu_threads kf = \<lparr>th_keyframeRequest = kf, th_rooms = [], th_heap = [], th_next = 0, th_tasks = []\<rparr>"

fun call_room :: "'s sfu_call \<Rightarrow> string" where
  "call_room (Add_Call rid i sink) = rid"
| "call_room (Route_Call rid i pkt) = rid"
| "call_room (Remb_Call rid i bps) = rid"

fun creates :: "'s sfu_call \<Rightarrow> bool" where
  "creates (Add_Call rid i sink) = True"
| "creates _ = False"

text \<open>The first half, under the lock of the registry.\<close>

definition begin_call :: "'s sfu_call \<Rightarrow> 's sfu_threads \<Rightarrow> 's sfu_threads" where
  "begin_call c s =
    (case map_of (th_rooms s) (call_room c) of
       Some a \<Rightarrow> s\<lparr>th_tasks := th_tasks s @ [(Doing c, a)]\<rparr>
     | None \<Rightarrow>
         if creates c then
           s\<lparr>th_rooms := AList.update (call_room c) (th_next s) (th_rooms s),
             th_heap := AList.update (th_next s) (new_room (call_room c) (th_keyframeRequest s) kMaxParticipants) (th_heap s),
             th_next := th_next s + 1, th_tasks := th_tasks s @ [(Doing c, th_next s)]\<rparr>
         else s)"

definition video_senders :: "'s room \<Rightarrow> participant_id list" where
  "video_senders r = map fst (filter (\<lambda>(k, p). hasVideo p) (rm_participants r))"

text \<open>The second half, under the lock of the room, whose address was copied before; for an addition the
  callbacks are a third step, which reads \<^verbatim>\<open>keyframeRequest_\<close> through the same address.\<close>

fun room_half :: "'s task \<Rightarrow> 's room \<Rightarrow> 's thread_event \<times> 's task option \<times> 's room" where
  "room_half (Doing (Add_Call rid i sink)) r =
    (let (res, asked, r') = room_add i sink r
     in (Added res, if has_value res then Some (Asking rid (video_senders r)) else None, r'))"
| "room_half (Asking rid ids) r = (Asked (if rm_keyframeRequest r then ids else []), None, r)"
| "room_half (Doing (Route_Call rid i pkt)) r = (let (r', ds) = room_forward i pkt r in (Sent ds, None, r'))"
| "room_half (Doing (Remb_Call rid i bps)) r = (Estimated, None, room_onRemb i bps r)"

definition continue_task :: "nat \<Rightarrow> 's sfu_threads \<Rightarrow> ('s thread_event list \<times> 's sfu_threads) option" where
  "continue_task j s =
    (if j < length (th_tasks s) then
       let (k, a) = th_tasks s ! j in
       (case map_of (th_heap s) a of
          None \<Rightarrow> None
        | Some r \<Rightarrow>
            let (e, k', r') = room_half k r in
            Some ([e], s\<lparr>th_heap := AList.update a r' (th_heap s),
              th_tasks := take j (th_tasks s) @ (case k' of None \<Rightarrow> [] | Some t \<Rightarrow> [(t, a)]) @ drop (Suc j) (th_tasks s)\<rparr>))
     else Some ([], s))"

text \<open>\<^verbatim>\<open>removeParticipant\<close> holds the lock of the registry to its end.\<close>

definition remove_call :: "string \<Rightarrow> participant_id \<Rightarrow> 's sfu_threads \<Rightarrow> ('s thread_event list \<times> 's sfu_threads) option" where
  "remove_call rid i s =
    (case map_of (th_rooms s) rid of
       None \<Rightarrow> Some ([Removed (fail NotFound)], s)
     | Some a \<Rightarrow> (case map_of (th_heap s) a of
         None \<Rightarrow> None
       | Some r \<Rightarrow>
           let (st, r') = room_remove i r in
           Some ([Removed st],
             if room_size r' = 0 then s\<lparr>th_rooms := AList.delete rid (th_rooms s), th_heap := AList.delete a (th_heap s)\<rparr>
             else s\<lparr>th_heap := AList.update a r' (th_heap s)\<rparr>)))"

datatype 's thread_op = Begin "'s sfu_call" | Continue nat | Remove string participant_id

fun thread_step :: "'s thread_op \<Rightarrow> 's sfu_threads \<Rightarrow> ('s thread_event list \<times> 's sfu_threads) option" where
  "thread_step (Begin c) s = Some ([], begin_call c s)"
| "thread_step (Continue j) s = continue_task j s"
| "thread_step (Remove rid i) s = remove_call rid i s"

fun thread_run :: "'s thread_op list \<Rightarrow> 's sfu_threads \<Rightarrow> ('s thread_event list \<times> 's sfu_threads) option" where
  "thread_run [] s = Some ([], s)"
| "thread_run (p # ps) s = (case thread_step p s of None \<Rightarrow> None
     | Some (es, s') \<Rightarrow> (case thread_run ps s' of None \<Rightarrow> None | Some (es', t) \<Rightarrow> Some (es @ es', t)))"

section \<open>The race\<close>

definition demo_add :: "unit thread_op list" where
  "demo_add = [Begin (Add_Call ''r'' ''1'' (Some ())), Continue 0, Continue 0]"


section \<open>Without the race\<close>

text \<open>A removal is safe if the room stays or no call holds its address.\<close>

fun safe_step :: "'s thread_op \<Rightarrow> 's sfu_threads \<Rightarrow> bool" where
  "safe_step (Remove rid i) s = (case map_of (th_rooms s) rid of None \<Rightarrow> True
     | Some a \<Rightarrow> a \<notin> snd ` set (th_tasks s) \<or>
        (case map_of (th_heap s) a of None \<Rightarrow> False | Some r \<Rightarrow> room_size (snd (room_remove i r)) \<noteq> 0))"
| "safe_step _ s = True"

fun safe_run :: "'s thread_op list \<Rightarrow> 's sfu_threads \<Rightarrow> bool" where
  "safe_run [] s = True"
| "safe_run (p # ps) s = (safe_step p s \<and> (case thread_step p s of None \<Rightarrow> True | Some (es, s') \<Rightarrow> safe_run ps s'))"

text \<open>The whole call at once, on the server of \<open>Sfu\<close>.\<close>

datatype 's whole_call = Whole "'s sfu_call" | Whole_Remove string participant_id

fun whole_step :: "'s whole_call \<Rightarrow> 's sfu_server \<Rightarrow> 's thread_event \<times> 's sfu_server" where
  "whole_step (Whole (Add_Call rid i sink)) t = (let (res, asked, t') = addParticipant rid i sink t in (Added res, t'))"
| "whole_step (Whole (Route_Call rid i pkt)) t = (let (t', ds) = routePacket rid i pkt t in (Sent ds, t'))"
| "whole_step (Whole (Remb_Call rid i bps)) t = (Estimated, sfu_onRemb rid i bps t)"
| "whole_step (Whole_Remove rid i) t = (let (st, t') = removeParticipant rid i t in (Removed st, t'))"

fun whole_run :: "'s whole_call list \<Rightarrow> 's sfu_server \<Rightarrow> 's thread_event list \<times> 's sfu_server" where
  "whole_run [] t = ([], t)"
| "whole_run (c # cs) t = (let (e, t) = whole_step c t; (es, t) = whole_run cs t in (e # es, t))"

text \<open>Each call takes effect at its step under the lock of the room.\<close>

fun takes_effect :: "'s thread_op \<Rightarrow> 's sfu_threads \<Rightarrow> 's whole_call list" where
  "takes_effect (Begin c) s = []"
| "takes_effect (Continue j) s = (if j < length (th_tasks s)
     then (case fst (th_tasks s ! j) of Doing c \<Rightarrow> [Whole c] | Asking rid ids \<Rightarrow> []) else [])"
| "takes_effect (Remove rid i) s = [Whole_Remove rid i]"

fun effects :: "'s thread_op list \<Rightarrow> 's sfu_threads \<Rightarrow> 's whole_call list" where
  "effects [] s = []"
| "effects (p # ps) s = takes_effect p s @ (case thread_step p s of None \<Rightarrow> [] | Some (es, s') \<Rightarrow> effects ps s')"

definition is_result :: "'s thread_event \<Rightarrow> bool" where
  "is_result e \<longleftrightarrow> (case e of Asked ids \<Rightarrow> False | _ \<Rightarrow> True)"

text \<open>The rooms one can see from outside: those with a member.\<close>

definition visible_room :: "string \<Rightarrow> 's sfu_threads \<Rightarrow> 's room option" where
  "visible_room rid s = (case map_of (th_rooms s) rid of None \<Rightarrow> None
     | Some a \<Rightarrow> (case map_of (th_heap s) a of None \<Rightarrow> None
        | Some r \<Rightarrow> if rm_participants r = [] then None else Some r))"

fun task_room :: "'s task \<Rightarrow> string" where
  "task_room (Doing c) = call_room c"
| "task_room (Asking rid ids) = rid"

definition threads_ok :: "'s sfu_threads \<Rightarrow> bool" where
  "threads_ok s \<longleftrightarrow>
     (\<forall>rid a. map_of (th_rooms s) rid = Some a \<longrightarrow> a < th_next s \<and>
        (\<exists>r. map_of (th_heap s) a = Some r \<and>
          (rm_participants r = [] \<longrightarrow> r = new_room rid (th_keyframeRequest s) kMaxParticipants))) \<and>
     (\<forall>rid rid' a. map_of (th_rooms s) rid = Some a \<longrightarrow> map_of (th_rooms s) rid' = Some a \<longrightarrow> rid = rid') \<and>
     (\<forall>(k, a)\<in>set (th_tasks s). map_of (th_rooms s) (task_room k) = Some a)"

definition simulates :: "'s sfu_threads \<Rightarrow> 's sfu_server \<Rightarrow> bool" where
  "simulates s t \<longleftrightarrow> sv_keyframeRequest t = th_keyframeRequest s \<and> (\<forall>rid. visible_room rid s = findRoom rid t)"

lemma forward_loop_empty: "forward_loop i pkt ps = (qs, ds) \<Longrightarrow> qs = [] \<longleftrightarrow> ps = []"
  by (metis fst_conv fst_forward_loop map_is_Nil_conv)

lemma room_half_keeps:
  assumes "room_half k r = (e, k', r')" "rm_participants r = [] \<longrightarrow> r = new_room rid kf kMaxParticipants"
  shows "(rm_participants r' = [] \<longrightarrow> r' = new_room rid kf kMaxParticipants) \<and> (\<forall>t. k' = Some t \<longrightarrow> task_room t = task_room k)"
  using assms
  by (cases "(k, r)" rule: room_half.cases)
    (auto simp: room_add_def room_forward_def room_onRemb_def new_room_def recomputeTargetsLocked_def Let_def kMaxParticipants_def fail_def
      split: prod.splits if_splits option.splits dest!: forward_loop_empty)

text \<open>The invariant on the lookups.\<close>

definition room_stands :: "bool \<Rightarrow> nat \<Rightarrow> (nat \<Rightarrow> 's room option) \<Rightarrow> string \<Rightarrow> nat \<Rightarrow> bool" where
  "room_stands kf n H rid a \<longleftrightarrow> a < n \<and> (\<exists>r. H a = Some r \<and> (rm_participants r = [] \<longrightarrow> r = new_room rid kf kMaxParticipants))"

lemma threads_okI:
  assumes "\<And>rid a. map_of (th_rooms s) rid = Some a \<Longrightarrow> room_stands (th_keyframeRequest s) (th_next s) (map_of (th_heap s)) rid a"
    "\<And>rid rid' a. map_of (th_rooms s) rid = Some a \<Longrightarrow> map_of (th_rooms s) rid' = Some a \<Longrightarrow> rid = rid'"
    "\<And>k a. (k, a) \<in> set (th_tasks s) \<Longrightarrow> map_of (th_rooms s) (task_room k) = Some a"
  shows "threads_ok s"
  using assms by (auto simp: threads_ok_def room_stands_def)

lemma threads_okD:
  assumes "threads_ok s"
  shows "map_of (th_rooms s) rid = Some a \<Longrightarrow> room_stands (th_keyframeRequest s) (th_next s) (map_of (th_heap s)) rid a"
    "map_of (th_rooms s) rid = Some a \<Longrightarrow> map_of (th_rooms s) rid' = Some a \<Longrightarrow> rid = rid'"
    "(k, a) \<in> set (th_tasks s) \<Longrightarrow> map_of (th_rooms s) (task_room k) = Some a"
  using assms by (auto simp: threads_ok_def room_stands_def)

lemma begin_call_ok:
  assumes "threads_ok s" shows "threads_ok (begin_call c s)"
proof (cases "map_of (th_rooms s) (call_room c)")
  case (Some a)
  then show ?thesis using threads_okD [OF assms] by (intro threads_okI) (auto simp: begin_call_def)
next
  case None
  show ?thesis
  proof (cases "creates c")
    case True
    note d = threads_okD [OF assms]
    have fresh: "map_of (th_rooms s) rid \<noteq> Some (th_next s)" for rid using d(1) by (auto simp: room_stands_def)
    show ?thesis
    proof (rule threads_okI)
      fix rid a assume "map_of (th_rooms (begin_call c s)) rid = Some a"
      then show "room_stands (th_keyframeRequest (begin_call c s)) (th_next (begin_call c s)) (map_of (th_heap (begin_call c s))) rid a"
        using d(1) [of rid a] None True fresh [of rid] by (auto simp: begin_call_def room_stands_def alist_simps new_room_def split: if_splits)
    next
      fix rid rid' a assume "map_of (th_rooms (begin_call c s)) rid = Some a" "map_of (th_rooms (begin_call c s)) rid' = Some a"
      then show "rid = rid'" using d(2) [of rid a rid'] None True fresh by (auto simp: begin_call_def alist_simps split: if_splits)
    next
      fix k a assume "(k, a) \<in> set (th_tasks (begin_call c s))"
      then show "map_of (th_rooms (begin_call c s)) (task_room k) = Some a"
        using d(3) [of k a] None True by (auto simp: begin_call_def alist_simps)
    qed
  qed (use None assms in \<open>simp add: begin_call_def\<close>)
qed

lemma begin_call_visible:
  assumes "threads_ok s" shows "visible_room rid (begin_call c s) = visible_room rid s"
proof -
  have "map_of (th_rooms s) rid \<noteq> Some (th_next s)" using threads_okD(1) [OF assms, of rid "th_next s"] by (auto simp: room_stands_def)
  then show ?thesis
    by (auto simp: visible_room_def begin_call_def alist_simps new_room_def split: option.splits)
qed

text \<open>A call writes the room back that it found at its address.\<close>

lemma write_back_ok:
  assumes "threads_ok s" "map_of (th_rooms s) rid = Some a" "rm_participants r' = [] \<longrightarrow> r' = new_room rid (th_keyframeRequest s) kMaxParticipants"
    "\<And>k b. (k, b) \<in> set ts \<Longrightarrow> map_of (th_rooms s) (task_room k) = Some b"
  shows "threads_ok (s\<lparr>th_heap := AList.update a r' (th_heap s), th_tasks := ts\<rparr>)"
proof (rule threads_okI)
  fix rid' b assume r: "map_of (th_rooms (s\<lparr>th_heap := AList.update a r' (th_heap s), th_tasks := ts\<rparr>)) rid' = Some b"
  then have "b = a \<Longrightarrow> rid' = rid" using threads_okD(2) [OF assms(1) _ assms(2)] by simp
  then show "room_stands (th_keyframeRequest (s\<lparr>th_heap := AList.update a r' (th_heap s), th_tasks := ts\<rparr>))
      (th_next (s\<lparr>th_heap := AList.update a r' (th_heap s), th_tasks := ts\<rparr>))
      (map_of (th_heap (s\<lparr>th_heap := AList.update a r' (th_heap s), th_tasks := ts\<rparr>))) rid' b"
    using threads_okD(1) [OF assms(1)] r assms(3) by (auto simp: room_stands_def alist_simps)
next
  fix rid1 rid2 b
  assume "map_of (th_rooms (s\<lparr>th_heap := AList.update a r' (th_heap s), th_tasks := ts\<rparr>)) rid1 = Some b"
    "map_of (th_rooms (s\<lparr>th_heap := AList.update a r' (th_heap s), th_tasks := ts\<rparr>)) rid2 = Some b"
  then show "rid1 = rid2" using threads_okD(2) [OF assms(1)] by simp
qed (use assms(4) in simp)

lemma write_back_visible:
  assumes "threads_ok s" "map_of (th_rooms s) rid = Some a"
  shows "visible_room rid' (s\<lparr>th_heap := AList.update a r' (th_heap s), th_tasks := ts\<rparr>) =
    (if rid' = rid then if rm_participants r' = [] then None else Some r' else visible_room rid' s)"
proof (cases "rid' = rid")
  case True
  then show ?thesis using assms(2) by (simp add: visible_room_def map_of_update_Some)
next
  case False
  then have "map_of (th_rooms s) rid' \<noteq> Some a" using threads_okD(2) [OF assms(1) _ assms(2), of rid'] by blast
  then show ?thesis using False by (simp add: visible_room_def map_of_update_Some split: option.splits)
qed


definition room_seen :: "'s room \<Rightarrow> 's room option" where
  "room_seen r = (if rm_participants r = [] then None else Some r)"

lemma findRoom_put [simp]: "findRoom rid' (put_room rid r t) = (if rid' = rid then Some r else findRoom rid' t)"
  by (simp add: findRoom_def put_room_def map_of_update_Some)

lemma room_add_nonempty:
  assumes "room_add i sink r = (res, asked, r')" "rm_participants r = [] \<longrightarrow> r = new_room rid kf kMaxParticipants"
  shows "rm_participants r' \<noteq> []"
  using assms by (cases "rm_participants r = []") (auto simp: room_add_def new_room_def kMaxParticipants_def Let_def split: if_splits)

lemma whole_is_half:
  assumes "room_half (Doing c) r = (e, k', r')" "findRoom (call_room c) t = room_seen r"
    "rm_participants r = [] \<longrightarrow> r = new_room (call_room c) (sv_keyframeRequest t) kMaxParticipants"
  shows "\<exists>t'. whole_step (Whole c) t = (e, t') \<and> sv_keyframeRequest t' = sv_keyframeRequest t \<and>
    (\<forall>rid. findRoom rid t' = (if rid = call_room c then room_seen r' else findRoom rid t))"
proof (cases c)
  case (Add_Call rid i sink)
  obtain res asked where add: "room_add i sink r = (res, asked, r')" "e = Added res"
    using assms(1) Add_Call by (auto simp: Let_def split: prod.splits)
  have "(case findRoom rid t of Some r \<Rightarrow> r | None \<Rightarrow> new_room rid (sv_keyframeRequest t) kMaxParticipants) = r"
    using assms(2,3) Add_Call by (auto simp: room_seen_def)
  then have "whole_step (Whole c) t = (e, put_room rid r' t)"
    using add Add_Call by (simp add: addParticipant_def Let_def)
  moreover have "room_seen r' = Some r'" using room_add_nonempty [OF add(1) assms(3)] by (simp add: room_seen_def)
  ultimately show ?thesis using Add_Call by (simp add: put_room_def [of rid r' t] findRoom_def map_of_update_Some)
next
  case (Route_Call rid i pkt)
  obtain ds where fwd: "room_forward i pkt r = (r', ds)" "e = Sent ds"
    using assms(1) Route_Call by (auto split: prod.splits)
  show ?thesis
  proof (cases "rm_participants r = []")
    case True
    then have "r' = r" "ds = []" using fwd by (simp_all add: room_forward_def)
    then show ?thesis using True fwd assms(2) Route_Call by (auto simp: routePacket_def room_seen_def)
  next
    case False
    then have "rm_participants r' \<noteq> []" using fwd(1) forward_loop_empty by (fastforce simp: room_forward_def split: if_splits prod.splits)
    then show ?thesis using False fwd assms(2) Route_Call by (auto simp: routePacket_def room_seen_def put_room_def findRoom_def map_of_update_Some)
  qed
next
  case (Remb_Call rid i bps)
  then have r': "r' = room_onRemb i bps r" "e = Estimated" using assms(1) by auto
  show ?thesis
  proof (cases "rm_participants r = []")
    case True
    then have "r' = r" using r' by (simp add: room_onRemb_def)
    then show ?thesis using True r' assms(2) Remb_Call by (auto simp: sfu_onRemb_def room_seen_def)
  next
    case False
    then have "rm_participants r' \<noteq> []" using r'(1) by (auto simp: room_onRemb_def recomputeTargetsLocked_def split: option.splits)
    then show ?thesis using False r' assms(2) Remb_Call by (auto simp: sfu_onRemb_def room_seen_def put_room_def findRoom_def map_of_update_Some)
  qed
qed

lemma visible_at: "map_of (th_rooms s) rid = Some a \<Longrightarrow> map_of (th_heap s) a = Some r \<Longrightarrow> visible_room rid s = room_seen r"
  by (simp add: visible_room_def room_seen_def)

lemma continue_simulates:
  assumes "threads_ok s" "simulates s t"
  shows "\<exists>es s'. continue_task j s = Some (es, s') \<and> threads_ok s' \<and>
    filter is_result es = fst (whole_run (takes_effect (Continue j) s) t) \<and> simulates s' (snd (whole_run (takes_effect (Continue j) s) t))"
proof (cases "j < length (th_tasks s)")
  case False
  then show ?thesis using assms by (simp add: continue_task_def)
next
  case True
  obtain k a where at: "th_tasks s ! j = (k, a)" by force
  then have mem: "(k, a) \<in> set (th_tasks s)" using nth_mem [OF True] by simp
  note rid = threads_okD(3) [OF assms(1) mem]
  obtain r where r: "map_of (th_heap s) a = Some r" "rm_participants r = [] \<longrightarrow> r = new_room (task_room k) (th_keyframeRequest s) kMaxParticipants"
    using threads_okD(1) [OF assms(1) rid] by (auto simp: room_stands_def)
  obtain e k' r' where half: "room_half k r = (e, k', r')" by (cases "room_half k r") auto
  let ?ts = "take j (th_tasks s) @ (case k' of None \<Rightarrow> [] | Some x \<Rightarrow> [(x, a)]) @ drop (Suc j) (th_tasks s)"
  let ?s' = "s\<lparr>th_heap := AList.update a r' (th_heap s), th_tasks := ?ts\<rparr>"
  have step: "continue_task j s = Some ([e], ?s')" using True at r(1) half by (simp add: continue_task_def)
  note keeps = room_half_keeps [OF half r(2)]
  have tasks: "map_of (th_rooms s) (task_room x) = Some b" if "(x, b) \<in> set ?ts" for x b
    using that keeps rid threads_okD(3) [OF assms(1)] by (auto split: option.splits dest: in_set_takeD in_set_dropD)
  have ok: "threads_ok ?s'" using write_back_ok [OF assms(1) rid _ tasks] keeps by blast
  have vis: "visible_room x ?s' = (if x = task_room k then room_seen r' else visible_room x s)" for x
    using write_back_visible [OF assms(1) rid] by (simp add: room_seen_def)
  show ?thesis
  proof (cases k)
    case (Doing c)
    have "findRoom (call_room c) t = room_seen r"
      using assms(2) visible_at [OF rid r(1)] Doing by (simp add: simulates_def)
    moreover have "rm_participants r = [] \<longrightarrow> r = new_room (call_room c) (sv_keyframeRequest t) kMaxParticipants"
      using r(2) assms(2) Doing by (simp add: simulates_def)
    ultimately obtain t' where t': "whole_step (Whole c) t = (e, t')" "sv_keyframeRequest t' = sv_keyframeRequest t"
      "\<And>x. findRoom x t' = (if x = call_room c then room_seen r' else findRoom x t)"
      using whole_is_half [OF half [unfolded Doing]] by blast
    have "simulates ?s' t'" using assms(2) vis t'(2,3) Doing by (simp add: simulates_def)
    moreover have "is_result e"
      using half Doing by (cases c) (auto simp: is_result_def Let_def split: prod.splits)
    ultimately show ?thesis using step ok t'(1) True at Doing by (auto simp: Let_def)
  next
    case (Asking x ids)
    then have "r' = r" "\<not> is_result e" using half by (auto simp: is_result_def)
    then have "simulates ?s' t" using assms(2) vis visible_at [OF rid r(1)] by (simp add: simulates_def)
    then show ?thesis using step ok True at Asking \<open>\<not> is_result e\<close> by auto
  qed
qed

lemma erase_ok:
  assumes "threads_ok s" "map_of (th_rooms s) rid = Some a" "a \<notin> snd ` set (th_tasks s)"
  shows "threads_ok (s\<lparr>th_rooms := AList.delete rid (th_rooms s), th_heap := AList.delete a (th_heap s)\<rparr>)"
    "visible_room x (s\<lparr>th_rooms := AList.delete rid (th_rooms s), th_heap := AList.delete a (th_heap s)\<rparr>) =
      (if x = rid then None else visible_room x s)"
proof -
  note d = threads_okD [OF assms(1)]
  have other: "b \<noteq> a" if "map_of (th_rooms s) y = Some b" "y \<noteq> rid" for y b using that d(2) [OF _ assms(2), of y] by blast
  show "threads_ok (s\<lparr>th_rooms := AList.delete rid (th_rooms s), th_heap := AList.delete a (th_heap s)\<rparr>)"
  proof (rule threads_okI, goal_cases)
    case (1 y b)
    then have "map_of (th_rooms s) y = Some b" "y \<noteq> rid" by (auto simp: map_of_delete split: if_splits)
    then show ?case using d(1) [of y b] other [of y b] by (simp add: room_stands_def map_of_delete)
  next
    case (2 y z b)
    then show ?case using d(2) [of y b z] by (auto simp: map_of_delete split: if_splits)
  next
    case (3 k b)
    then have "(k, b) \<in> set (th_tasks s)" by simp
    moreover from this have "b \<noteq> a" using assms(3) by force
    ultimately have "map_of (th_rooms s) (task_room k) = Some b" "task_room k \<noteq> rid"
      using d(3) [of k b] assms(2) by auto
    then show ?case by (simp add: map_of_delete)
  qed
  show "visible_room x (s\<lparr>th_rooms := AList.delete rid (th_rooms s), th_heap := AList.delete a (th_heap s)\<rparr>) =
      (if x = rid then None else visible_room x s)"
    using other by (auto simp: visible_room_def map_of_delete split: option.splits)
qed

lemma remove_simulates:
  assumes "threads_ok s" "simulates s t" "safe_step (Remove rid i) s"
  shows "\<exists>es s'. remove_call rid i s = Some (es, s') \<and> threads_ok s' \<and>
    filter is_result es = fst (whole_run [Whole_Remove rid i] t) \<and> simulates s' (snd (whole_run [Whole_Remove rid i] t))"
proof (cases "map_of (th_rooms s) rid")
  case None
  then have "visible_room rid s = None" by (simp add: visible_room_def)
  then have "findRoom rid t = None" using assms(2) by (simp add: simulates_def)
  then show ?thesis using None assms(1,2) by (simp add: remove_call_def removeParticipant_def is_result_def)
next
  case (Some a)
  obtain r where r: "map_of (th_heap s) a = Some r" "rm_participants r = [] \<longrightarrow> r = new_room rid (th_keyframeRequest s) kMaxParticipants"
    using threads_okD(1) [OF assms(1) Some] by (auto simp: room_stands_def)
  obtain st r' where rem: "room_remove i r = (st, r')" by force
  have seen: "findRoom rid t = room_seen r" using assms(2) visible_at [OF Some r(1)] by (simp add: simulates_def)
  have sim: "\<And>x. findRoom x t = visible_room x s" "sv_keyframeRequest t = th_keyframeRequest s"
    using assms(2) by (simp_all add: simulates_def)
  have whole: "\<exists>t'. removeParticipant rid i t = (st, t') \<and> sv_keyframeRequest t' = sv_keyframeRequest t \<and>
      (\<forall>x. findRoom x t' = (if x = rid then room_seen r' else findRoom x t))"
  proof (cases "rm_participants r = []")
    case True
    then show ?thesis using rem seen by (auto simp: removeParticipant_def room_seen_def room_remove_def)
  next
    case False
    then show ?thesis using rem seen
      by (auto simp: removeParticipant_def room_seen_def room_size_def findRoom_def map_of_delete put_room_def map_of_update_Some)
  qed
  then obtain t' where t': "removeParticipant rid i t = (st, t')" "sv_keyframeRequest t' = sv_keyframeRequest t"
    "\<And>x. findRoom x t' = (if x = rid then room_seen r' else findRoom x t)" by blast
  have run: "whole_run [Whole_Remove rid i] t = ([Removed st], t')" using t'(1) by simp
  show ?thesis
  proof (cases "room_size r' = 0")
    case True
    then have free: "a \<notin> snd ` set (th_tasks s)" using assms(3) Some r(1) rem by simp
    let ?s' = "s\<lparr>th_rooms := AList.delete rid (th_rooms s), th_heap := AList.delete a (th_heap s)\<rparr>"
    have "room_seen r' = None" using True by (simp add: room_seen_def room_size_def)
    then have "simulates ?s' t'" using erase_ok(2) [OF assms(1) Some free] t'(2,3) sim by (simp add: simulates_def)
    moreover have "remove_call rid i s = Some ([Removed st], ?s')" using Some r(1) rem True by (simp add: remove_call_def)
    ultimately show ?thesis using erase_ok(1) [OF assms(1) Some free] run by (simp add: is_result_def)
  next
    case False
    let ?s' = "s\<lparr>th_heap := AList.update a r' (th_heap s), th_tasks := th_tasks s\<rparr>"
    have ne: "rm_participants r' \<noteq> []" using False by (simp add: room_size_def)
    then have "threads_ok ?s'" using write_back_ok [OF assms(1) Some] threads_okD(3) [OF assms(1)] by blast
    moreover have "simulates ?s' t'"
      using write_back_visible [OF assms(1) Some, where r' = r' and ts = "th_tasks s"] t'(2,3) sim by (simp add: simulates_def room_seen_def)
    moreover have "remove_call rid i s = Some ([Removed st], ?s')" using Some r(1) rem False by (simp add: remove_call_def)
    ultimately show ?thesis using run by (simp add: is_result_def)
  qed
qed

lemma step_simulates:
  assumes "threads_ok s" "simulates s t" "safe_step p s"
  shows "\<exists>es s'. thread_step p s = Some (es, s') \<and> threads_ok s' \<and>
    filter is_result es = fst (whole_run (takes_effect p s) t) \<and> simulates s' (snd (whole_run (takes_effect p s) t))"
proof (cases p)
  case (Begin c)
  have "simulates (begin_call c s) t"
    using assms(2) begin_call_visible [OF assms(1)] by (simp add: simulates_def) (auto simp: begin_call_def split: option.splits)
  then show ?thesis using Begin begin_call_ok [OF assms(1)] by simp
next
  case (Continue j)
  then show ?thesis using continue_simulates [OF assms(1,2)] by simp
next
  case (Remove rid i)
  then show ?thesis using remove_simulates [OF assms(1,2)] assms(3) by simp
qed

lemma whole_run_append: "whole_run (cs @ ds) t = (let (es, t) = whole_run cs t; (fs, t) = whole_run ds t in (es @ fs, t))"
  by (induction cs arbitrary: t) (simp_all add: Let_def split_beta)

lemma run_simulates:
  "threads_ok s \<Longrightarrow> simulates s t \<Longrightarrow> safe_run ps s \<Longrightarrow>
   \<exists>es s'. thread_run ps s = Some (es, s') \<and> filter is_result es = fst (whole_run (effects ps s) t) \<and>
     simulates s' (snd (whole_run (effects ps s) t))"
proof (induction ps arbitrary: s t)
  case (Cons p ps)
  obtain es s' where one: "thread_step p s = Some (es, s')" "threads_ok s'"
    "filter is_result es = fst (whole_run (takes_effect p s) t)" "simulates s' (snd (whole_run (takes_effect p s) t))"
    using step_simulates [OF Cons.prems(1,2), of p] Cons.prems(3) by fastforce
  have "safe_run ps s'" using Cons.prems(3) one(1) by simp
  then obtain fs s'' where "thread_run ps s' = Some (fs, s'')"
    "filter is_result fs = fst (whole_run (effects ps s') (snd (whole_run (takes_effect p s) t)))"
    "simulates s'' (snd (whole_run (effects ps s') (snd (whole_run (takes_effect p s) t))))"
    using Cons.IH [OF one(2,4)] by blast
  then show ?case using one by (simp add: whole_run_append split_beta Let_def)
qed simp

text \<open>C9. Apart from that race the locks do their work: in any interleaving of any calls in which a
  removal does not empty a room whose address another call holds, no call uses a destroyed room, and
  the threads are linearizable. The run has the results, deliveries and statuses, in order, of the same calls done
  one at a time, each at its step under the lock of the room, and ends with the same rooms.\<close>

theorem threads_linearize:
  assumes "safe_run ps (new_sfu_threads kf)"
  shows "\<exists>es s'. thread_run ps (new_sfu_threads kf) = Some (es, s') \<and>
    filter is_result es = fst (whole_run (effects ps (new_sfu_threads kf)) (setKeyframeRequestCallback kf new_sfu_server)) \<and>
    (\<forall>rid. visible_room rid s' =
      findRoom rid (snd (whole_run (effects ps (new_sfu_threads kf)) (setKeyframeRequestCallback kf new_sfu_server))))"
proof -
  have "threads_ok (new_sfu_threads kf)" by (simp add: threads_ok_def new_sfu_threads_def)
  moreover have "simulates (new_sfu_threads kf) (setKeyframeRequestCallback kf new_sfu_server)"
    by (simp add: simulates_def new_sfu_threads_def visible_room_def findRoom_def setKeyframeRequestCallback_def new_sfu_server_def)
  ultimately show ?thesis using run_simulates [OF _ _ assms] by (fastforce simp: simulates_def)
qed

text \<open>Two members join with their steps interleaved, one sends, both leave.\<close>

definition demo_threads :: "unit thread_op list" where
  "demo_threads = [Begin (Add_Call ''r'' ''1'' (Some ())), Begin (Add_Call ''r'' ''2'' (Some ())), Continue 1, Continue 0,
     Begin (Route_Call ''r'' ''1'' sample_packet), Continue 2, Continue 0, Continue 0, Remove ''r'' ''1'', Remove ''r'' ''2'']"

lemma threads_linearize_witness:
  "\<exists>es s'. thread_run demo_threads (new_sfu_threads True) = Some (es, s') \<and> length (filter is_result es) = 5 \<and> visible_room ''r'' s' = None"
proof -
  have "safe_run demo_threads (new_sfu_threads True)" by code_simp
  note lin = threads_linearize [OF this]
  have "length (fst (whole_run (effects demo_threads (new_sfu_threads True)) (setKeyframeRequestCallback True new_sfu_server))) = 5" by code_simp
  moreover have "findRoom ''r'' (snd (whole_run (effects demo_threads (new_sfu_threads True)) (setKeyframeRequestCallback True new_sfu_server))) = None" by code_simp
  ultimately show ?thesis using lin by metis
qed

end
