(* ===== verification/Rooms.thy ===== *)
theory Rooms
  imports Common
begin

text \<open>
  The signaling server: the room registry of signaling-server/RoomManager.cpp and the message
  handler of signaling-server/main.cpp. A connection handle is an opaque pointer, a natural number
  with 0 the null pointer; what \<^verbatim>\<open>send_\<close> puts on the sockets is returned as a list of
  \<open>(connection, frame)\<close> in order, a frame by its JSON content. The JSON library is not part
  of the repository: parsing and printing are parameters of the handler, and the value type is
  the part of it the handler inspects.
\<close>

section \<open>RoomManager\<close>

type_synonym conn = nat

datatype notice =
    Joined string u64 "u64 list"
  | PeerJoined string u64
  | PeerLeft string u64
  | RelayedText string
  | ErrorText string

type_synonym sends = "(conn \<times> notice) list"

record peer =
  pr_id :: u64
  pr_conn :: conn

record sig_room =
  sr_name :: string
  sr_participants :: "peer list"

record room_manager =
  rg_nextId :: u64
  rg_rooms :: "(string \<times> sig_room) list"
  rg_connRoom :: "(conn \<times> string) list"

definition sig_kMaxParticipants :: nat where
  "sig_kMaxParticipants = 8"

definition new_room_manager :: room_manager where
  "new_room_manager = \<lparr>rg_nextId = 1, rg_rooms = [], rg_connRoom = []\<rparr>"

text \<open>The id of the first participant with this connection, 0 when there is none.\<close>

fun id_of_conn :: "conn \<Rightarrow> peer list \<Rightarrow> u64" where
  "id_of_conn c [] = 0"
| "id_of_conn c (p # ps) = (if pr_conn p = c then pr_id p else id_of_conn c ps)"

definition roomOf :: "conn \<Rightarrow> room_manager \<Rightarrow> (sig_room \<times> u64) option" where
  "roomOf c m =
    (case map_of (rg_connRoom m) c of
       None \<Rightarrow> None
     | Some name \<Rightarrow> (case map_of (rg_rooms m) name of
         None \<Rightarrow> None
       | Some r \<Rightarrow> Some (r, id_of_conn c (sr_participants r))))"

definition idFor :: "conn \<Rightarrow> room_manager \<Rightarrow> u64" where
  "idFor c m =
    (case map_of (rg_connRoom m) c of
       None \<Rightarrow> 0
     | Some name \<Rightarrow> (case map_of (rg_rooms m) name of
         None \<Rightarrow> 0
       | Some r \<Rightarrow> id_of_conn c (sr_participants r)))"

definition participantCount :: "string \<Rightarrow> room_manager \<Rightarrow> nat" where
  "participantCount name m = (case map_of (rg_rooms m) name of None \<Rightarrow> 0 | Some r \<Rightarrow> length (sr_participants r))"

text \<open>Erase the first participant with this connection.\<close>

fun erase_conn :: "conn \<Rightarrow> peer list \<Rightarrow> peer list" where
  "erase_conn c [] = []"
| "erase_conn c (p # ps) = (if pr_conn p = c then ps else p # erase_conn c ps)"

definition leave :: "conn \<Rightarrow> room_manager \<Rightarrow> room_manager \<times> sends" where
  "leave c m =
    (case map_of (rg_connRoom m) c of
       None \<Rightarrow> (m, [])
     | Some name \<Rightarrow>
         let m1 = m\<lparr>rg_connRoom := AList.delete c (rg_connRoom m)\<rparr> in
         (case map_of (rg_rooms m1) name of
            None \<Rightarrow> (m1, [])
          | Some r \<Rightarrow>
              let leavingId = id_of_conn c (sr_participants r);
                  ps = erase_conn c (sr_participants r);
                  out = (if leavingId \<noteq> 0 then map (\<lambda>p. (pr_conn p, PeerLeft name leavingId)) ps else [])
              in (m1\<lparr>rg_rooms := (if ps = [] then AList.delete name (rg_rooms m1)
                                 else AList.update name (r\<lparr>sr_participants := ps\<rparr>) (rg_rooms m1))\<rparr>, out)))"

definition join :: "string \<Rightarrow> conn \<Rightarrow> room_manager \<Rightarrow> u64 result \<times> room_manager \<times> sends" where
  "join name c m =
    (if name = [] \<or> c = 0 then (fail InvalidArgument, m, [])
     else
       let (m1, out1) = (if map_of (rg_connRoom m) c \<noteq> None then leave c m else (m, []));
           r0 = (case map_of (rg_rooms m1) name of Some r \<Rightarrow> r | None \<Rightarrow> \<lparr>sr_name = [], sr_participants = []\<rparr>);
           r = (if sr_name r0 = [] then r0\<lparr>sr_name := name\<rparr> else r0)
       in if length (sr_participants r) \<ge> sig_kMaxParticipants
          then (fail ResourceExhausted,
                m1\<lparr>rg_rooms := (if sr_participants r = [] then AList.delete name (rg_rooms m1)
                               else AList.update name r (rg_rooms m1))\<rparr>, out1)
          else
            let i = rg_nextId m1;
                ps = sr_participants r @ [\<lparr>pr_id = i, pr_conn = c\<rparr>];
                peers = map pr_id (filter (\<lambda>p. pr_id p \<noteq> i) ps);
                notices = map (\<lambda>p. (pr_conn p, PeerJoined name i)) (filter (\<lambda>p. pr_conn p \<noteq> c) ps)
            in (Inr i,
                \<lparr>rg_nextId = i + 1, rg_rooms = AList.update name (r\<lparr>sr_participants := ps\<rparr>) (rg_rooms m1),
                 rg_connRoom = AList.update c name (rg_connRoom m1)\<rparr>,
                out1 @ [(c, Joined name i peers)] @ notices))"

fun find_peer :: "u64 \<Rightarrow> peer list \<Rightarrow> peer option" where
  "find_peer i [] = None"
| "find_peer i (p # ps) = (if pr_id p = i then Some p else find_peer i ps)"

definition relay :: "conn \<Rightarrow> string \<Rightarrow> u64 \<Rightarrow> string \<Rightarrow> room_manager \<Rightarrow> status \<times> sends" where
  "relay c type to raw m =
    (if type \<noteq> ''offer'' \<and> type \<noteq> ''answer'' \<and> type \<noteq> ''ice'' then (fail Protocol, [])
     else case roomOf c m of
         None \<Rightarrow> (fail NotFound, [])
       | Some (r, fromId) \<Rightarrow>
           if fromId = 0 then (fail NotFound, [])
           else if to \<noteq> 0 then
             (case find_peer to (sr_participants r) of
                Some p \<Rightarrow> (ok, [(pr_conn p, RelayedText raw)])
              | None \<Rightarrow> (fail NotFound, []))
           else (ok, map (\<lambda>p. (pr_conn p, RelayedText raw)) (filter (\<lambda>p. pr_conn p \<noteq> c) (sr_participants r))))"

definition rm_roomCount :: "room_manager \<Rightarrow> nat" where
  "rm_roomCount m = length (rg_rooms m)"

section \<open>The message handler\<close>

datatype json = JNull | JBool bool | JInt int | JString string | JArray "json list" | JObject "(string \<times> json) list"

text \<open>\<^verbatim>\<open>j.value(key, default)\<close>: the default when the key is absent, an exception (\<open>None\<close>)
  when it is present with another type.\<close>

definition value_string :: "string \<Rightarrow> string \<Rightarrow> (string \<times> json) list \<Rightarrow> string option" where
  "value_string key dflt obj = (case map_of obj key of
     None \<Rightarrow> Some dflt | Some (JString s) \<Rightarrow> Some s | Some _ \<Rightarrow> None)"

definition value_u64 :: "string \<Rightarrow> u64 \<Rightarrow> (string \<times> json) list \<Rightarrow> u64 option" where
  "value_u64 key dflt obj = (case map_of obj key of
     None \<Rightarrow> Some dflt | Some (JInt n) \<Rightarrow> Some (word_of_int n) | Some _ \<Rightarrow> None)"

text \<open>One WebSocket message of connection \<open>c\<close>: \<open>None\<close> when the handler throws.\<close>

definition on_message :: "(string \<Rightarrow> json option) \<Rightarrow> (json \<Rightarrow> string) \<Rightarrow> conn \<Rightarrow> bool \<Rightarrow> string \<Rightarrow> room_manager
    \<Rightarrow> (room_manager \<times> sends) option" where
  "on_message json_parse json_dump c isText msg m =
    (if \<not> isText then Some (m, [(c, ErrorText ''only text frames are accepted'')])
     else case json_parse msg of
         Some (JObject obj) \<Rightarrow>
           (case value_string ''type'' [] obj of
              None \<Rightarrow> None
            | Some type \<Rightarrow>
                if type = ''join'' then
                  (case value_string ''room'' [] obj of
                     None \<Rightarrow> None
                   | Some room \<Rightarrow>
                       let (r, m', out) = join room c m in
                       (case r of
                          Inr i \<Rightarrow> Some (m', out)
                        | Inl e \<Rightarrow> Some (m', out @ [(c, ErrorText (if e = ResourceExhausted then ''room is full''
                                                               else ''invalid join request''))])))
                else if type = ''leave'' then Some (leave c m)
                else if type = ''offer'' \<or> type = ''answer'' \<or> type = ''ice'' then
                  let fromId = idFor c m in
                  if fromId = 0 then Some (m, [(c, ErrorText ''must join a room before signaling'')])
                  else (case value_u64 ''to'' 0 obj of
                     None \<Rightarrow> None
                   | Some to \<Rightarrow>
                       let (s, out) = relay c type to
                             (json_dump (JObject (AList.update ''from'' (JInt (uint fromId)) obj))) m
                       in Some (m, if has_value s then out else out @ [(c, ErrorText ''relay target not found'')]))
                else Some (m, [(c, ErrorText ''unknown message type'')]))
       | _ \<Rightarrow> Some (m, [(c, ErrorText ''malformed JSON'')]))"

definition on_close :: "conn \<Rightarrow> room_manager \<Rightarrow> room_manager \<times> sends" where
  "on_close c m = leave c m"

text \<open>\<^verbatim>\<open>main\<close>: the exit code, or the port on which the event loop runs the two handlers.\<close>

definition signaling_main :: "string option \<Rightarrow> bool \<Rightarrow> int + int" where
  "signaling_main arg listens =
    (case (case arg of None \<Rightarrow> Inr 8080
       | Some a \<Rightarrow> let port = atoi a in if port \<le> 0 \<or> port > 65535 then Inl 2 else Inr port) of
       Inl code \<Rightarrow> Inl code
     | Inr port \<Rightarrow> if listens then Inr port else Inl 1)"

lemma signaling_main_port:
  "signaling_main (Some (decimal n)) listens =
    (if n = 0 \<or> 65535 < n then Inl 2 else if listens then Inr (int n) else Inl 1)"
  by (auto simp: signaling_main_def atoi_decimal Let_def)

section \<open>The invariant of the registry\<close>

definition peer_ok :: "room_manager \<Rightarrow> string \<Rightarrow> peer \<Rightarrow> bool" where
  "peer_ok m name p \<longleftrightarrow> pr_id p \<noteq> 0 \<and> pr_id p < rg_nextId m \<and> pr_conn p \<noteq> 0 \<and>
     map_of (rg_connRoom m) (pr_conn p) = Some name"

definition sig_room_ok :: "room_manager \<Rightarrow> string \<Rightarrow> sig_room \<Rightarrow> bool" where
  "sig_room_ok m name r \<longleftrightarrow> name \<noteq> [] \<and> sr_name r = name \<and> sr_participants r \<noteq> [] \<and>
     length (sr_participants r) \<le> sig_kMaxParticipants \<and> distinct (map pr_conn (sr_participants r)) \<and>
     distinct (map pr_id (sr_participants r)) \<and> (\<forall>p\<in>set (sr_participants r). peer_ok m name p)"

definition rm_ok :: "room_manager \<Rightarrow> bool" where
  "rm_ok m \<longleftrightarrow> rg_nextId m \<noteq> 0 \<and> distinct (map fst (rg_rooms m)) \<and> (\<forall>(name, r)\<in>set (rg_rooms m). sig_room_ok m name r) \<and>
     (\<forall>c name. map_of (rg_connRoom m) c = Some name \<longrightarrow>
        (\<exists>r. map_of (rg_rooms m) name = Some r \<and> c \<in> pr_conn ` set (sr_participants r)))"

lemma rm_ok_new: "rm_ok new_room_manager"
  by (simp add: rm_ok_def new_room_manager_def)

lemma rm_ok_room: "rm_ok m \<Longrightarrow> map_of (rg_rooms m) name = Some r \<Longrightarrow> sig_room_ok m name r"
  by (auto simp: rm_ok_def dest: map_of_SomeD)

lemma erase_conn_filter: "distinct (map pr_conn ps) \<Longrightarrow> erase_conn c ps = filter (\<lambda>p. pr_conn p \<noteq> c) ps"
proof (induction ps)
  case (Cons a ps)
  then have "pr_conn a \<notin> pr_conn ` set ps" by simp
  then have "filter (\<lambda>p. pr_conn p \<noteq> pr_conn a) ps = ps" by (intro filter_True) (metis image_eqI)
  with Cons show ?case by auto
qed simp

lemma id_of_conn_mem:
  "\<forall>p\<in>set ps. pr_id p \<noteq> 0 \<Longrightarrow> id_of_conn c ps \<noteq> 0 \<longleftrightarrow> c \<in> pr_conn ` set ps"
  by (induction ps) auto

text \<open>A connection on record is in its room, under a nonzero id.\<close>

lemma rm_ok_member:
  assumes "rm_ok m" "map_of (rg_connRoom m) c = Some name"
  obtains r where "map_of (rg_rooms m) name = Some r" "sig_room_ok m name r"
    "c \<in> pr_conn ` set (sr_participants r)" "id_of_conn c (sr_participants r) \<noteq> 0"
proof -
  obtain r where r: "map_of (rg_rooms m) name = Some r" "c \<in> pr_conn ` set (sr_participants r)"
    using assms unfolding rm_ok_def by blast
  note ok = rm_ok_room [OF assms(1) r(1)]
  have "id_of_conn c (sr_participants r) \<noteq> 0"
    using ok r(2) id_of_conn_mem [of "sr_participants r" c] by (auto simp: sig_room_ok_def peer_ok_def)
  with that r ok show ?thesis by blast
qed

lemma leave_eq:
  assumes "rm_ok m" "map_of (rg_connRoom m) c = Some name" "map_of (rg_rooms m) name = Some r"
  defines "ps \<equiv> filter (\<lambda>p. pr_conn p \<noteq> c) (sr_participants r)"
  shows "leave c m =
    (m\<lparr>rg_connRoom := AList.delete c (rg_connRoom m),
       rg_rooms := (if ps = [] then AList.delete name (rg_rooms m)
                    else AList.update name (r\<lparr>sr_participants := ps\<rparr>) (rg_rooms m))\<rparr>,
     map (\<lambda>p. (pr_conn p, PeerLeft name (id_of_conn c (sr_participants r)))) ps)"
proof -
  obtain r' where r': "map_of (rg_rooms m) name = Some r'" "sig_room_ok m name r'"
    "id_of_conn c (sr_participants r') \<noteq> 0"
    using rm_ok_member [OF assms(1,2)] by blast
  then have "r' = r" using assms(3) by simp
  with r' assms(2,3) show ?thesis
    by (simp add: leave_def Let_def erase_conn_filter sig_room_ok_def ps_def)
qed

lemma sig_room_ok_other:
  assumes "sig_room_ok m name' r'" "name' \<noteq> name" "map_of (rg_connRoom m) c = Some name"
    "rg_nextId m' = rg_nextId m" "rg_connRoom m' = AList.delete c (rg_connRoom m)"
  shows "sig_room_ok m' name' r'"
  using assms by (auto simp: sig_room_ok_def peer_ok_def alist_simps)

lemma leave_ok [inv_intros]:
  assumes "rm_ok m"
  shows "rm_ok (fst (leave c m))"
proof (cases "map_of (rg_connRoom m) c")
  case None
  then show ?thesis using assms by (simp add: leave_def)
next
  case (Some name)
  obtain r where r: "map_of (rg_rooms m) name = Some r" "sig_room_ok m name r"
    "c \<in> pr_conn ` set (sr_participants r)" by (rule rm_ok_member [OF assms Some])
  define ps where "ps = filter (\<lambda>p. pr_conn p \<noteq> c) (sr_participants r)"
  define m' where "m' = fst (leave c m)"
  have m': "m' = m\<lparr>rg_connRoom := AList.delete c (rg_connRoom m),
       rg_rooms := (if ps = [] then AList.delete name (rg_rooms m)
                    else AList.update name (r\<lparr>sr_participants := ps\<rparr>) (rg_rooms m))\<rparr>"
    unfolding m'_def ps_def using leave_eq [OF assms Some r(1)] by simp
  have old: "sig_room_ok m' name' r'" if "(name', r') \<in> set (rg_rooms m)" "name' \<noteq> name" for name' r'
    by (rule sig_room_ok_other [of m name' r' name c]) (use that assms Some in \<open>auto simp: m' rm_ok_def\<close>)
  have "length ps \<le> sig_kMaxParticipants"
    unfolding ps_def by (rule le_trans [OF length_filter_le]) (use r(2) in \<open>simp add: sig_room_ok_def\<close>)
  then have new: "sig_room_ok m' name (r\<lparr>sr_participants := ps\<rparr>)" if "ps \<noteq> []"
    using that r(2) distinct_map_filter [of pr_id] distinct_map_filter [of pr_conn]
    by (auto simp: sig_room_ok_def m' peer_ok_def alist_simps ps_def)
  have dist: "distinct (map fst (rg_rooms m))" using assms by (simp add: rm_ok_def)
  have rooms: "sig_room_ok m' name' r'" if "(name', r') \<in> set (rg_rooms m')" for name' r'
  proof (cases "ps = []")
    case True
    then show ?thesis using that old delete_mem [of name' r' name "rg_rooms m"] by (simp add: m')
  next
    case False
    then have "(name' = name \<and> r' = r\<lparr>sr_participants := ps\<rparr>) \<or> ((name', r') \<in> set (rg_rooms m) \<and> name' \<noteq> name)"
      using that map_of_SomeI [of "rg_rooms m'" name' r'] dist
      by (auto simp: m' distinct_update alist_simps split: if_splits dest: map_of_SomeD)
    with old new False show ?thesis by auto
  qed
  have sync: "\<exists>r. map_of (rg_rooms m') name' = Some r \<and> c' \<in> pr_conn ` set (sr_participants r)"
    if "map_of (rg_connRoom m') c' = Some name'" for c' name'
  proof -
    have c': "c' \<noteq> c" "map_of (rg_connRoom m) c' = Some name'" using that by (auto simp: m' alist_simps split: if_splits)
    obtain q where q: "map_of (rg_rooms m) name' = Some q" "c' \<in> pr_conn ` set (sr_participants q)"
      using rm_ok_member [OF assms c'(2)] by blast
    show ?thesis
    proof (cases "name' = name")
      case True
      then have "c' \<in> pr_conn ` set ps" using q r(1) c'(1) by (auto simp: ps_def)
      then show ?thesis using True by (auto simp: m' alist_simps)
    qed (use q in \<open>auto simp: m' alist_simps\<close>)
  qed
  have "distinct (map fst (rg_rooms m'))" using dist by (simp add: m' distinct_update distinct_delete)
  moreover have "rg_nextId m' \<noteq> 0" using assms by (simp add: m' rm_ok_def)
  ultimately show ?thesis using rooms sync unfolding m'_def [symmetric] rm_ok_def by blast
qed

definition members_of :: "string \<Rightarrow> room_manager \<Rightarrow> peer list" where
  "members_of name m = (case map_of (rg_rooms m) name of Some r \<Rightarrow> sr_participants r | None \<Rightarrow> [])"

text \<open>A connection on no record enters a room.\<close>

definition enter :: "string \<Rightarrow> conn \<Rightarrow> room_manager \<Rightarrow> room_manager" where
  "enter name c m = \<lparr>rg_nextId = rg_nextId m + 1,
     rg_rooms = AList.update name \<lparr>sr_name = name, sr_participants =
        members_of name m @ [\<lparr>pr_id = rg_nextId m, pr_conn = c\<rparr>]\<rparr> (rg_rooms m),
     rg_connRoom = AList.update c name (rg_connRoom m)\<rparr>"

lemma members_ok:
  "rm_ok m \<Longrightarrow> distinct (map pr_conn (members_of name m)) \<and> distinct (map pr_id (members_of name m)) \<and>
     (\<forall>p\<in>set (members_of name m). peer_ok m name p) \<and> length (members_of name m) \<le> sig_kMaxParticipants"
  using rm_ok_room [of m name] by (auto simp: members_of_def sig_room_ok_def split: option.splits)

lemma leave_none: "rm_ok m \<Longrightarrow> map_of (rg_connRoom (fst (leave c m))) c = None"
  by (cases "map_of (rg_connRoom m) c") (auto simp: leave_def Let_def alist_simps split: option.splits)

lemma leave_nextId: "rg_nextId (fst (leave c m)) = rg_nextId m"
  by (auto simp: leave_def Let_def split: option.splits)

lemma join_eq:
  assumes "rm_ok m" "name \<noteq> []" "c \<noteq> 0" "leave c m = (m1, out1)"
  shows "join name c m =
    (if length (members_of name m1) \<ge> sig_kMaxParticipants then (fail ResourceExhausted, m1, out1)
     else (Inr (rg_nextId m), enter name c m1,
           out1 @ [(c, Joined name (rg_nextId m) (map pr_id (members_of name m1)))] @
           map (\<lambda>p. (pr_conn p, PeerJoined name (rg_nextId m))) (members_of name m1)))"
proof -
  have m1: "(if map_of (rg_connRoom m) c \<noteq> None then leave c m else (m, [])) = (m1, out1)"
    using assms(4) by (auto simp: leave_def)
  have ok: "rm_ok m1" and none: "map_of (rg_connRoom m1) c = None" and nx: "rg_nextId m1 = rg_nextId m"
    using leave_ok [OF assms(1), of c] leave_none [OF assms(1), of c] leave_nextId [of c m] assms(4) by simp_all
  have peers: "pr_id p \<noteq> rg_nextId m \<and> pr_conn p \<noteq> c" if "p \<in> set (members_of name m1)" for p
    using members_ok [OF ok, of name] that none nx by (auto simp: peer_ok_def)
  have f: "filter (\<lambda>p. pr_id p \<noteq> rg_nextId m) (members_of name m1) = members_of name m1"
    "filter (\<lambda>p. pr_conn p \<noteq> c) (members_of name m1) = members_of name m1"
    using peers by (auto intro!: filter_True)
  show ?thesis
  proof (cases "map_of (rg_rooms m1) name")
    case None
    then show ?thesis using assms(2,3) unfolding join_def m1 Let_def
      by (simp add: members_of_def sig_kMaxParticipants_def enter_def nx)
  next
    case (Some r)
    have "sr_name r = name" "sr_participants r \<noteq> []" "members_of name m1 = sr_participants r"
      using rm_ok_room [OF ok Some] Some by (simp_all add: sig_room_ok_def members_of_def)
    then show ?thesis using assms(2,3) Some f unfolding join_def m1 Let_def
      by (cases r) (simp add: update_same enter_def nx)
  qed
qed

lemma enter_ok:
  assumes "rm_ok m" "map_of (rg_connRoom m) c = None" "name \<noteq> []" "c \<noteq> 0" "rg_nextId m \<noteq> -1"
    "length (members_of name m) < sig_kMaxParticipants"
  shows "rm_ok (enter name c m)"
proof -
  let ?m = "enter name c m"
  let ?new = "\<lparr>sr_name = name, sr_participants = members_of name m @ [\<lparr>pr_id = rg_nextId m, pr_conn = c\<rparr>]\<rparr>"
  have nz: "rg_nextId m + 1 \<noteq> 0" using assms(5) by (simp add: eq_neg_iff_add_eq_0)
  then have step: "rg_nextId m < rg_nextId m + 1" "rg_nextId m + 1 \<noteq> 0"
    by (simp_all add: word_less_nat_alt unatSuc add.commute)
  have old: "peer_ok ?m name' p" if "peer_ok m name' p" for name' p
    using that assms(2) step(1) by (auto simp: peer_ok_def enter_def alist_simps intro: less_trans)
  note mem = members_ok [OF assms(1), of name]
  have fresh: "rg_nextId m \<notin> pr_id ` set (members_of name m)" "c \<notin> pr_conn ` set (members_of name m)"
    using mem assms(2) by (auto simp: peer_ok_def)
  have "peer_ok ?m name \<lparr>pr_id = rg_nextId m, pr_conn = c\<rparr>"
    using assms(1,4) step(1) by (simp add: peer_ok_def enter_def alist_simps rm_ok_def)
  then have new: "sig_room_ok ?m name ?new"
    using mem fresh old assms(3,6) by (auto simp: sig_room_ok_def)
  have rooms: "sig_room_ok ?m name' r'" if "(name', r') \<in> set (rg_rooms ?m)" for name' r'
    using update_mem [of name' r' name ?new "rg_rooms m"] that new old assms(1)
    by (auto simp: enter_def rm_ok_def sig_room_ok_def)
  have sync: "\<exists>r. map_of (rg_rooms ?m) name' = Some r \<and> c' \<in> pr_conn ` set (sr_participants r)"
    if "map_of (rg_connRoom ?m) c' = Some name'" for c' name'
  proof (cases "c' = c")
    case True
    then show ?thesis using that by (auto simp: enter_def alist_simps)
  next
    case False
    then have "map_of (rg_connRoom m) c' = Some name'" using that by (simp add: enter_def alist_simps)
    then obtain r where "map_of (rg_rooms m) name' = Some r" "c' \<in> pr_conn ` set (sr_participants r)"
      using rm_ok_member [OF assms(1)] by blast
    then show ?thesis by (auto simp: enter_def alist_simps members_of_def)
  qed
  have "distinct (map fst (rg_rooms ?m))" using assms(1) by (simp add: enter_def rm_ok_def distinct_update)
  moreover have "rg_nextId ?m \<noteq> 0" using step(2) by (simp add: enter_def)
  ultimately show ?thesis using rooms sync unfolding rm_ok_def by blast
qed

section \<open>What the handler guarantees\<close>

text \<open>The states the server reaches by messages of live connections and closes, with the number of
  messages so far; each message admits at most one participant.\<close>

inductive rm_reachable :: "(string \<Rightarrow> json option) \<Rightarrow> (json \<Rightarrow> string) \<Rightarrow> nat \<Rightarrow> room_manager \<Rightarrow> bool"
  for P D where
  start: "rm_reachable P D 0 new_room_manager"
| message: "rm_reachable P D n m \<Longrightarrow> c \<noteq> 0 \<Longrightarrow> on_message P D c isText msg m = Some (m', out)
    \<Longrightarrow> rm_reachable P D (Suc n) m'"
| close: "rm_reachable P D n m \<Longrightarrow> rm_reachable P D n (fst (on_close c m))"

lemma join_ok:
  assumes "rm_ok m" "rg_nextId m \<noteq> -1" "c \<noteq> 0" "join name c m = (r, m', out)"
  shows "rm_ok m' \<and> unat (rg_nextId m') \<le> Suc (unat (rg_nextId m))"
proof (cases "name = []")
  case True
  then show ?thesis using assms by (simp add: join_def)
next
  case False
  obtain m1 out1 where l: "leave c m = (m1, out1)" by fastforce
  have ok: "rm_ok m1" "map_of (rg_connRoom m1) c = None" "rg_nextId m1 = rg_nextId m"
    using leave_ok [OF assms(1), of c] leave_none [OF assms(1), of c] leave_nextId [of c m] l by simp_all
  have "unat (rg_nextId m + 1) \<le> Suc (unat (rg_nextId m))"
    by (metis unat_word_ariths(1) mod_less_eq_dividend unat_1 Suc_eq_plus1)
  then show ?thesis using join_eq [OF assms(1) False assms(3) l] assms(2,4) ok enter_ok [OF ok(1,2) False assms(3)]
    by (auto simp: enter_def split: if_splits)
qed

lemma reachable_ok:
  "rm_reachable P D n m \<Longrightarrow> n < 2 ^ 64 - 2 \<Longrightarrow> rm_ok m \<and> unat (rg_nextId m) \<le> Suc n"
proof (induction rule: rm_reachable.induct)
  case start
  then show ?case by (simp add: rm_ok_new) (simp add: new_room_manager_def)
next
  case (message n m c isText msg m' out)
  then have ih: "rm_ok m" "unat (rg_nextId m) \<le> Suc n" by simp_all
  have "rg_nextId m \<noteq> -1"
  proof
    assume "rg_nextId m = -1"
    then have "unat (rg_nextId m) = 2 ^ 64 - 1" by (simp add: unsigned_minus_1_eq_mask mask_eq_exp_minus_1)
    with ih(2) message.prems show False by simp
  qed
  note j = join_ok [OF ih(1) this message.hyps(2)]
  consider "m' = m" | "m' = fst (leave c m)" | name r out' where "join name c m = (r, m', out')"
    using message.hyps(3) by (auto simp: on_message_def Let_def split: if_splits option.splits json.splits sum.splits prod.splits)
  then show ?case
  proof cases
    case 2
    then show ?thesis using ih leave_ok [OF ih(1), of c] by (simp add: leave_nextId)
  next
    case 3
    then show ?thesis using j ih(2) by fastforce
  qed (use ih in auto)
next
  case (close n m c)
  then show ?case by (simp add: on_close_def leave_ok leave_nextId)
qed

text \<open>C12. The room registry's invariant: in every state reachable by client messages of any content
  and socket closes (fewer than \<open>2^64 - 2\<close> messages, so that ids do not wrap), every room is
  nonempty with at most eight participants of distinct connections and distinct nonzero ids, and
  the reverse map is in step: a connection is on record with a room exactly when it is a
  participant of that room, so no connection is ever in two rooms.\<close>

theorem registry_invariant:
  assumes "rm_reachable P D n m" "n < 2 ^ 64 - 2"
  shows "(\<forall>(name, r)\<in>set (rg_rooms m). 0 < length (sr_participants r) \<and> length (sr_participants r) \<le> 8 \<and>
       distinct (map pr_conn (sr_participants r)) \<and> distinct (map pr_id (sr_participants r)) \<and>
       0 \<notin> pr_id ` set (sr_participants r)) \<and>
    (\<forall>c name. map_of (rg_connRoom m) c = Some name \<longleftrightarrow> c \<in> pr_conn ` set (members_of name m))"
proof -
  have ok: "rm_ok m" using reachable_ok [OF assms] by simp
  have "map_of (rg_connRoom m) c = Some name \<longleftrightarrow> c \<in> pr_conn ` set (members_of name m)" for c name
  proof
    assume "map_of (rg_connRoom m) c = Some name"
    then show "c \<in> pr_conn ` set (members_of name m)"
      by (rule rm_ok_member [OF ok]) (simp add: members_of_def)
  next
    assume "c \<in> pr_conn ` set (members_of name m)"
    then show "map_of (rg_connRoom m) c = Some name"
      using members_ok [OF ok, of name] by (auto simp: peer_ok_def)
  qed
  moreover have "0 < length (sr_participants r) \<and> length (sr_participants r) \<le> 8 \<and>
       distinct (map pr_conn (sr_participants r)) \<and> distinct (map pr_id (sr_participants r)) \<and>
       0 \<notin> pr_id ` set (sr_participants r)" if "(name, r) \<in> set (rg_rooms m)" for name r
  proof -
    have "sig_room_ok m name r" using that ok by (auto simp: rm_ok_def)
    then show ?thesis by (auto simp: sig_room_ok_def sig_kMaxParticipants_def peer_ok_def)
  qed
  ultimately show ?thesis by blast
qed

lemma id_enter: "c \<notin> pr_conn ` set ps \<Longrightarrow> id_of_conn c (ps @ [\<lparr>pr_id = i, pr_conn = c\<rparr>]) = i"
  by (induction ps) auto

text \<open>C38. What a join does: with room left, the joiner gets the next id, is told the room and the ids
  already present, every participant already present is told once, and the joiner is then found
  under its id as the last member of that room alone. Whether or not the join succeeds, a previous
  membership has been given up first: a join refused because the room is full leaves the
  connection in no room at all.\<close>

theorem join_effect:
  assumes "rm_ok m" "name \<noteq> []" "c \<noteq> 0" "leave c m = (m1, out1)"
  shows "case join name c m of
      (Inr i, m', out) \<Rightarrow> length (members_of name m1) < 8 \<and> i = rg_nextId m \<and> idFor c m' = i \<and>
        members_of name m' = members_of name m1 @ [\<lparr>pr_id = i, pr_conn = c\<rparr>] \<and>
        (\<forall>name'. name' \<noteq> name \<longrightarrow> members_of name' m' = members_of name' m1 \<and> c \<notin> pr_conn ` set (members_of name' m')) \<and>
        out = out1 @ (c, Joined name i (map pr_id (members_of name m1))) #
              map (\<lambda>p. (pr_conn p, PeerJoined name i)) (members_of name m1)
    | (Inl e, m', out) \<Rightarrow> e = ResourceExhausted \<and> length (members_of name m1) = 8 \<and> m' = m1 \<and> out = out1 \<and>
        idFor c m' = 0"
proof -
  have ok: "rm_ok m1" and none: "map_of (rg_connRoom m1) c = None"
    using leave_ok [OF assms(1), of c] leave_none [OF assms(1), of c] assms(4) by simp_all
  have out: "c \<notin> pr_conn ` set (members_of name' m1)" for name'
    using members_ok [OF ok, of name'] none by (auto simp: peer_ok_def)
  have len: "length (members_of name m1) \<le> 8"
    using members_ok [OF ok, of name] by (simp add: sig_kMaxParticipants_def)
  have "members_of name' (enter name c m1) = (if name' = name
      then members_of name m1 @ [\<lparr>pr_id = rg_nextId m1, pr_conn = c\<rparr>] else members_of name' m1)" for name'
    by (simp add: members_of_def enter_def alist_simps)
  moreover have "idFor c (enter name c m1) = rg_nextId m1"
    using id_enter [OF out, of name] by (simp add: idFor_def enter_def alist_simps)
  moreover have "idFor c m1 = 0" using none by (simp add: idFor_def)
  moreover have "rg_nextId m1 = rg_nextId m" using leave_nextId [of c m] assms(4) by simp
  ultimately show ?thesis
    using join_eq [OF assms] out len by (auto simp: sig_kMaxParticipants_def fail_def)
qed

text \<open>What a leave does: the connection is in no room afterwards, exactly the remaining
  participants of its room are told (each once, with its id), everybody else keeps room and id, and
  a connection in no room may leave at any time without effect.\<close>

theorem leave_effect:
  assumes "rm_ok m" "leave c m = (m', out)"
  shows "idFor c m' = 0 \<and> (\<forall>name. members_of name m' = filter (\<lambda>p. pr_conn p \<noteq> c) (members_of name m)) \<and>
    (case map_of (rg_connRoom m) c of
       None \<Rightarrow> m' = m \<and> out = []
     | Some name \<Rightarrow> idFor c m \<noteq> 0 \<and>
         out = map (\<lambda>p. (pr_conn p, PeerLeft name (idFor c m))) (members_of name m'))"
proof (cases "map_of (rg_connRoom m) c")
  case None
  then have "c \<notin> pr_conn ` set (members_of name m)" for name
    using members_ok [OF assms(1), of name] by (auto simp: peer_ok_def)
  then have "filter (\<lambda>p. pr_conn p \<noteq> c) (members_of name m) = members_of name m" for name
    by (intro filter_True) (metis image_eqI)
  then show ?thesis using assms(2) None by (simp add: leave_def idFor_def)
next
  case (Some name)
  obtain r where r: "map_of (rg_rooms m) name = Some r" "sig_room_ok m name r"
    "id_of_conn c (sr_participants r) \<noteq> 0" by (rule rm_ok_member [OF assms(1) Some])
  have other: "filter (\<lambda>p. pr_conn p \<noteq> c) (members_of name' m) = members_of name' m" if "name' \<noteq> name" for name'
    using members_ok [OF assms(1), of name'] Some that by (intro filter_True) (auto simp: peer_ok_def)
  have "map_of (rg_connRoom m') c = None" using leave_none [OF assms(1), of c] assms(2) by simp
  then show ?thesis using leave_eq [OF assms(1) Some r(1)] assms(2) Some r(1,3) other
    by (auto simp: members_of_def idFor_def alist_simps)
qed

text \<open>C13. Relaying: an offer, answer or candidate of a participant goes to exactly the addressed
  participant of its own room (NotFound when the room has no such id), or, with no addressee, to
  exactly the other participants of its room, each once; another message type is refused with
  Protocol and an outsider with NotFound, and then nothing is sent.\<close>

theorem relay_recipients:
  assumes "rm_ok m"
  shows "relay c type to raw m =
    (if type \<notin> {''offer'', ''answer'', ''ice''} then (Inl Protocol, [])
     else case map_of (rg_connRoom m) c of
        None \<Rightarrow> (Inl NotFound, [])
      | Some name \<Rightarrow>
          if to = 0 then (Inr (), map (\<lambda>p. (pr_conn p, RelayedText raw)) (filter (\<lambda>p. pr_conn p \<noteq> c) (members_of name m)))
          else (case filter (\<lambda>p. pr_id p = to) (members_of name m) of
                  [p] \<Rightarrow> (Inr (), [(pr_conn p, RelayedText raw)])
                | _ \<Rightarrow> (Inl NotFound, [])))"
proof -
  have find: "filter (\<lambda>p. pr_id p = to) ps = (case find_peer to ps of None \<Rightarrow> [] | Some p \<Rightarrow> [p])"
    if "distinct (map pr_id ps)" for ps
    using that
  proof (induction ps)
    case (Cons p ps)
    show ?case
    proof (cases "pr_id p = to")
      case True
      then have "filter (\<lambda>q. pr_id q = to) ps = []" using Cons.prems by (simp add: filter_empty_conv) (metis image_eqI)
      with True show ?thesis by simp
    qed (use Cons in simp)
  qed simp
  show ?thesis
  proof (cases "map_of (rg_connRoom m) c")
    case None
    then show ?thesis by (simp add: relay_def roomOf_def fail_def)
  next
    case (Some name)
    obtain r where r: "map_of (rg_rooms m) name = Some r" "sig_room_ok m name r"
      "id_of_conn c (sr_participants r) \<noteq> 0" by (rule rm_ok_member [OF assms Some])
    have "distinct (map pr_id (sr_participants r))" using r(2) by (simp add: sig_room_ok_def)
    from find [OF this] show ?thesis using Some r(1,3)
      by (simp add: relay_def roomOf_def members_of_def fail_def ok_def split: option.splits)
  qed
qed

definition is_string :: "json option \<Rightarrow> bool" where
  "is_string v \<longleftrightarrow> (case v of None \<Rightarrow> True | Some (JString s) \<Rightarrow> True | Some _ \<Rightarrow> False)"

definition is_number :: "json option \<Rightarrow> bool" where
  "is_number v \<longleftrightarrow> (case v of None \<Rightarrow> True | Some (JInt n) \<Rightarrow> True | Some _ \<Rightarrow> False)"

text \<open>C26. When the message handler throws: the handler returns normally except on a JSON object in
  which a field it reads is present with another type (\<open>type\<close>, then \<open>room\<close> of a join, or
  \<open>to\<close> of a relay from a participant); nothing catches that exception, so one such frame from
  any client ends the server.\<close>

theorem handler_throws_iff:
  "on_message P D c isText msg m = None \<longleftrightarrow> isText \<and> (\<exists>obj. P msg = Some (JObject obj) \<and>
     (\<not> is_string (map_of obj ''type'') \<or>
      (map_of obj ''type'' = Some (JString ''join'') \<and> \<not> is_string (map_of obj ''room'')) \<or>
      (map_of obj ''type'' \<in> {Some (JString ''offer''), Some (JString ''answer''), Some (JString ''ice'')} \<and>
       idFor c m \<noteq> 0 \<and> \<not> is_number (map_of obj ''to''))))"
proof (cases "P msg")
  case None
  then show ?thesis by (simp add: on_message_def)
next
  case (Some v)
  have vs: "value_string k d obj = None \<longleftrightarrow> \<not> is_string (map_of obj k)" for k d obj
    by (simp add: value_string_def is_string_def split: option.splits json.splits)
  have vn: "value_u64 k d obj = None \<longleftrightarrow> \<not> is_number (map_of obj k)" for k d obj
    by (simp add: value_u64_def is_number_def split: option.splits json.splits)
  show ?thesis
  proof (cases "\<exists>obj. v = JObject obj")
    case False
    then show ?thesis using Some by (cases v) (simp_all add: on_message_def)
  next
    case True
    then obtain obj where obj: "v = JObject obj" by blast
    have none: "(case join r c m of (x, m', out) \<Rightarrow> (case x of Inr i \<Rightarrow> Some (m', out)
        | Inl e \<Rightarrow> Some (m', out @ [(c, ErrorText (if e = ResourceExhausted then ''room is full''
            else ''invalid join request''))]))) \<noteq> None" for r
      by (simp split: prod.splits sum.splits)
    show ?thesis
    proof (cases "value_string ''type'' [] obj")
      case None
      then have "\<not> is_string (map_of obj ''type'')" using vs by blast
      then show ?thesis using Some obj by (simp add: on_message_def None)
    next
      case (Some type)
      then have t: "is_string (map_of obj ''type'')" using vs by (metis option.distinct(1))
      have ty: "map_of obj ''type'' = Some (JString x) \<longleftrightarrow> type = x" if "x \<noteq> []" for x
        using Some that by (auto simp: value_string_def split: option.splits json.splits)
      show ?thesis
        using \<open>P msg = Some v\<close> obj Some t none vs [of "''room''" "[]" obj] vn [of "''to''" 0 obj]
        by (cases "value_string ''room'' [] obj"; cases "value_u64 ''to'' 0 obj")
          (auto simp: on_message_def Let_def ty split_beta)
    qed
  qed
qed

section \<open>Concrete runs\<close>

text \<open>A parser under which every text is a join of the room it names, and a two-party room.\<close>

definition demo_parse :: "string \<Rightarrow> json option" where
  "demo_parse s = Some (JObject [(''type'', JString ''join''), (''room'', JString s)])"

definition demo_dump :: "json \<Rightarrow> string" where
  "demo_dump j = ''{}''"

definition demo_manager :: room_manager where
  "demo_manager = \<lparr>rg_nextId = 3,
     rg_rooms = [(''r'', \<lparr>sr_name = ''r'', sr_participants = [\<lparr>pr_id = 1, pr_conn = 10\<rparr>, \<lparr>pr_id = 2, pr_conn = 20\<rparr>]\<rparr>)],
     rg_connRoom = [(10, ''r''), (20, ''r'')]\<rparr>"

definition demo_manager1 :: room_manager where
  "demo_manager1 = \<lparr>rg_nextId = 2,
     rg_rooms = [(''r'', \<lparr>sr_name = ''r'', sr_participants = [\<lparr>pr_id = 1, pr_conn = 10\<rparr>]\<rparr>)],
     rg_connRoom = [(10, ''r'')]\<rparr>"

lemma demo_joins:
  "join ''r'' 10 new_room_manager = (Inr 1, demo_manager1, [(10, Joined ''r'' 1 [])])"
  "join ''r'' 20 demo_manager1 = (Inr 2, demo_manager, [(20, Joined ''r'' 2 [1]), (10, PeerJoined ''r'' 2)])"
  by (simp_all add: join_def new_room_manager_def Let_def sig_kMaxParticipants_def demo_manager_def demo_manager1_def)

lemma demo_reachable: "rm_reachable demo_parse demo_dump 2 demo_manager"
proof -
  have "on_message demo_parse demo_dump 10 True ''r'' new_room_manager = Some (demo_manager1, [(10, Joined ''r'' 1 [])])"
    by (simp add: on_message_def demo_parse_def value_string_def Let_def demo_joins(1))
  then have 1: "rm_reachable demo_parse demo_dump (Suc 0) demo_manager1"
    by (rule rm_reachable.message [OF rm_reachable.start, rotated]) simp
  have "on_message demo_parse demo_dump 20 True ''r'' demo_manager1 =
      Some (demo_manager, [(20, Joined ''r'' 2 [1]), (10, PeerJoined ''r'' 2)])"
    by (simp add: on_message_def demo_parse_def value_string_def Let_def demo_joins(2))
  then have "rm_reachable demo_parse demo_dump (Suc (Suc 0)) demo_manager"
    by (rule rm_reachable.message [OF 1, rotated]) simp
  then show ?thesis by (simp add: numeral_2_eq_2)
qed

lemma demo_ok: "rm_ok demo_manager"
  using reachable_ok [OF demo_reachable] by simp

lemma registry_invariant_witness:
  "map_of (rg_connRoom demo_manager) 10 = Some ''r'' \<and> 10 \<in> pr_conn ` set (members_of ''r'' demo_manager)"
proof -
  have "map_of (rg_connRoom demo_manager) 10 = Some ''r''" by (simp add: demo_manager_def)
  then show ?thesis using registry_invariant [OF demo_reachable] by simp
qed

lemma join_effect_witness:
  "idFor 30 (fst (snd (join ''r'' 30 demo_manager))) = 3 \<and>
   snd (snd (join ''r'' 30 demo_manager)) = [(30, Joined ''r'' 3 [1, 2]), (10, PeerJoined ''r'' 3), (20, PeerJoined ''r'' 3)]"
proof -
  have "leave 30 demo_manager = (demo_manager, [])" by (simp add: leave_def demo_manager_def)
  moreover have "fst (join ''r'' 30 demo_manager) = Inr 3"
    by (simp add: join_def demo_manager_def Let_def sig_kMaxParticipants_def)
  ultimately show ?thesis
    using join_effect [OF demo_ok, of "''r''" 30 demo_manager "[]"]
    by (auto simp: demo_manager_def members_of_def split: prod.splits)
qed

lemma leave_effect_witness:
  "idFor 10 (fst (leave 10 demo_manager)) = 0 \<and> snd (leave 10 demo_manager) = [(20, PeerLeft ''r'' 1)]"
  using leave_effect [OF demo_ok, of 10 "fst (leave 10 demo_manager)" "snd (leave 10 demo_manager)"]
  by (simp add: demo_manager_def idFor_def members_of_def)

lemma relay_recipients_witness:
  "relay 10 ''offer'' 0 ''x'' demo_manager = (Inr (), [(20, RelayedText ''x'')]) \<and>
   relay 10 ''offer'' 2 ''x'' demo_manager = (Inr (), [(20, RelayedText ''x'')])"
  using relay_recipients [OF demo_ok, of 10 "''offer''" 0 "''x''"] relay_recipients [OF demo_ok, of 10 "''offer''" 2 "''x''"]
  by (simp add: demo_manager_def members_of_def)

lemma handler_throws_iff_witness:
  "on_message (\<lambda>s. Some (JObject [(''type'', JInt 1)])) demo_dump 10 True ''x'' demo_manager = None"
  unfolding handler_throws_iff by (simp add: is_string_def)

end
