(* ===== verification/AvSync.thy ===== *)
theory AvSync
  imports Common
begin

text \<open>
  Clock arithmetic and lip synchronisation: \<^verbatim>\<open>MediaClock\<close> of src/src/common/Clock.h
  and \<^verbatim>\<open>AVSync\<close> of src/src/media. Instants are integers: nanoseconds on the steady
  clock, ticks of the platform's system clock on the wall clock, where \<open>tick\<close> (the nanoseconds
  per tick: 1 on Linux, 1000 on macOS) is a parameter. The 128-bit intermediate products of the
  code cannot overflow, so they are unbounded integers here.
\<close>

type_synonym system_time = int

section \<open>MediaClock\<close>

record ntp_timestamp =
  ntp_seconds :: u32
  ntp_fraction :: u32

definition kNtpUnixOffset :: int where
  "kNtpUnixOffset = 2208988800"

definition toRtp :: "steady_time \<Rightarrow> steady_time \<Rightarrow> u32 \<Rightarrow> u32" where
  "toRtp t epoch clockRateHz =
    (let elapsed = t - epoch; ticks = tdiv (elapsed * uint clockRateHz) 1000000000
     in word_of_int ticks)"

definition toNtp :: "int \<Rightarrow> system_time \<Rightarrow> ntp_timestamp" where
  "toNtp tick wall =
    (let sinceEpoch = wall * tick; secs = tdiv sinceEpoch 1000000000;
         frac = sinceEpoch - secs * 1000000000
     in \<lparr>ntp_seconds = word_of_int (secs + kNtpUnixOffset),
         ntp_fraction = word_of_int (tdiv (frac * 2 ^ 32) 1000000000)\<rparr>)"

section \<open>AVSync\<close>

record anchor =
  an_rtpTimestamp :: u32
  an_wall :: system_time
  an_clockRateHz :: u32

type_synonym avsync = "(u32 \<times> anchor) list"

definition ntpToSystem :: "int \<Rightarrow> ntp_timestamp \<Rightarrow> system_time" where
  "ntpToSystem tick ntp =
    (let unixSeconds = uint (ntp_seconds ntp) - kNtpUnixOffset;
         fracNanos = (uint (ntp_fraction ntp) * 1000000000) div 2 ^ 32;
         dur = unixSeconds * 1000000000 + fracNanos
     in tdiv dur tick)"

definition onSenderReport :: "int \<Rightarrow> u32 \<Rightarrow> u32 \<Rightarrow> ntp_timestamp \<Rightarrow> u32 \<Rightarrow> avsync \<Rightarrow> avsync" where
  "onSenderReport tick sr rtp ntp clockRateHz a =
    (if clockRateHz = 0 then a
     else AList.update sr \<lparr>an_rtpTimestamp = rtp, an_wall = ntpToSystem tick ntp,
            an_clockRateHz = clockRateHz\<rparr> a)"

definition playoutTime :: "int \<Rightarrow> u32 \<Rightarrow> u32 \<Rightarrow> avsync \<Rightarrow> system_time option" where
  "playoutTime tick sr rtp anchors =
    (case map_of anchors sr of
       None \<Rightarrow> None
     | Some a \<Rightarrow>
         let deltaTicks = sint (rtp - an_rtpTimestamp a);
             deltaNanos = tdiv (deltaTicks * 1000000000) (uint (an_clockRateHz a))
         in Some (an_wall a + tdiv deltaNanos tick))"

definition hasMapping :: "u32 \<Rightarrow> avsync \<Rightarrow> bool" where
  "hasMapping sr a \<longleftrightarrow> map_of a sr \<noteq> None"

section \<open>NTP timestamps\<close>

lemma ntp_fraction_bounds:
  assumes "0 \<le> f" "f < 1000000000"
  shows "0 \<le> tdiv (f * 2 ^ 32) 1000000000 \<and> tdiv (f * 2 ^ 32) 1000000000 < 2 ^ 32 \<and>
    (tdiv (f * 2 ^ 32) 1000000000 * 1000000000) div 2 ^ 32 \<in> {f - 1, f}"
proof -
  define q where "q = f * 2 ^ 32 div 1000000000"
  have q: "tdiv (f * 2 ^ 32) 1000000000 = q" using assms by (simp add: q_def tdiv_nonneg)
  have b: "f * 2 ^ 32 - 1000000000 < q * 1000000000" "q * 1000000000 \<le> f * 2 ^ 32"
    unfolding q_def using div_mult_mod_eq [of "f * 2 ^ 32" 1000000000]
      pos_mod_bound [of 1000000000 "f * 2 ^ 32"] pos_mod_sign [of 1000000000 "f * 2 ^ 32"] by linarith+
  have "0 \<le> q" using assms by (simp add: q_def)
  moreover have "q < 2 ^ 32" using b(2) assms by simp
  moreover have "f - 1 \<le> q * 1000000000 div 2 ^ 32" using b by simp
  moreover have "q * 1000000000 div 2 ^ 32 \<le> f" using b by simp
  ultimately show ?thesis unfolding q by auto
qed

lemma tdiv_step:
  assumes "0 < t" "e \<in> {0, 1}"
  shows "tdiv (t * n - e) t \<in> {n - 1, n}"
proof -
  have "\<bar>t * tdiv (t * n - e) t - (t * n - e)\<bar> < t" by (rule tdiv_bounds [OF assms(1)])
  then have "\<bar>t * (tdiv (t * n - e) t - n) + e\<bar> < t" by (simp add: algebra_simps)
  moreover have "t * x + e \<ge> t" if "x \<ge> 1" for x
  proof -
    have "t * 1 \<le> t * x" using that assms(1) by (intro mult_left_mono) auto
    then show ?thesis using assms(2) by auto
  qed
  moreover have "t * x + e \<le> - t" if "x \<le> -2" for x
  proof -
    have "t * x \<le> t * (-2)" using that assms(1) by (intro mult_left_mono) auto
    then show ?thesis using assms by auto
  qed
  ultimately have "tdiv (t * n - e) t - n < 1" "tdiv (t * n - e) t - n > -2" by (smt (verit))+
  then show ?thesis by auto
qed

text \<open>NTP timestamps survive the round trip: an instant of the Unix era converted to NTP and
  back is the same tick of the wall clock or the one before it, as long as the 32-bit NTP seconds
  do not wrap. They wrap in February 2036 (\<open>k\<close> wraps are \<open>k\<close> times 136 years): from then on
  the converted instant is that much too early.\<close>

theorem ntp_roundtrip:
  assumes "0 < tick" "tick dvd 1000000000" "0 \<le> wall"
    "k = (wall * tick div 1000000000 + kNtpUnixOffset) div 2 ^ 32"
    "P = 2 ^ 32 * (1000000000 div tick)"
  shows "ntpToSystem tick (toNtp tick wall) \<in> {wall - k * P - 1, wall - k * P}"
proof -
  let ?s = "wall * tick div 1000000000" and ?f = "wall * tick mod 1000000000"
  have s: "tdiv (wall * tick) 1000000000 = ?s" using assms(1,3) by (simp add: tdiv_nonneg)
  have f: "wall * tick - ?s * 1000000000 = ?f" by (simp add: minus_div_mult_eq_mod)
  note fr = ntp_fraction_bounds [of ?f]
  obtain e where e: "e \<in> {0, 1}" "(tdiv (?f * 2 ^ 32) 1000000000 * 1000000000) div 2 ^ 32 = ?f - e"
    using fr by auto
  have frac: "uint (word_of_int (tdiv (?f * 2 ^ 32) 1000000000) :: u32) = tdiv (?f * 2 ^ 32) 1000000000"
    using fr by (simp add: uint_word_of_int)
  have secs: "uint (word_of_int (?s + kNtpUnixOffset) :: u32) = ?s + kNtpUnixOffset - k * 2 ^ 32"
    unfolding uint_word_of_int assms(4) minus_div_mult_eq_mod take_bit_eq_mod by simp
  obtain d where d: "1000000000 = tick * d" using assms(2) unfolding dvd_def by blast
  have "tick * d div tick = d" using assms(1) by (intro nonzero_mult_div_cancel_left) simp
  then have dd: "1000000000 div tick = d" by (simp only: d)
  have "(?s + kNtpUnixOffset - k * 2 ^ 32 - kNtpUnixOffset) * 1000000000 + (?f - e) = tick * (wall - k * P) - e"
  proof -
    have "?s * 1000000000 + ?f = wall * tick" by simp
    moreover have "k * 2 ^ 32 * 1000000000 = tick * (k * P)"
      unfolding assms(5) dd d by (simp add: algebra_simps)
    ultimately show ?thesis by (simp add: algebra_simps)
  qed
  then have "ntpToSystem tick (toNtp tick wall) = tdiv (tick * (wall - k * P) - e) tick"
    by (simp only: ntpToSystem_def toNtp_def Let_def s f ntp_timestamp.select_convs secs frac e(2))
  then show ?thesis using tdiv_step [OF assms(1) e(1), of "wall - k * P"] by simp
qed

section \<open>Lip synchronisation\<close>

text \<open>The sender's clock: the RTP ticks of an instant, before the wrap.\<close>

definition rtp_ticks :: "steady_time \<Rightarrow> steady_time \<Rightarrow> u32 \<Rightarrow> int" where
  "rtp_ticks t epoch rate = (t - epoch) * uint rate div 1000000000"

lemma rtp_ticks_bounds:
  "(t - epoch) * uint rate - 1000000000 < rtp_ticks t epoch rate * 1000000000 \<and>
   rtp_ticks t epoch rate * 1000000000 \<le> (t - epoch) * uint rate"
  unfolding rtp_ticks_def
  using div_mult_mod_eq [of "(t - epoch) * uint rate" 1000000000]
    pos_mod_bound [of 1000000000 "(t - epoch) * uint rate"] pos_mod_sign [of 1000000000 "(t - epoch) * uint rate"]
  by linarith

lemma toRtp_ticks: "epoch \<le> t \<Longrightarrow> toRtp t epoch rate = word_of_int (rtp_ticks t epoch rate)"
  by (simp add: toRtp_def rtp_ticks_def tdiv_nonneg)

lemma sint_diff: "\<bar>a - b\<bar> < 2 ^ 31 \<Longrightarrow> sint (word_of_int a - word_of_int b :: u32) = a - b"
proof -
  assume a: "\<bar>a - b\<bar> < 2 ^ 31"
  have "word_of_int a - word_of_int b = (word_of_int (a - b) :: u32)" by simp
  moreover have "sint (word_of_int (a - b) :: u32) = signed_take_bit 31 (a - b)"
    by (simp only: sint_sbintrunc') simp
  ultimately show ?thesis using a by (simp add: signed_take_bit_int_eq_self)
qed

text \<open>One stream: a sample taken at \<open>t\<close> and a sender report taken at \<open>t0\<close> on the same stream,
  both stamped by \<^verbatim>\<open>toRtp\<close>; scaled by the rate, the playout instant is the report's wall
  time plus the distance of the two instants, up to one RTP tick and one nanosecond.\<close>

lemma playout_error:
  assumes "map_of s sr = Some \<lparr>an_rtpTimestamp = toRtp t0 epoch rate, an_wall = w0, an_clockRateHz = rate\<rparr>"
    "0 < uint rate" "epoch \<le> t0" "epoch \<le> t" "\<bar>(t - t0) * uint rate\<bar> < (2 ^ 31 - 1) * 1000000000"
    "playoutTime 1 sr (toRtp t epoch rate) s = Some p"
  shows "\<bar>uint rate * (p - w0 - (t - t0))\<bar> < 1000000000 + uint rate"
proof -
  define d where "d = rtp_ticks t epoch rate - rtp_ticks t0 epoch rate"
  have near: "\<bar>d * 1000000000 - (t - t0) * uint rate\<bar> < 1000000000"
    using rtp_ticks_bounds [of t epoch rate] rtp_ticks_bounds [of t0 epoch rate]
    by (simp add: d_def algebra_simps abs_less_iff)
  then have "\<bar>d\<bar> < 2 ^ 31" using assms(5) by (simp add: abs_less_iff)
  then have "sint (toRtp t epoch rate - toRtp t0 epoch rate) = d"
    using sint_diff [of "rtp_ticks t epoch rate" "rtp_ticks t0 epoch rate"] assms(3,4)
    by (simp add: toRtp_ticks d_def)
  then have "p = w0 + tdiv (d * 1000000000) (uint rate)"
    using assms(1,6) by (simp add: playoutTime_def Let_def)
  moreover have "\<bar>uint rate * tdiv (d * 1000000000) (uint rate) - d * 1000000000\<bar> < uint rate"
    by (rule tdiv_bounds [OF assms(2)])
  ultimately have "uint rate * (p - w0 - (t - t0)) = (uint rate * tdiv (d * 1000000000) (uint rate) - d * 1000000000)
      + (d * 1000000000 - (t - t0) * uint rate)"
    by (simp add: algebra_simps)
  then show ?thesis using near \<open>\<bar>uint rate * tdiv _ _ - _\<bar> < uint rate\<close> by linarith
qed


lemma ntp_roundtrip_witness: "ntpToSystem 1 (toNtp 1 1700000000123456789) \<in> {1700000000123456788, 1700000000123456789}"
  using ntp_roundtrip [of 1 1700000000123456789 0 "2 ^ 32 * (1000000000 div 1)"]
  by (simp add: kNtpUnixOffset_def)

definition demo_sync :: avsync where
  "demo_sync = [(1, \<lparr>an_rtpTimestamp = toRtp 1000 0 kVideoRtpClockHz, an_wall = 501000, an_clockRateHz = kVideoRtpClockHz\<rparr>),
     (2, \<lparr>an_rtpTimestamp = toRtp 2000 0 kAudioRtpClockHz, an_wall = 502000, an_clockRateHz = kAudioRtpClockHz\<rparr>)]"


end
