(* ===== verification/Metrics.thy ===== *)
theory Metrics
  imports Prelude Double
begin

text \<open>
  Runtime metrics, src/src/metrics/Metrics.cpp: the fixed-bucket latency histogram, the
  wrap-aware loss estimator and the CPU sampler, with their readings in floating point.
\<close>

section \<open>LatencyHistogram\<close>

record histogram =
  hg_bucketUs :: u32
  hg_maxUs :: u32
  hg_buckets :: "u64 list"
  hg_count :: u64
  hg_sum :: u64
  hg_min :: u64
  hg_max :: u64

definition new_histogram :: "u32 \<Rightarrow> u32 \<Rightarrow> histogram" where
  "new_histogram bucketUs maxUs =
    (let b = (if bucketUs = 0 then 1 else bucketUs) in
     \<lparr>hg_bucketUs = b, hg_maxUs = maxUs, hg_buckets = replicate (unat maxUs div unat b + 1) 0,
      hg_count = 0, hg_sum = 0, hg_min = 0, hg_max = 0\<rparr>)"

definition bucket_index :: "histogram \<Rightarrow> u64 \<Rightarrow> nat" where
  "bucket_index h us =
    (let idx = unat us div unat (hg_bucketUs h)
     in if idx \<ge> length (hg_buckets h) then length (hg_buckets h) - 1 else idx)"

definition record_sample :: "histogram \<Rightarrow> u64 \<Rightarrow> histogram" where
  "record_sample h us =
    (let i = bucket_index h us in
     h\<lparr>hg_buckets := (hg_buckets h)[i := hg_buckets h ! i + 1],
       hg_min := (if hg_count h = 0 \<or> us < hg_min h then us else hg_min h),
       hg_max := (if us > hg_max h then us else hg_max h),
       hg_sum := hg_sum h + us,
       hg_count := hg_count h + 1\<rparr>)"

definition hist_min :: "histogram \<Rightarrow> u64" where
  "hist_min h = (if hg_count h \<noteq> 0 then hg_min h else 0)"

text \<open>The loop of \<^verbatim>\<open>percentile\<close>: the first nonempty bucket at which the cumulative count
  reaches the target; \<open>None\<close> is the fall through to \<^verbatim>\<open>max_\<close>.\<close>

fun percentile_bucket :: "u64 \<Rightarrow> u64 \<Rightarrow> nat \<Rightarrow> u64 list \<Rightarrow> nat option" where
  "percentile_bucket target cumulative i [] = None"
| "percentile_bucket target cumulative i (b # bs) =
    (if cumulative + b \<ge> target \<and> b > 0 then Some i
     else percentile_bucket target (cumulative + b) (i + 1) bs)"

definition hist_reset :: "histogram \<Rightarrow> histogram" where
  "hist_reset h = h\<lparr>hg_buckets := replicate (length (hg_buckets h)) 0, hg_count := 0, hg_sum := 0,
     hg_min := 0, hg_max := 0\<rparr>"

section \<open>LossEstimator\<close>

record loss_estimator =
  le_init :: bool
  le_baseSeq :: u16
  le_maxSeq :: u16
  le_cycles :: u64
  le_received :: u64

definition new_loss_estimator :: loss_estimator where
  "new_loss_estimator = \<lparr>le_init = False, le_baseSeq = 0, le_maxSeq = 0, le_cycles = 0, le_received = 0\<rparr>"

definition observe :: "loss_estimator \<Rightarrow> u16 \<Rightarrow> loss_estimator" where
  "observe e s =
    (if \<not> le_init e then e\<lparr>le_init := True, le_baseSeq := s, le_maxSeq := s, le_received := 1\<rparr>
     else
       let e1 = e\<lparr>le_received := le_received e + 1\<rparr>; delta = s - le_maxSeq e1 in
       if delta \<noteq> 0 \<and> unat delta < 0x8000
       then e1\<lparr>le_cycles := (if s < le_maxSeq e1 then le_cycles e1 + 1 else le_cycles e1), le_maxSeq := s\<rparr>
       else e1)"

definition expected :: "loss_estimator \<Rightarrow> u64" where
  "expected e = (if \<not> le_init e then 0
     else let extendedMax = le_cycles e * 65536 + ucast (le_maxSeq e) in extendedMax - ucast (le_baseSeq e) + 1)"

definition lost :: "loss_estimator \<Rightarrow> u64" where
  "lost e = (let x = expected e in if x > le_received e then x - le_received e else 0)"

definition loss_reset :: "loss_estimator \<Rightarrow> loss_estimator" where
  "loss_reset e = new_loss_estimator"

section \<open>CpuSampler\<close>

record cpu_sampler =
  cs_lastCpuNs :: u64
  cs_lastWallNs :: u64

text \<open>Readings of the two clocks are arguments; the result is the pair whose quotient is the
  utilisation, \<open>None\<close> when no wall time has passed.\<close>

definition new_cpu_sampler :: "u64 \<Rightarrow> u64 \<Rightarrow> cpu_sampler" where
  "new_cpu_sampler cpu wall = \<lparr>cs_lastCpuNs = cpu, cs_lastWallNs = wall\<rparr>"

definition utilization :: "u64 \<Rightarrow> u64 \<Rightarrow> cpu_sampler \<Rightarrow> (u64 \<times> u64) option \<times> cpu_sampler" where
  "utilization cpu wall c =
    (let dCpu = cpu - cs_lastCpuNs c; dWall = wall - cs_lastWallNs c
     in (if dWall = 0 then None else Some (dCpu, dWall), \<lparr>cs_lastCpuNs = cpu, cs_lastWallNs = wall\<rparr>))"

section \<open>Readings in floating point\<close>

text \<open>A \<^verbatim>\<open>uint64_t\<close> converted to a double.\<close>

definition u64_double :: "u64 \<Rightarrow> rat" where
  "u64_double w = rnd (of_nat (unat w))"

definition hist_mean :: "histogram \<Rightarrow> rat" where
  "hist_mean h = (if hg_count h \<noteq> 0 then ddiv (u64_double (hg_sum h)) (u64_double (hg_count h)) else 0)"

definition clamp :: "rat \<Rightarrow> rat \<Rightarrow> rat \<Rightarrow> rat" where
  "clamp v lo hi = (if v < lo then lo else if hi < v then hi else v)"

definition percentile_target :: "rat \<Rightarrow> u64 \<Rightarrow> u64" where
  "percentile_target p n = of_int (d_to_int (dmul p (u64_double n)))"

definition percentile :: "rat \<Rightarrow> histogram \<Rightarrow> rat" where
  "percentile p h = (if hg_count h = 0 then 0
     else let p = clamp p 0 1; target = percentile_target p (hg_count h)
       in case percentile_bucket target 0 0 (hg_buckets h) of
            Some i \<Rightarrow> if i = length (hg_buckets h) - 1 then d_of_int (uint (hg_maxUs h))
              else dmul (dadd (d_of_int (int i)) (1 / 2)) (d_of_int (uint (hg_bucketUs h)))
          | None \<Rightarrow> u64_double (hg_max h))"

definition lossPercent :: "loss_estimator \<Rightarrow> rat" where
  "lossPercent e = (let x = expected e in if x = 0 then 0
     else ddiv (dmul 100 (u64_double (lost e))) (u64_double x))"

definition utilizationPercent :: "u64 \<Rightarrow> u64 \<Rightarrow> cpu_sampler \<Rightarrow> rat \<times> cpu_sampler" where
  "utilizationPercent cpu wall c = (case utilization cpu wall c of
     (None, c) \<Rightarrow> (0, c)
   | (Some (dCpu, dWall), c) \<Rightarrow> (ddiv (dmul 100 (u64_double dCpu)) (u64_double dWall), c))"

section \<open>What the histogram holds\<close>

lemma record_sample_shape [simp]:
  "length (hg_buckets (record_sample h us)) = length (hg_buckets h)"
  "hg_bucketUs (record_sample h us) = hg_bucketUs h"
  "bucket_index (record_sample h us) x = bucket_index h x"
  by (simp_all add: record_sample_def Let_def bucket_index_def)

lemma new_histogram_shape: "0 < length (hg_buckets (new_histogram b m))"
  by (simp add: new_histogram_def Let_def)

lemma bucket_index_less: "0 < length (hg_buckets h) \<Longrightarrow> bucket_index h us < length (hg_buckets h)"
  by (auto simp: bucket_index_def Let_def not_le)

definition record_all :: "histogram \<Rightarrow> u64 list \<Rightarrow> histogram" where
  "record_all = foldl record_sample"

lemma record_all_snoc: "record_all h (xs @ [x]) = record_sample (record_all h xs) x"
  by (simp add: record_all_def)

lemma unat_inc: "unat w < 2 ^ 64 - 1 \<Longrightarrow> unat (w + 1 :: u64) = unat w + 1"
proof -
  assume "unat w < 2 ^ 64 - 1"
  then have "of_nat (unat w + 1) = w + 1" "unat (of_nat (unat w + 1) :: u64) = unat w + 1"
    by (simp, intro unat_of_nat_less) simp
  then show ?thesis by metis
qed

lemma record_all_state:
  fixes b m :: u32
  defines "h \<equiv> new_histogram b m"
  assumes "length xs < 2 ^ 64"
  shows "length (hg_buckets (record_all h xs)) = length (hg_buckets h) \<and>
    (\<forall>x. bucket_index (record_all h xs) x = bucket_index h x) \<and>
    unat (hg_count (record_all h xs)) = length xs \<and>
    (\<forall>i<length (hg_buckets h). unat (hg_buckets (record_all h xs) ! i) = length (filter (\<lambda>x. bucket_index h x = i) xs)) \<and>
    (if xs = [] then hg_max (record_all h xs) = 0
     else hg_min (record_all h xs) = Min (set xs) \<and> hg_max (record_all h xs) = Max (set xs))"
  using assms(2)
proof (induction xs rule: rev_induct)
  case Nil
  have "replicate n (0 :: u64) ! i = 0" if "i < n" for i n using that by simp
  then show ?case by (simp add: record_all_def h_def new_histogram_def Let_def del: replicate_Suc)
next
  case (snoc x xs)
  let ?g = "record_all h xs"
  have ih: "length (hg_buckets ?g) = length (hg_buckets h)" "\<And>x. bucket_index ?g x = bucket_index h x"
    "unat (hg_count ?g) = length xs"
    "\<And>i. i < length (hg_buckets h) \<Longrightarrow> unat (hg_buckets ?g ! i) = length (filter (\<lambda>x. bucket_index h x = i) xs)"
    "if xs = [] then hg_max ?g = 0 else hg_min ?g = Min (set xs) \<and> hg_max ?g = Max (set xs)"
    using snoc by auto
  have small: "length xs < 2 ^ 64 - 1" using snoc.prems by simp
  have idx: "bucket_index h x < length (hg_buckets h)"
    using bucket_index_less [OF new_histogram_shape [of b m]] by (simp add: h_def)
  have c0: "hg_count ?g = 0 \<longleftrightarrow> xs = []" using ih(3) by (metis length_0_conv unat_eq_zero unat_0)
  have cnt: "unat (hg_count ?g + 1) = length xs + 1" using ih(3) small by (simp add: unat_inc)
  have bk: "unat (hg_buckets ?g ! bucket_index h x + 1) = length (filter (\<lambda>y. bucket_index h y = bucket_index h x) xs) + 1"
    using ih(4) [OF idx] small le_less_trans [OF length_filter_le small] by (simp add: unat_inc)
  have mm: "xs \<noteq> [] \<Longrightarrow> Min (insert x (set xs)) = min x (Min (set xs))"
    "xs \<noteq> [] \<Longrightarrow> Max (insert x (set xs)) = max x (Max (set xs))" by (simp_all add: Min_insert Max_insert)
  have "unat (hg_buckets (record_all h (xs @ [x])) ! i) = length (filter (\<lambda>x. bucket_index h x = i) (xs @ [x]))"
    if "i < length (hg_buckets h)" for i
    using that ih bk idx by (auto simp: record_all_snoc record_sample_def Let_def nth_list_update)
  moreover have "hg_min (record_all h (xs @ [x])) = Min (set (xs @ [x])) \<and> hg_max (record_all h (xs @ [x])) = Max (set (xs @ [x]))"
  proof -
    have "hg_min (record_all h (xs @ [x])) = (if xs = [] then x else min x (hg_min ?g))"
      "hg_max (record_all h (xs @ [x])) = max x (hg_max ?g)"
      unfolding record_all_snoc record_sample_def Let_def using c0 by (auto simp: min_def max_def)
    then show ?thesis using ih(5) mm by (cases "xs = []") simp_all
  qed
  ultimately show ?case
    using ih cnt by (simp add: record_all_snoc) (simp add: record_sample_def Let_def)
qed

lemma sum_filter_buckets:
  fixes n :: nat
  shows "\<forall>x\<in>set xs. f x < n \<Longrightarrow> (\<Sum>i<n. length (filter (\<lambda>x. f x = i) xs)) = length xs"
proof (induction xs)
  case (Cons x xs)
  have "(\<Sum>i<n. length (filter (\<lambda>x. f x = i) (x # xs))) =
      (\<Sum>i<n. (if i = f x then 1 else 0) + length (filter (\<lambda>x. f x = i) xs))"
    by (intro sum.cong) auto
  also have "\<dots> = (\<Sum>i<n. if i = f x then 1 else 0) + length xs" using Cons by (simp add: sum.distrib)
  also have "(\<Sum>i<n. if i = f x then 1 else 0) = (1 :: nat)" using Cons.prems by (subst sum.delta) auto
  finally show ?case by simp
qed simp

text \<open>The histogram counts every sample once: after any series of at most \<open>2^64 - 1\<close> samples
  the count is their number, every bucket holds exactly the number of samples that fall into it
  (those beyond the range are in the last one), so the buckets add up to the count, and min and max
  are the smallest and largest sample.\<close>

theorem histogram_counts:
  assumes "length xs < 2 ^ 64" "xs \<noteq> []" "h = new_histogram b m" "g = record_all h xs"
  shows "unat (hg_count g) = length xs \<and>
    (\<forall>i<length (hg_buckets h). unat (hg_buckets g ! i) = length (filter (\<lambda>x. bucket_index h x = i) xs)) \<and>
    (\<Sum>i<length (hg_buckets g). unat (hg_buckets g ! i)) = length xs \<and>
    hist_min g = Min (set xs) \<and> hg_max g = Max (set xs)"
proof -
  note st = record_all_state [OF assms(1), of b m, folded assms(3), folded assms(4)]
  have "(\<Sum>i<length (hg_buckets g). unat (hg_buckets g ! i)) =
      (\<Sum>i<length (hg_buckets h). length (filter (\<lambda>x. bucket_index h x = i) xs))"
    using st by (intro sum.cong) auto
  also have "\<dots> = length xs"
    using bucket_index_less [of h] assms(3) new_histogram_shape by (intro sum_filter_buckets) auto
  finally show ?thesis using st assms(2) by (auto simp: hist_min_def) 
qed

lemma percentile_search:
  "\<lbrakk>unat c + sum_list (map unat bs) < 2 ^ 64; unat target \<le> unat c + sum_list (map unat bs);
    0 < sum_list (map unat bs)\<rbrakk> \<Longrightarrow>
   \<exists>i<length bs. percentile_bucket target c k bs = Some (k + i) \<and> 0 < bs ! i \<and>
    unat target \<le> unat c + sum_list (map unat (take (Suc i) bs)) \<and>
    (\<forall>j<i. 0 < bs ! j \<longrightarrow> unat c + sum_list (map unat (take (Suc j) bs)) < unat target)"
proof (induction target c k bs rule: percentile_bucket.induct)
  case (2 target c k b bs)
  have add: "unat (c + b) = unat c + unat b"
    using 2(2) by (subst unat_add_lem [THEN iffD1]) auto
  show ?case
  proof (cases "c + b \<ge> target \<and> b > 0")
    case True
    then show ?thesis using add by (intro exI [of _ 0]) (auto simp: word_le_nat_alt)
  next
    case False
    have "0 < sum_list (map unat bs)"
    proof (cases "b > 0")
      case True
      then have "unat c + unat b < unat target" using False add by (simp add: word_le_nat_alt)
      then show ?thesis using 2(3) by simp
    next
      case False
      then have "b = 0" using word_gt_0 by blast
      then show ?thesis using 2(4) by simp
    qed
    then obtain i where i: "i < length bs" "percentile_bucket target (c + b) (k + 1) bs = Some (k + 1 + i)" "0 < bs ! i"
      "unat target \<le> unat (c + b) + sum_list (map unat (take (Suc i) bs))"
      "\<forall>j<i. 0 < bs ! j \<longrightarrow> unat (c + b) + sum_list (map unat (take (Suc j) bs)) < unat target"
      using 2(1) [OF False] 2(2,3) add by auto
    have "unat c + sum_list (map unat (take (Suc j) (b # bs))) < unat target"
      if "j < Suc i" "0 < (b # bs) ! j" for j
      using that i(5) add False by (cases j) (auto simp: word_le_nat_alt)
    then show ?thesis using i add False by (intro exI [of _ "Suc i"]) auto
  qed
qed simp

text \<open>Percentile search: when the target does not exceed the total count, the loop stops at a
  bucket that is not empty, at which the cumulative count has reached the target and before which
  (counting nonempty buckets) it had not; it never falls through.\<close>

theorem percentile_finds_bucket:
  assumes "sum_list (map unat bs) < 2 ^ 64" "unat target \<le> sum_list (map unat bs)" "0 < sum_list (map unat bs)"
  shows "\<exists>i<length bs. percentile_bucket target 0 0 bs = Some i \<and> 0 < bs ! i \<and>
    unat target \<le> sum_list (map unat (take (Suc i) bs)) \<and>
    (\<forall>j<i. 0 < bs ! j \<longrightarrow> sum_list (map unat (take (Suc j) bs)) < unat target)"
  using percentile_search [of 0 bs target 0] assms by simp

section \<open>Loss estimation against an unbounded counter\<close>

text \<open>The sender numbers its packets \<open>n0, n0 + 1, \<dots>\<close> without bound; the receiver sees the low 16
  bits. \<open>tracks n0 hi cnt e\<close>: the estimator stands for the highest packet \<open>hi\<close> and \<open>cnt\<close>
  packets received.\<close>

definition tracks :: "nat \<Rightarrow> nat \<Rightarrow> nat \<Rightarrow> loss_estimator \<Rightarrow> bool" where
  "tracks n0 hi cnt e \<longleftrightarrow> le_init e \<and> n0 \<le> hi \<and> le_baseSeq e = of_nat n0 \<and> le_maxSeq e = of_nat hi \<and>
     le_cycles e = of_nat (hi div 65536 - n0 div 65536) \<and> le_received e = of_nat cnt"

lemma of_nat_u16: "unat (of_nat n :: u16) = n mod 65536"
  by (simp add: unsigned_of_nat take_bit_eq_mod)

lemma tracks_first: "tracks n0 n0 1 (observe new_loss_estimator (of_nat n0))"
  by (simp add: tracks_def observe_def new_loss_estimator_def)

lemma u16_delta:
  assumes "hi \<le> n + 65536"
  shows "unat (of_nat n - of_nat hi :: u16) = (n + 65536 - hi) mod 65536"
proof -
  have "(of_nat (n + 65536 - hi) + of_nat hi :: u16) = of_nat (n + 65536 - hi + hi)" by (simp only: of_nat_add)
  also have "\<dots> = of_nat n + of_nat 65536" using assms by simp
  also have "(of_nat 65536 :: u16) = 0" by simp
  finally have "(of_nat n - of_nat hi :: u16) = of_nat (n + 65536 - hi)" by (simp add: algebra_simps)
  then show ?thesis by (simp only: of_nat_u16)
qed

lemma div_step:
  fixes hi n :: nat
  assumes "hi < n" "n - hi < 32768"
  shows "n mod 65536 < hi mod 65536 \<longleftrightarrow> n div 65536 = hi div 65536 + 1"
    "\<not> n mod 65536 < hi mod 65536 \<Longrightarrow> n div 65536 = hi div 65536"
proof -
  define a r d where "a = hi div 65536" and "r = hi mod 65536" and "d = n - hi"
  have n: "n = (r + d) + a * 65536" using assms(1) by (simp add: a_def r_def d_def)
  have r: "r < 65536" "d < 32768" using assms(2) by (simp_all add: r_def d_def)
  have q: "n div 65536 = (r + d) div 65536 + a" "n mod 65536 = (r + d) mod 65536" unfolding n by simp_all
  show "n mod 65536 < hi mod 65536 \<longleftrightarrow> n div 65536 = hi div 65536 + 1"
    "\<not> n mod 65536 < hi mod 65536 \<Longrightarrow> n div 65536 = hi div 65536"
  proof -
    consider "r + d < 65536" | "65536 \<le> r + d" by linarith
    then have "(n mod 65536 < r \<longleftrightarrow> n div 65536 = a + 1) \<and> (\<not> n mod 65536 < r \<longrightarrow> n div 65536 = a)"
    proof cases
      case 1
      then show ?thesis unfolding q by simp
    next
      case 2
      then obtain x where x: "r + d = x + 65536" by (metis le_add_diff_inverse2)
      then have "x < 65536" "x < r" using r by linarith+
      then show ?thesis unfolding q x by simp
    qed
    then show "n mod 65536 < hi mod 65536 \<longleftrightarrow> n div 65536 = hi div 65536 + 1"
      "\<not> n mod 65536 < hi mod 65536 \<Longrightarrow> n div 65536 = hi div 65536"
      by (simp_all add: a_def r_def)
  qed
qed

lemma tracks_observe:
  assumes "tracks n0 hi cnt e" "n < hi + 32768" "hi \<le> n + 32767"
  shows "tracks n0 (max hi n) (cnt + 1) (observe e (of_nat n))"
proof (cases "hi < n")
  case True
  then have m: "n + 65536 - hi = (n - hi) + 65536" by simp
  have "unat (of_nat n - of_nat hi :: u16) = (n + 65536 - hi) mod 65536" using True by (intro u16_delta) simp
  then have d: "unat (of_nat n - of_nat hi :: u16) = n - hi" using assms(2) unfolding m mod_add_self2 by simp
  have ne: "(of_nat n - of_nat hi :: u16) \<noteq> 0" using d True by (metis unat_0 zero_less_diff less_numeral_extra(3))
  have lt: "(of_nat n :: u16) < of_nat hi \<longleftrightarrow> n mod 65536 < hi mod 65536"
    by (simp add: word_less_nat_alt of_nat_u16)
  note ds = div_step [OF True] 
  have "hi div 65536 \<ge> n0 div 65536" using assms(1) by (simp add: tracks_def div_le_mono)
  then show ?thesis using assms(1,2) True d ne lt ds
    by (auto simp: tracks_def observe_def Let_def max_def Suc_diff_le)
next
  case False
  then have "unat (of_nat n - of_nat hi :: u16) = (n + 65536 - hi) mod 65536"
    using assms(3) by (simp add: u16_delta)
  then have "(of_nat n - of_nat hi :: u16) = 0 \<or> \<not> unat (of_nat n - of_nat hi :: u16) < 0x8000"
    using False assms(3) by (cases "hi = n") auto
  then show ?thesis using assms(1) False by (auto simp: tracks_def observe_def Let_def max_def)
qed

text \<open>A run of packet numbers that stay within half the circle of the highest so far.\<close>

fun near :: "nat \<Rightarrow> nat list \<Rightarrow> bool" where
  "near hi [] = True"
| "near hi (n # ns) \<longleftrightarrow> n < hi + 32768 \<and> hi \<le> n + 32767 \<and> near (max hi n) ns"

lemma tracks_run:
  "tracks n0 hi cnt e \<Longrightarrow> near hi ns \<Longrightarrow>
   tracks n0 (fold max ns hi) (cnt + length ns) (foldl observe e (map of_nat ns))"
proof (induction ns arbitrary: hi cnt e)
  case (Cons n ns)
  then show ?case using tracks_observe [of n0 hi cnt e n] Cons.IH [of "max hi n" "cnt + 1" "observe e (of_nat n)"]
    by (simp add: max.commute)
qed simp

text \<open>Loss estimation refines an unbounded packet counter: fed the 16-bit numbers of packets
  that arrive in any order, with losses and repeats, as long as each is within half the circle of
  the highest so far, the estimator's expected count is the highest packet number minus the first
  plus one, however often the 16-bit numbers wrap, received is the number of packets, and lost is
  their truncated difference.\<close>

theorem loss_estimator_refines:
  assumes "near n0 ns" "e = foldl observe new_loss_estimator (map of_nat (n0 # ns))"
    "hi = fold max ns n0" "hi - n0 < 2 ^ 64 - 1" "length ns < 2 ^ 64 - 1"
  shows "unat (expected e) = hi - n0 + 1 \<and> unat (le_received e) = length ns + 1 \<and>
    unat (lost e) = (hi - n0 + 1) - (length ns + 1)"
proof -
  have t: "tracks n0 hi (1 + length ns) e"
    using tracks_run [OF tracks_first assms(1)] assms(2,3) by simp
  then have le: "n0 \<le> hi" by (simp add: tracks_def)
  have m: "(ucast (of_nat x :: u16) :: u64) = of_nat (x mod 65536)" for x
  proof -
    have "(ucast (of_nat x :: u16) :: u64) = of_nat (unat (of_nat x :: u16))" by simp
    then show ?thesis by (simp only: of_nat_u16)
  qed
  have dec: "(hi div 65536 - n0 div 65536) * 65536 + hi mod 65536 = hi - n0 + n0 mod 65536"
  proof -
    have "hi = (hi div 65536) * 65536 + hi mod 65536" "n0 = (n0 div 65536) * 65536 + n0 mod 65536" by simp_all
    moreover have "(n0 div 65536) * 65536 \<le> (hi div 65536) * 65536" by (intro mult_le_mono1 div_le_mono le)
    ultimately show ?thesis using le unfolding diff_mult_distrib by linarith
  qed
  have "expected e = of_nat ((hi div 65536 - n0 div 65536) * 65536 + hi mod 65536) - of_nat (n0 mod 65536) + 1"
    using t by (simp add: expected_def tracks_def Let_def m del: of_nat_diff)
  also have "\<dots> = of_nat (hi - n0 + 1)" unfolding dec by simp
  finally have x: "unat (expected e) = hi - n0 + 1" using assms(4) by (simp del: of_nat_Suc of_nat_add)
  have r: "unat (le_received e) = length ns + 1"
    using t assms(5) by (simp add: tracks_def del: of_nat_Suc of_nat_add)
  have "unat (lost e) = unat (expected e) - unat (le_received e)"
    by (auto simp: lost_def Let_def word_less_nat_alt not_less unat_sub word_le_nat_alt)
  with x r show ?thesis by simp
qed

lemma histogram_counts_witness:
  "unat (hg_count (record_all (new_histogram 1000 200000) [5, 1500, 900000])) = 3 \<and>
   hg_max (record_all (new_histogram 1000 200000) [5, 1500, 900000]) = 900000"
  using histogram_counts [of "[5, 1500, 900000]" "new_histogram 1000 200000" 1000 200000] by simp

lemma percentile_finds_bucket_witness: "percentile_bucket 3 0 0 [2, 0, 2] = Some 2"
  using percentile_finds_bucket [of "[2, 0, 2]" 3] by simp

lemma loss_estimator_refines_witness:
  "unat (expected (foldl observe new_loss_estimator (map of_nat [65534, 65536, 65535, 65539]))) = 6 \<and>
   unat (lost (foldl observe new_loss_estimator (map of_nat [65534, 65536, 65535, 65539]))) = 2"
  using loss_estimator_refines [of 65534 "[65536, 65535, 65539]" _ 65539] by simp

section \<open>What the readings say\<close>

lemma u64_double_exact: "unat w \<le> 2 ^ 53 \<Longrightarrow> u64_double w = of_nat (unat w)"
  unfolding u64_double_def by (rule rnd_of_nat)

lemma loss_percent_range:
  assumes "unat (expected e) \<le> 2 ^ 46" shows "0 \<le> lossPercent e \<and> lossPercent e \<le> 100"
proof (cases "expected e = 0")
  case False
  let ?x = "unat (expected e)" and ?l = "unat (lost e)"
  have l: "?l \<le> ?x" by (auto simp: lost_def Let_def unat_sub word_le_nat_alt word_less_nat_alt)
  have pos: "0 < ?x" using False by (simp add: unat_gt_0)
  have "rnd (of_nat (100 * ?l)) = of_nat (100 * ?l)" using assms l by (intro rnd_of_nat) simp
  then have "lossPercent e = rnd (of_nat (100 * ?l) / of_nat ?x)"
    using False assms l by (simp add: lossPercent_def Let_def ddiv_def dmul_def u64_double_exact)
  moreover have "of_nat (100 * ?l) / of_nat ?x \<le> (100 :: rat)" proof -
    have "(of_nat (100 * ?l) :: rat) \<le> of_nat (100 * ?x)" using l by (simp only: of_nat_le_iff)
    then show ?thesis using pos by (simp add: divide_le_eq del: of_nat_unat)
  qed
  moreover have "0 \<le> of_nat (100 * ?l) / (of_nat ?x :: rat)" by (simp del: of_nat_unat)
  ultimately show ?thesis using rnd_le [of 100] rnd_of_nat [of 100] rnd_nonneg by simp
qed (simp add: lossPercent_def)

lemma bucket_prefix:
  assumes "k \<le> length (hg_buckets h)" "length (hg_buckets g) = length (hg_buckets h)"
    "\<And>i. i < length (hg_buckets h) \<Longrightarrow> unat (hg_buckets g ! i) = length (filter (\<lambda>x. f x = i) xs)"
  shows "sum_list (map unat (take k (hg_buckets g))) = length (filter (\<lambda>x. f x < k) xs)"
  using assms(1)
proof (induction k)
  case (Suc k)
  have "length (filter (\<lambda>x. f x < Suc k) xs) = length (filter (\<lambda>x. f x < k) xs) + length (filter (\<lambda>x. f x = k) xs)"
    by (induction xs) auto
  then show ?case using Suc assms(2,3) by (simp add: take_Suc_conv_app_nth)
qed simp

lemma target_le:
  assumes "0 \<le> p" "p \<le> 1" "n \<le> 2 ^ 53"
  shows "nat \<lfloor>rnd (p * of_nat n)\<rfloor> \<le> n"
proof -
  have "p * of_nat n \<le> of_int (int n)" using assms(1,2) by (simp add: mult_left_le_one_le)
  then have "rnd (p * of_nat n) \<le> of_nat n" using rnd_le [OF rnd_of_nat [OF assms(3)]] by simp
  then have "\<lfloor>rnd (p * of_nat n)\<rfloor> \<le> int n" by (simp add: floor_le_iff)
  then show ?thesis by linarith
qed

lemma percentile_target_nat:
  assumes "0 \<le> p" "p \<le> 1" "unat w = n" "n \<le> 2 ^ 53"
  shows "unat (percentile_target p w) = nat \<lfloor>rnd (p * of_nat n)\<rfloor>"
proof -
  have "0 \<le> rnd (p * of_nat n)" using assms(1) by (intro rnd_nonneg) simp
  then have "percentile_target p w = of_nat (nat \<lfloor>rnd (p * of_nat n)\<rfloor>)"
    using assms by (simp add: percentile_target_def dmul_def u64_double_exact d_to_int_nonneg)
  moreover have "nat \<lfloor>rnd (p * of_nat n)\<rfloor> < 2 ^ 64" using target_le [OF assms(1,2,4)] assms(4) by simp
  ultimately show ?thesis by simp
qed

lemma bucket_reading:
  assumes "i < 2 ^ 32" "n < 2 ^ 32" "(2 * i + 1) * n \<le> 2 ^ 53"
  shows "dmul (dadd (d_of_int (int i)) (1 / 2)) (d_of_int (int n)) = (of_nat i + 1 / 2) * of_nat n"
proof -
  have "rnd (of_nat i + 1 / 2) = of_nat i + 1 / 2"
    proof -
    have "rnd (of_int (int (2 * i + 1)) / 2) = of_int (int (2 * i + 1)) / 2" using assms(1) by (intro rnd_half) simp
    moreover have "of_int (int (2 * i + 1)) / 2 = (of_nat i + 1 / 2 :: rat)" by (simp add: field_simps)
    ultimately show ?thesis by (simp only:)
  qed
  moreover have "rnd ((of_nat i + 1 / 2) * of_nat n) = (of_nat i + 1 / 2) * of_nat n"
  proof -
    have "rnd (of_int (int ((2 * i + 1) * n)) / 2) = of_int (int ((2 * i + 1) * n)) / 2"
    proof (rule rnd_half)
      have "int ((2 * i + 1) * n) \<le> int (2 ^ 53)" using assms(3) by (simp only: of_nat_le_iff)
      then show "\<bar>int ((2 * i + 1) * n)\<bar> \<le> 2 ^ 53" by simp
    qed
    moreover have "(of_nat i + 1 / 2) * of_nat n = (of_int (int ((2 * i + 1) * n)) / 2 :: rat)" by (simp add: field_simps)
    ultimately show ?thesis by (simp only:)
  qed
  moreover have "d_of_int (int i) = of_nat i" "d_of_int (int n) = of_nat n"
    using assms(1,2) d_of_int_exact [of "int i"] d_of_int_exact [of "int n"] by simp_all
  ultimately show ?thesis by (simp only: dmul_def dadd_def)
qed

lemma new_histogram_buckets:
  assumes "0 < b"
  shows "length (hg_buckets (new_histogram b m)) = unat m div unat b + 1"
    "bucket_index (new_histogram b m) x = min (unat x div unat b) (unat m div unat b)"
  using assms by (auto simp: new_histogram_def bucket_index_def Let_def min_def)

lemma record_all_range [simp]: "hg_bucketUs (record_all h xs) = hg_bucketUs h" "hg_maxUs (record_all h xs) = hg_maxUs h"
  by (induction xs arbitrary: h) (simp_all add: record_all_def record_sample_def Let_def)

definition samples_below :: "rat \<Rightarrow> u64 list \<Rightarrow> nat" where
  "samples_below y xs = length (filter (\<lambda>x. rat_of_nat (unat x) < y) xs)"

lemma below_edge:
  assumes "0 < b" "k \<le> unat m div unat b"
  shows "length (filter (\<lambda>x. bucket_index (new_histogram b m) x < k) xs) = samples_below (of_nat k * of_nat (unat b)) xs"
proof -
  have pos: "0 < unat b" using assms(1) by (simp add: word_less_nat_alt)
  have "bucket_index (new_histogram b m) x < k \<longleftrightarrow> (rat_of_nat (unat x) < of_nat k * of_nat (unat b))" for x
  proof -
    have "bucket_index (new_histogram b m) x < k \<longleftrightarrow> unat x div unat b < k"
      using assms(2) by (auto simp: new_histogram_buckets [OF assms(1)])
    also have "\<dots> \<longleftrightarrow> unat x < k * unat b" using pos by (rule div_less_iff_less_mult)
    also have "\<dots> \<longleftrightarrow> rat_of_nat (unat x) < of_nat (k * unat b)" by (simp only: of_nat_less_iff)
    finally show ?thesis by (simp only: of_nat_mult)
  qed
  then show ?thesis by (simp only: samples_below_def)
qed

lemma search_prefix:
  assumes "i < length bs" "\<forall>j<i. 0 < bs ! j \<longrightarrow> sum_list (map unat (take (Suc j) bs)) < (T :: nat)"
  shows "sum_list (map unat (take i (bs :: u64 list))) < T \<or> sum_list (map unat (take i bs)) = 0"
  using assms
proof (induction i)
  case (Suc i)
  show ?case
  proof (cases "0 < bs ! i")
    case False
    then have "unat (bs ! i) = 0" using word_gt_0 by fastforce
    then show ?thesis using Suc by (simp add: take_Suc_conv_app_nth)
  qed (use Suc in auto)
qed simp

lemma percentile_bucket_found:
  assumes "xs \<noteq> []" "length xs \<le> 2 ^ 53" "0 \<le> p" "p \<le> 1" "h = new_histogram b m" "g = record_all h xs"
    "T = nat \<lfloor>rnd (p * of_nat (length xs))\<rfloor>"
  obtains i where "i < length (hg_buckets h)"
    "percentile_bucket (percentile_target p (hg_count g)) 0 0 (hg_buckets g) = Some i"
    "\<exists>x\<in>set xs. bucket_index h x = i"
    "T \<le> length (filter (\<lambda>x. bucket_index h x < Suc i) xs)"
    "length (filter (\<lambda>x. bucket_index h x < i) xs) < T \<or> length (filter (\<lambda>x. bucket_index h x < i) xs) = 0"
proof -
  have small: "length xs < 2 ^ 64" using assms(2) by simp
  note st = record_all_state [OF small, of b m, folded assms(5), folded assms(6)]
  have len: "length (hg_buckets g) = length (hg_buckets h)" and cnt: "unat (hg_count g) = length xs"
    and bk: "\<And>i. i < length (hg_buckets h) \<Longrightarrow> unat (hg_buckets g ! i) = length (filter (\<lambda>x. bucket_index h x = i) xs)"
    using st by blast+
  note prefix = bucket_prefix [where f = "bucket_index h", OF _ len bk]
  have "bucket_index h x < length (hg_buckets h)" for x
    using bucket_index_less new_histogram_shape assms(5) by blast
  then have total: "sum_list (map unat (hg_buckets g)) = length xs"
    using prefix [of "length (hg_buckets h)"] len by simp
  have T: "unat (percentile_target p (hg_count g)) = T"
    using percentile_target_nat [OF assms(3,4) cnt assms(2)] assms(7) by simp
  have "T \<le> length xs" using target_le [OF assms(3,4,2)] assms(7) by simp
  then obtain i where i: "i < length (hg_buckets g)"
    "percentile_bucket (percentile_target p (hg_count g)) 0 0 (hg_buckets g) = Some i" "0 < hg_buckets g ! i"
    "T \<le> sum_list (map unat (take (Suc i) (hg_buckets g)))"
    "\<forall>j<i. 0 < hg_buckets g ! j \<longrightarrow> sum_list (map unat (take (Suc j) (hg_buckets g))) < T"
    using percentile_search [of 0 "hg_buckets g" "percentile_target p (hg_count g)" 0] small assms(1) total T by auto
  have "filter (\<lambda>x. bucket_index h x = i) xs \<noteq> []"
    using bk [of i] i(1,3) len by (auto simp: word_less_nat_alt)
  then have "\<exists>x\<in>set xs. bucket_index h x = i" by (auto simp: filter_empty_conv)
  then show thesis
    using that [of i] i search_prefix [OF i(1,5)] prefix [of i] prefix [of "Suc i"] len by simp
qed

lemma bucket_middle:
  fixes q :: nat
  assumes "q * b \<le> x" "x < Suc q * b"
  shows "\<bar>rat_of_nat x - (of_nat q + 1 / 2) * of_nat b\<bar> \<le> of_nat b / 2"
proof -
  have "rat_of_nat (q * b) \<le> of_nat x" "rat_of_nat x \<le> of_nat (Suc q * b)" using assms by (simp_all only: of_nat_le_iff less_imp_le)
  then show ?thesis by (simp add: abs_le_iff field_simps)
qed

text \<open>C40. A percentile is what it says, up to the width of a bucket: for the \<open>p\<close>-th percentile
  \<open>r\<close> of a series of samples, with \<open>T\<close> the product of \<open>p\<close> and the number of samples as the code rounds it,
  at least \<open>T\<close> samples lie below \<open>r\<close> plus half a bucket, fewer than \<open>T\<close> (or none) below \<open>r\<close> minus half a bucket,
  and a sample is within half a bucket of \<open>r\<close>; or the reading is the upper end of the range, when that rank
  lies among the samples of the overflow bucket.\<close>

theorem percentile_reading:
  assumes "xs \<noteq> []" "length xs \<le> 2 ^ 53" "0 \<le> p" "p \<le> 1" "0 < b"
    "r = percentile p (record_all (new_histogram b m) xs)" "T = nat \<lfloor>rnd (p * of_nat (length xs))\<rfloor>"
    "B = rat_of_nat (unat b)" "over = unat m div unat b * unat b"
  shows "(\<exists>x\<in>set xs. \<bar>of_nat (unat x) - r\<bar> \<le> B / 2) \<and> T \<le> samples_below (r + B / 2) xs \<and>
      (samples_below (r - B / 2) xs < T \<or> samples_below (r - B / 2) xs = 0) \<or>
    r = of_nat (unat m) \<and> (\<exists>x\<in>set xs. over \<le> unat x) \<and>
      (samples_below (of_nat over) xs < T \<or> samples_below (of_nat over) xs = 0)"
proof -
  define h where "h = new_histogram b m"
  define g where "g = record_all h xs"
  let ?L = "unat m div unat b"
  note shape = new_histogram_buckets [OF assms(5), of m, folded h_def]
  obtain i where i: "i < length (hg_buckets h)"
    "percentile_bucket (percentile_target p (hg_count g)) 0 0 (hg_buckets g) = Some i"
    "\<exists>x\<in>set xs. bucket_index h x = i" "T \<le> length (filter (\<lambda>x. bucket_index h x < Suc i) xs)"
    "length (filter (\<lambda>x. bucket_index h x < i) xs) < T \<or> length (filter (\<lambda>x. bucket_index h x < i) xs) = 0"
    using percentile_bucket_found [OF assms(1-4) h_def g_def assms(7)] by blast
  have "length (hg_buckets g) = length (hg_buckets h)" "unat (hg_count g) = length xs"
    using record_all_state [of xs b m, folded h_def, folded g_def] assms(2) by simp_all
  then have len: "length (hg_buckets g) = ?L + 1" and cnt: "hg_count g \<noteq> 0"
    using shape assms(1) by auto
  have range: "hg_bucketUs g = b" "hg_maxUs g = m" using assms(5) by (auto simp: g_def h_def new_histogram_def Let_def)
  have b0: "0 < unat b" "unat b < 2 ^ 32" "unat m < 2 ^ 32"
    using assms(5) unat_lt_pow [of b] unat_lt_pow [of m] by (simp_all add: word_less_nat_alt)
  have r: "r = (if i = ?L then of_nat (unat m) else dmul (dadd (d_of_int (int i)) (1 / 2)) (d_of_int (int (unat b))))"
  proof -
    have cl: "clamp p 0 1 = p" using assms(3,4) by (simp add: clamp_def)
    have m: "d_of_int (int (unat m)) = of_nat (unat m)"
      unfolding d_of_int_def of_int_of_nat_eq using b0(3) by (intro rnd_of_nat) simp
    show ?thesis
      using assms(6) cnt by (simp add: percentile_def Let_def cl i(2) len range m uint_nat flip: h_def g_def del: of_nat_unat)
  qed
  note edge = below_edge [OF assms(5), of _ m xs, folded h_def]
  show ?thesis
  proof (cases "i = ?L")
    case True
    obtain x where "x \<in> set xs" "?L \<le> unat x div unat b" using i(3) True shape(2) by (auto simp: min_def split: if_splits)
    then have "over \<le> unat x" unfolding assms(9) using b0(1) by (simp add: less_eq_div_iff_mult_less_eq)
    then have "\<exists>x\<in>set xs. over \<le> unat x" using \<open>x \<in> set xs\<close> by blast
    then show ?thesis using i(5) True edge [of ?L] r by (simp add: assms(9) del: of_nat_unat)
  next
    case False
    then have iL: "i < ?L" using i(1) shape(1) by simp
    have prod: "(2 * i + 1) * unat b \<le> 2 ^ 53"
    proof -
      have "(2 * i + 1) * unat b \<le> 2 * (?L * unat b)" using iL mult_le_mono1 [of "2 * i + 1" "2 * ?L" "unat b"] by simp
      also have "\<dots> \<le> 2 * unat m" by simp
      finally show ?thesis using b0(3) by simp
    qed
    have "i < 2 ^ 32" using iL b0(3) div_le_dividend [of "unat m" "unat b"] by linarith
    then have rB: "r = (of_nat i + 1 / 2) * B" using r False bucket_reading [OF _ b0(2) prod] assms(8) by simp
    then have edges: "r + B / 2 = of_nat (Suc i) * of_nat (unat b)" "r - B / 2 = of_nat i * of_nat (unat b)"
      by (simp_all add: assms(8) field_simps)
    obtain x where "x \<in> set xs" "unat x div unat b = i" using i(3) False shape(2) by (auto simp: min_def split: if_splits)
    then have "i * unat b \<le> unat x \<and> unat x < Suc i * unat b" using b0(1) by (metis div_nat_eqI dividend_less_div_times div_times_less_eq_dividend mult_Suc)
    then have "\<exists>x\<in>set xs. \<bar>of_nat (unat x) - r\<bar> \<le> B / 2"
      using bucket_middle \<open>x \<in> set xs\<close> unfolding rB assms(8) by blast
    moreover have "Suc i \<le> ?L" using iL by simp
    ultimately show ?thesis using i(4,5) edge [of "Suc i"] edge [of i] iL unfolding edges by simp
  qed
qed

lemma percentile_reading_witness:
  "percentile (1 / 2) (record_all (new_histogram 10 100) [5, 12, 17, 31]) = 15 \<and>
   2 \<le> samples_below (15 + 10 / 2) [5, 12, 17, 31]"
proof -
  have r: "percentile (1 / 2) (record_all (new_histogram 10 100) [5, 12, 17, 31]) = 15" by code_simp
  have T: "nat \<lfloor>rnd (1 / 2 * of_nat (length [5 :: u64, 12, 17, 31]))\<rfloor> = 2" using rnd_of_nat [of 2] by simp
  have "(0 :: u32) < 10" by simp
  then show ?thesis
    using percentile_reading [of "[5, 12, 17, 31]" "1 / 2" 10 15 100 2 10 100, OF _ _ _ _ _ r [symmetric] T [symmetric]] r by simp
qed

end
