(* ===== verification/Pool.thy ===== *)
theory Pool
  imports Common "HOL-Library.Multiset"
begin

text \<open>
  The pre-allocated frame memory: src/src/common/FramePool.h (slots, the LIFO free list and the
  recycling deleter of the shared pointers), VideoFrame.h and AudioFrame.h (frames laid over a
  pool buffer). A byte address is its offset from the start of the pool's storage. First comes
  the code, then the ownership invariant and the layout of the frames.
\<close>

section \<open>FramePool.h\<close>

text \<open>\<^verbatim>\<open>FramePool::Buffer\<close>: the data pointer, as an offset into the storage, the capacity and
  the slot.\<close>

record pool_buffer =
  pb_data :: nat
  pb_capacity :: nat
  pb_slot :: nat

record frame_pool =
  fp_bufferSize :: nat
  fp_count :: nat
  fp_freeSlots :: "nat list"

definition create_pool :: "nat \<Rightarrow> nat \<Rightarrow> frame_pool" where
  "create_pool bufferSize n = \<lparr>fp_bufferSize = bufferSize, fp_count = n, fp_freeSlots = [0..<n]\<rparr>"

text \<open>\<^verbatim>\<open>acquire\<close> pops the back of the free list; \<open>None\<close> is the null pointer.\<close>

definition acquire :: "frame_pool \<Rightarrow> pool_buffer option \<times> frame_pool" where
  "acquire p = (if fp_freeSlots p = [] then (None, p)
     else let slot = last (fp_freeSlots p) in
       (Some \<lparr>pb_data = slot * fp_bufferSize p, pb_capacity = fp_bufferSize p, pb_slot = slot\<rparr>,
        p\<lparr>fp_freeSlots := butlast (fp_freeSlots p)\<rparr>))"

definition release :: "nat \<Rightarrow> frame_pool \<Rightarrow> frame_pool" where
  "release slot p = p\<lparr>fp_freeSlots := fp_freeSlots p @ [slot]\<rparr>"

definition available :: "frame_pool \<Rightarrow> nat" where
  "available p = length (fp_freeSlots p)"

text \<open>The shared pointers of the buffers: a control block has the buffer and its use count;
  copying a pointer adds one, dropping one subtracts one and the last drop runs the deleter, which
  releases the slot. Blocks have the identity of their allocation.\<close>

record pool_heap =
  ph_pool :: frame_pool
  ph_blocks :: "(nat \<times> pool_buffer \<times> nat) list"
  ph_next :: nat

definition new_pool_heap :: "nat \<Rightarrow> nat \<Rightarrow> pool_heap" where
  "new_pool_heap bufferSize n = \<lparr>ph_pool = create_pool bufferSize n, ph_blocks = [], ph_next = 0\<rparr>"

text \<open>A \<^verbatim>\<open>shared_ptr<Buffer>\<close>: the identity of its control block and the buffer.\<close>

type_synonym pool_ptr = "nat \<times> pool_buffer"

definition acquire_ptr :: "pool_heap \<Rightarrow> pool_ptr option \<times> pool_heap" where
  "acquire_ptr h = (case acquire (ph_pool h) of
     (None, p) \<Rightarrow> (None, h\<lparr>ph_pool := p\<rparr>)
   | (Some b, p) \<Rightarrow> (Some (ph_next h, b),
       h\<lparr>ph_pool := p, ph_blocks := (ph_next h, b, 1) # ph_blocks h, ph_next := ph_next h + 1\<rparr>))"

definition copy_ptr :: "nat \<Rightarrow> pool_heap \<Rightarrow> pool_heap" where
  "copy_ptr a h = (case map_of (ph_blocks h) a of
     None \<Rightarrow> h
   | Some (b, k) \<Rightarrow> h\<lparr>ph_blocks := AList.update a (b, k + 1) (ph_blocks h)\<rparr>)"

definition drop_ptr :: "nat \<Rightarrow> pool_heap \<Rightarrow> pool_heap" where
  "drop_ptr a h = (case map_of (ph_blocks h) a of
     None \<Rightarrow> h
   | Some (b, k) \<Rightarrow>
       if k \<le> 1 then h\<lparr>ph_pool := release (pb_slot b) (ph_pool h), ph_blocks := AList.delete a (ph_blocks h)\<rparr>
       else h\<lparr>ph_blocks := AList.update a (b, k - 1) (ph_blocks h)\<rparr>)"

datatype pool_event = Acquire | Copy nat | Drop nat

fun pool_step :: "pool_event \<Rightarrow> pool_heap \<Rightarrow> pool_heap" where
  "pool_step Acquire h = snd (acquire_ptr h)"
| "pool_step (Copy a) h = copy_ptr a h"
| "pool_step (Drop a) h = drop_ptr a h"

section \<open>VideoFrame.h\<close>

text \<open>A plane pointer is an offset into the storage, or \<open>None\<close> for null.\<close>

record plane =
  pl_data :: "nat option"
  pl_stride :: int

definition null_plane :: plane where
  "null_plane = \<lparr>pl_data = None, pl_stride = 0\<rparr>"

record video_frame =
  vf_format :: pixel_format
  vf_width :: int
  vf_height :: int
  vf_planes :: "plane list"
  vf_captureTime :: steady_time
  vf_rtpTimestamp :: u32
  vf_buffer :: "pool_ptr option"

definition new_video_frame :: video_frame where
  "new_video_frame = \<lparr>vf_format = PF_Unknown, vf_width = 0, vf_height = 0,
     vf_planes = [null_plane, null_plane, null_plane], vf_captureTime = 0, vf_rtpTimestamp = 0, vf_buffer = None\<rparr>"

definition vf_valid :: "video_frame \<Rightarrow> bool" where
  "vf_valid f \<longleftrightarrow> vf_format f \<noteq> PF_Unknown \<and> 0 < vf_width f \<and> 0 < vf_height f \<and> pl_data (vf_planes f ! 0) \<noteq> None"

text \<open>Sizes are \<^verbatim>\<open>size_t\<close> products of converted \<^verbatim>\<open>int\<close>s.\<close>

definition i420Size :: "int \<Rightarrow> int \<Rightarrow> u64" where
  "i420Size w h = (let y = of_int w * of_int h;
     c = of_int (tdiv (w + 1) 2) * of_int (tdiv (h + 1) 2)
     in y + 2 * c)"

definition makeI420 :: "pool_ptr option \<Rightarrow> int \<Rightarrow> int \<Rightarrow> steady_time \<Rightarrow> video_frame" where
  "makeI420 buf w h captured = (case buf of None \<Rightarrow> new_video_frame
   | Some (a, b) \<Rightarrow>
       if w \<le> 0 \<or> h \<le> 0 then new_video_frame
       else let ySize = (of_int w * of_int h :: u64);
                cw = tdiv (w + 1) 2;
                ch = tdiv (h + 1) 2;
                cSize = (of_int cw * of_int ch :: u64)
            in if pb_capacity b < unat (ySize + 2 * cSize) then new_video_frame
               else new_video_frame\<lparr>vf_format := I420, vf_width := w, vf_height := h,
                 vf_planes := [\<lparr>pl_data = Some (pb_data b), pl_stride = w\<rparr>,
                   \<lparr>pl_data = Some (pb_data b + unat ySize), pl_stride = cw\<rparr>,
                   \<lparr>pl_data = Some (pb_data b + unat ySize + unat cSize), pl_stride = cw\<rparr>],
                 vf_captureTime := captured, vf_buffer := Some (a, b)\<rparr>)"

section \<open>AudioFrame.h\<close>

record audio_frame =
  af_format :: audio_format
  af_samples :: "nat option"
  af_sampleCount :: int
  af_captureTime :: steady_time
  af_rtpTimestamp :: u32
  af_buffer :: "pool_ptr option"

definition new_audio_frame :: audio_frame where
  "new_audio_frame = \<lparr>af_format = default_audio_format, af_samples = None, af_sampleCount = 0,
     af_captureTime = 0, af_rtpTimestamp = 0, af_buffer = None\<rparr>"

definition af_valid :: "audio_frame \<Rightarrow> bool" where
  "af_valid a \<longleftrightarrow> af_samples a \<noteq> None \<and> 0 < af_sampleCount a \<and> 0 < channels (af_format a)"

definition af_duration :: "audio_frame \<Rightarrow> int" where
  "af_duration a = (if sampleRateHz (af_format a) \<le> 0 then 0
     else tdiv (af_sampleCount a * 1000000000) (sampleRateHz (af_format a)))"

definition makePcm :: "pool_ptr option \<Rightarrow> audio_format \<Rightarrow> int \<Rightarrow> steady_time \<Rightarrow> audio_frame" where
  "makePcm buf fmt samplesPerChannel captured =
     (let nbytes = (of_int samplesPerChannel * of_int (channels fmt) * 2 :: u64) in
      case buf of None \<Rightarrow> new_audio_frame
      | Some (a, b) \<Rightarrow>
          if samplesPerChannel \<le> 0 \<or> channels fmt \<le> 0 \<or> pb_capacity b < unat nbytes then new_audio_frame
          else new_audio_frame\<lparr>af_format := fmt, af_samples := Some (pb_data b),
            af_sampleCount := samplesPerChannel, af_captureTime := captured, af_buffer := Some (a, b)\<rparr>)"

text \<open>The end of a frame: it drops its pointer.\<close>

definition drop_frame :: "pool_ptr option \<Rightarrow> pool_heap \<Rightarrow> pool_heap" where
  "drop_frame buf h = (case buf of None \<Rightarrow> h | Some (a, b) \<Rightarrow> drop_ptr a h)"

section \<open>Ownership of the slots\<close>

text \<open>Every slot is in exactly one place: the free list or one live control block, whose buffer
  lies at the slot's place in the storage.\<close>

definition live_buffers :: "pool_heap \<Rightarrow> pool_buffer list" where
  "live_buffers h = map (fst \<circ> snd) (ph_blocks h)"

definition buffer_at :: "nat \<Rightarrow> pool_buffer \<Rightarrow> bool" where
  "buffer_at sz b \<longleftrightarrow> pb_data b = pb_slot b * sz \<and> pb_capacity b = sz"

definition pool_ok :: "nat \<Rightarrow> nat \<Rightarrow> pool_heap \<Rightarrow> bool" where
  "pool_ok sz n h \<longleftrightarrow> fp_bufferSize (ph_pool h) = sz \<and> fp_count (ph_pool h) = n \<and>
     mset (fp_freeSlots (ph_pool h) @ map pb_slot (live_buffers h)) = mset [0..<n] \<and>
     list_all (buffer_at sz) (live_buffers h) \<and>
     distinct (map fst (ph_blocks h)) \<and> (\<forall>a \<in> set (map fst (ph_blocks h)). a < ph_next h)"

lemma pool_ok_new: "pool_ok sz n (new_pool_heap sz n)"
  by (simp add: pool_ok_def new_pool_heap_def create_pool_def live_buffers_def)

lemma mset_last: "xs \<noteq> [] \<Longrightarrow> mset xs = add_mset (last xs) (mset (butlast xs))"
  by (metis append_butlast_last_id mset_append mset_single_iff add_mset_add_single mset.simps union_commute)

lemma acquire_ptr_ok:
  assumes "pool_ok sz n h" shows "pool_ok sz n (snd (acquire_ptr h))"
proof (cases "fp_freeSlots (ph_pool h) = []")
  case True
  then show ?thesis using assms by (simp add: acquire_ptr_def acquire_def)
next
  case False
  then show ?thesis using assms mset_last [OF False]
    by (auto simp: pool_ok_def acquire_ptr_def acquire_def Let_def live_buffers_def buffer_at_def)
qed

lemma live_update: "map_of al a = Some (b, k) \<Longrightarrow> map (fst \<circ> snd) (AList.update a (b, m) al) = map (fst \<circ> snd) al"
  by (induction al) (auto split: if_splits)

lemma live_delete:
  "map_of al a = Some (b, k) \<Longrightarrow> distinct (map fst al) \<Longrightarrow>
   mset (map (fst \<circ> snd) al) = add_mset b (mset (map (fst \<circ> snd) (AList.delete a al)))"
proof (induction al)
  case (Cons x al)
  show ?case
  proof (cases "fst x = a")
    case True
    then have "a \<notin> set (map fst al)" using Cons.prems(2) by auto
    then have "AList.delete a al = al" by (induction al) auto
    then show ?thesis using True Cons.prems(1) by (cases x) auto
  next
    case False
    then show ?thesis using Cons by (cases x) auto
  qed
qed simp

lemma recount_ok:
  assumes "pool_ok sz n h" "map_of (ph_blocks h) a = Some (b, k)"
  shows "pool_ok sz n (h\<lparr>ph_blocks := AList.update a (b, m) (ph_blocks h)\<rparr>)"
proof -
  have "live_buffers (h\<lparr>ph_blocks := AList.update a (b, m) (ph_blocks h)\<rparr>) = live_buffers h"
    using live_update [OF assms(2)] by (simp add: live_buffers_def)
  moreover have "map fst (AList.update a (b, m) (ph_blocks h)) = map fst (ph_blocks h)"
    using assms(2) by (simp add: keys_update_old)
  ultimately show ?thesis using assms(1) unfolding pool_ok_def by simp
qed

lemma copy_ptr_ok: "pool_ok sz n h \<Longrightarrow> pool_ok sz n (copy_ptr a h)"
  by (auto simp: copy_ptr_def recount_ok split: option.splits)

lemma drop_ptr_ok:
  assumes "pool_ok sz n h" shows "pool_ok sz n (drop_ptr a h)"
proof (cases "map_of (ph_blocks h) a")
  case None
  then show ?thesis using assms by (simp add: drop_ptr_def)
next
  case (Some bk)
  obtain b k where bk: "bk = (b, k)" by force
  have inv: "mset (fp_freeSlots (ph_pool h) @ map pb_slot (live_buffers h)) = mset [0..<n]"
    "list_all (buffer_at sz) (live_buffers h)" "distinct (map fst (ph_blocks h))"
    "\<forall>x \<in> set (map fst (ph_blocks h)). x < ph_next h"
    using assms by (auto simp: pool_ok_def)
  have d: "mset (live_buffers h) = add_mset b (mset (map (fst \<circ> snd) (AList.delete a (ph_blocks h))))"
    using live_delete [of _ a b k] Some bk inv(3) by (simp add: live_buffers_def)
  then have m: "image_mset pb_slot (mset (live_buffers h)) =
      add_mset (pb_slot b) (image_mset pb_slot (mset (map (fst \<circ> snd) (AList.delete a (ph_blocks h)))))"
    by simp
  have s: "set (map (fst \<circ> snd) (AList.delete a (ph_blocks h))) \<subseteq> set (live_buffers h)"
    using arg_cong [OF d, of set_mset] by auto
  have k: "set (map fst (AList.delete a (ph_blocks h))) \<subseteq> set (map fst (ph_blocks h))"
    by (auto simp: keys_delete_filter simp del: set_map)
  have "pool_ok sz n (h\<lparr>ph_pool := release (pb_slot b) (ph_pool h), ph_blocks := AList.delete a (ph_blocks h)\<rparr>)"
    unfolding pool_ok_def
  proof (intro conjI)
    show "mset (fp_freeSlots (ph_pool (h\<lparr>ph_pool := release (pb_slot b) (ph_pool h), ph_blocks := AList.delete a (ph_blocks h)\<rparr>)) @
        map pb_slot (live_buffers (h\<lparr>ph_pool := release (pb_slot b) (ph_pool h), ph_blocks := AList.delete a (ph_blocks h)\<rparr>))) = mset [0..<n]"
      using inv(1) m by (simp add: release_def live_buffers_def multiset.map_comp comp_assoc)
  qed (use assms inv s k in \<open>auto simp: pool_ok_def release_def live_buffers_def list_all_iff distinct_keys_delete simp del: set_map\<close>)
  moreover have "pool_ok sz n (h\<lparr>ph_blocks := AList.update a (b, k - 1) (ph_blocks h)\<rparr>)"
    using recount_ok assms Some bk by blast
  ultimately show ?thesis using Some bk by (simp add: drop_ptr_def)
qed

lemma drop_frame_ok: "pool_ok sz n h \<Longrightarrow> pool_ok sz n (drop_frame buf h)"
  by (auto simp: drop_frame_def drop_ptr_ok split: option.splits)

lemma pool_step_ok: "pool_ok sz n h \<Longrightarrow> pool_ok sz n (pool_step e h)"
  by (cases e) (auto simp: acquire_ptr_ok copy_ptr_ok drop_ptr_ok)

definition pool_run :: "pool_event list \<Rightarrow> nat \<Rightarrow> nat \<Rightarrow> pool_heap" where
  "pool_run es sz n = fold pool_step es (new_pool_heap sz n)"

lemma pool_run_ok: "pool_ok sz n (pool_run es sz n)"
proof -
  have "pool_ok sz n h \<Longrightarrow> pool_ok sz n (fold pool_step es h)" for h
    by (induction es arbitrary: h) (auto simp: pool_step_ok)
  then show ?thesis by (simp add: pool_run_def pool_ok_new)
qed

definition disjoint_buffers :: "pool_buffer \<Rightarrow> pool_buffer \<Rightarrow> bool" where
  "disjoint_buffers b c \<longleftrightarrow> pb_data b + pb_capacity b \<le> pb_data c \<or> pb_data c + pb_capacity c \<le> pb_data b"

lemma slots_disjoint:
  assumes "buffer_at sz b" "buffer_at sz c" "pb_slot b \<noteq> pb_slot c"
  shows "disjoint_buffers b c"
proof -
  have "Suc i * sz \<le> j * sz" if "i < j" for i j using that by (intro mult_le_mono1) simp
  then show ?thesis using assms by (auto simp: buffer_at_def disjoint_buffers_def linorder_neq_iff add.commute)
qed

lemma pool_ok_slots:
  assumes "pool_ok sz n h"
  shows "distinct (map pb_slot (live_buffers h))" "set (map pb_slot (live_buffers h)) \<subseteq> {..<n}"
    "available (ph_pool h) + length (live_buffers h) = n"
proof -
  have m: "mset (fp_freeSlots (ph_pool h) @ map pb_slot (live_buffers h)) = mset [0..<n]"
    using assms by (simp add: pool_ok_def)
  have "distinct (fp_freeSlots (ph_pool h) @ map pb_slot (live_buffers h))"
    using mset_eq_imp_distinct_iff [OF m] by simp
  then show "distinct (map pb_slot (live_buffers h))" by simp
  show "set (map pb_slot (live_buffers h)) \<subseteq> {..<n}" using mset_eq_setD [OF m] by auto
  show "available (ph_pool h) + length (live_buffers h) = n"
    using mset_eq_length [OF m] by (simp add: available_def)
qed

lemma live_sorted_disjoint:
  "list_all (buffer_at sz) bs \<Longrightarrow> distinct (map pb_slot bs) \<Longrightarrow> sorted_wrt disjoint_buffers bs"
  by (induction bs) (auto simp: list_all_iff intro!: slots_disjoint)


text \<open>Taking a buffer: what it is and where it lies.\<close>

lemma acquire_fresh:
  assumes "pool_ok sz n h" "acquire_ptr h = (Some (a, b), h')"
  shows "pool_ok sz n h'" "live_buffers h' = b # live_buffers h" "buffer_at sz b" "pb_data b + sz \<le> n * sz"
    "list_all (disjoint_buffers b) (live_buffers h)"
proof -
  show ok': "pool_ok sz n h'" using acquire_ptr_ok [OF assms(1)] assms(2) by simp
  show l: "live_buffers h' = b # live_buffers h"
    using assms(2) by (auto simp: acquire_ptr_def acquire_def Let_def live_buffers_def split: if_splits)
  have at: "list_all (buffer_at sz) (live_buffers h')" using ok' by (simp add: pool_ok_def)
  then show b: "buffer_at sz b" using l by simp
  have "Suc (pb_slot b) * sz \<le> n * sz" using pool_ok_slots(2) [OF ok'] l by (intro mult_le_mono1) auto
  then show "pb_data b + sz \<le> n * sz" using b by (simp add: buffer_at_def)
  show "list_all (disjoint_buffers b) (live_buffers h)"
    using live_sorted_disjoint [OF at pool_ok_slots(1) [OF ok']] l by (simp add: list_all_iff)
qed

lemma acquire_none_iff:
  assumes "pool_ok sz n h" shows "fst (acquire_ptr h) = None \<longleftrightarrow> length (live_buffers h) = n"
  using pool_ok_slots(3) [OF assms]
  by (auto simp: acquire_ptr_def acquire_def available_def Let_def)

lemma acquire_none_same: "acquire_ptr h = (None, h') \<Longrightarrow> h' = h"
  by (auto simp: acquire_ptr_def acquire_def Let_def split: if_splits)

lemma acquire_drop:
  assumes "pool_ok sz n h" "acquire_ptr h = (Some (a, b), h')"
  shows "ph_blocks (drop_ptr a h') = ph_blocks h \<and>
    available (ph_pool (drop_ptr a h')) = available (ph_pool h) \<and> pool_ok sz n (drop_ptr a h')"
proof -
  have a: "a = ph_next h" "ph_blocks h' = (a, b, 1) # ph_blocks h" "ph_pool h' = snd (acquire (ph_pool h))"
    "fp_freeSlots (ph_pool h) \<noteq> []"
    using assms(2) by (auto simp: acquire_ptr_def acquire_def Let_def split: if_splits)
  have "a \<notin> set (map fst (ph_blocks h))" using assms(1) a by (auto simp: pool_ok_def)
  then have "AList.delete a (ph_blocks h) = ph_blocks h" by (simp add: delete_id image_iff)
  then have "ph_blocks (drop_ptr a h') = ph_blocks h"
    "available (ph_pool (drop_ptr a h')) = available (ph_pool h)"
    using a by (simp_all add: drop_ptr_def release_def available_def acquire_def Let_def)
  then show ?thesis using drop_ptr_ok [OF acquire_fresh(1) [OF assms]] by simp
qed

section \<open>Layout of the frames\<close>

lemma of_int_size: "0 \<le> x \<Longrightarrow> x < 2 ^ 64 \<Longrightarrow> unat (of_int x :: u64) = nat x"
  by (simp add: unat_eq_nat_uint uint_word_of_int take_bit_eq_mod)

lemma three_parts: "x < 2 ^ 62 \<Longrightarrow> c < 2 ^ 62 \<Longrightarrow> x + 2 * c < (2 ^ 64 :: int)"
  by simp

lemma size_product:
  assumes "0 \<le> x" "x < 2 ^ 31" "0 \<le> y" "y < 2 ^ 31"
  shows "unat (of_int x * of_int y :: u64) = nat (x * y)" "x * y < 2 ^ 62" "0 \<le> x * y"
proof -
  have "x * y \<le> 2 ^ 31 * y" using assms by (intro mult_right_mono) auto
  also have "\<dots> < 2 ^ 62" using assms by simp
  finally show b: "x * y < 2 ^ 62" .
  show "0 \<le> x * y" using assms by simp
  then show "unat (of_int x * of_int y :: u64) = nat (x * y)" using of_int_size [of "x * y"] b by simp
qed

lemma i420_parts:
  assumes "0 < w" "w < 2 ^ 31 - 1" "0 < h" "h < 2 ^ 31 - 1"
  shows "unat (of_int w * of_int h :: u64) = nat (w * h)"
    "unat (of_int (tdiv (w + 1) 2) * of_int (tdiv (h + 1) 2) :: u64) = nat ((w + 1) div 2 * ((h + 1) div 2))"
    "unat (i420Size w h) = nat (w * h) + 2 * nat ((w + 1) div 2 * ((h + 1) div 2))"
proof -
  let ?c = "(w + 1) div 2 * ((h + 1) div 2)"
  have t: "tdiv (w + 1) 2 = (w + 1) div 2" "tdiv (h + 1) 2 = (h + 1) div 2"
    using assms by (simp_all add: tdiv_nonneg)
  have c: "0 \<le> (w + 1) div 2" "(w + 1) div 2 < 2 ^ 30 + 1" "0 \<le> (h + 1) div 2" "(h + 1) div 2 < 2 ^ 30 + 1"
    using assms by auto
  show y: "unat (of_int w * of_int h :: u64) = nat (w * h)" using assms by (intro size_product) auto
  show cc: "unat (of_int (tdiv (w + 1) 2) * of_int (tdiv (h + 1) 2) :: u64) = nat ?c"
    unfolding t using c by (intro size_product) auto
  have b: "w * h < 2 ^ 62" "0 \<le> w * h" "?c < 2 ^ 62" "0 \<le> ?c"
    using size_product(2,3) [of w h] size_product(2,3) [of "(w + 1) div 2" "(h + 1) div 2"] assms c by auto
  have "i420Size w h = of_int (w * h + 2 * ?c)" by (simp add: i420Size_def t Let_def)
  moreover have "unat (of_int (w * h + 2 * ?c) :: u64) = nat (w * h + 2 * ?c)"
    by (rule of_int_size) (use b in \<open>auto intro: three_parts\<close>)
  ultimately have "unat (i420Size w h) = nat (w * h + 2 * ?c)" by simp
  then show "unat (i420Size w h) = nat (w * h) + 2 * nat ?c" using b by (simp add: nat_add_distrib nat_mult_distrib)
qed

lemma makeI420_planes:
  assumes "w < 2 ^ 31 - 1" "h < 2 ^ 31 - 1"
    "f = makeI420 (Some (a, b)) w h t" "cw = (w + 1) div 2" "ch = (h + 1) div 2"
  shows "(vf_valid f \<longleftrightarrow> 0 < w \<and> 0 < h \<and> unat (i420Size w h) \<le> pb_capacity b) \<and>
    (if vf_valid f then
       vf_format f = I420 \<and> vf_buffer f = Some (a, b) \<and> vf_captureTime f = t \<and>
       map pl_stride (vf_planes f) = [w, cw, cw] \<and>
       map pl_data (vf_planes f) = [Some (pb_data b), Some (pb_data b + nat (w * h)),
         Some (pb_data b + nat (w * h) + nat (cw * ch))] \<and>
       pb_data b + nat (w * h) + nat (cw * ch) + nat (cw * ch) \<le> pb_data b + pb_capacity b
     else f = new_video_frame)"
proof (cases "0 < w \<and> 0 < h")
  case False
  then show ?thesis using assms(3) by (auto simp: makeI420_def new_video_frame_def vf_valid_def)
next
  case True
  note parts = i420_parts [of w h, OF _ assms(1) _ assms(2)]
  have t: "tdiv (w + 1) 2 = cw" "tdiv (h + 1) 2 = ch"
    using True assms(4,5) by (simp_all add: tdiv_nonneg)
  have sum: "of_int w * of_int h + 2 * (of_int cw * of_int ch) = i420Size w h"
    by (simp add: i420Size_def t Let_def)
  show ?thesis
  proof (cases "unat (i420Size w h) \<le> pb_capacity b")
    case False
    then show ?thesis using assms(3) True sum
      by (auto simp: makeI420_def new_video_frame_def vf_valid_def t Let_def)
  next
    case fits: True
    have y: "unat (of_int w * of_int h :: u64) = nat (w * h)"
      "unat (of_int cw * of_int ch :: u64) = nat (cw * ch)"
      using parts True unfolding t assms(4,5) by auto
    have f: "f = new_video_frame\<lparr>vf_format := I420, vf_width := w, vf_height := h,
        vf_planes := [\<lparr>pl_data = Some (pb_data b), pl_stride = w\<rparr>,
          \<lparr>pl_data = Some (pb_data b + nat (w * h)), pl_stride = cw\<rparr>,
          \<lparr>pl_data = Some (pb_data b + nat (w * h) + nat (cw * ch)), pl_stride = cw\<rparr>],
        vf_captureTime := t, vf_buffer := Some (a, b)\<rparr>"
      using fits True unfolding assms(3) makeI420_def option.case prod.case Let_def t sum y by simp
    then show ?thesis using True fits parts(3) assms(4,5)
      by (simp add: vf_valid_def new_video_frame_def)
  qed
qed

text \<open>A frame over a pool buffer: \<open>makeI420\<close> gives a valid frame exactly when both sizes are
  positive and the buffer holds \<open>i420Size\<close> bytes, and then the three planes follow each other
  without gap or overlap from the start of the buffer, end inside it, and their rows are as long as
  the strides; a frame that is not valid holds no buffer.\<close>

theorem makeI420_layout:
  assumes "w < 2 ^ 31 - 1" "h < 2 ^ 31 - 1"
    "f = makeI420 (Some (a, b)) w h t" "cw = (w + 1) div 2" "ch = (h + 1) div 2"
  shows "(vf_valid f \<longleftrightarrow> 0 < w \<and> 0 < h \<and> unat (i420Size w h) \<le> pb_capacity b) \<and>
    (if vf_valid f then
       vf_format f = I420 \<and> vf_buffer f = Some (a, b) \<and> vf_captureTime f = t \<and>
       map pl_stride (vf_planes f) = [w, cw, cw] \<and>
       map pl_data (vf_planes f) = [Some (pb_data b), Some (pb_data b + nat (w * h)),
         Some (pb_data b + nat (w * h) + nat (cw * ch))] \<and>
       pb_data b + nat (w * h) + nat (cw * ch) + nat (cw * ch) \<le> pb_data b + pb_capacity b
     else f = new_video_frame)"
  using makeI420_planes [OF assms] .

definition demo_buffer :: pool_buffer where
  "demo_buffer = \<lparr>pb_data = 100, pb_capacity = 30, pb_slot = 1\<rparr>"

lemma makeI420_layout_witness:
  "vf_valid (makeI420 (Some (0, demo_buffer)) 5 3 7) \<and>
   map pl_data (vf_planes (makeI420 (Some (0, demo_buffer)) 5 3 7)) = [Some 100, Some 115, Some 121]"
proof -
  define f where "f = makeI420 (Some (0, demo_buffer)) 5 3 7"
  have size: "unat (i420Size 5 3) \<le> pb_capacity demo_buffer"
    using i420_parts(3) [of 5 3] by (simp add: demo_buffer_def)
  have side: "(5::int) < 2 ^ 31 - 1" "(3::int) < 2 ^ 31 - 1" "(3::int) = (5 + 1) div 2" "(2::int) = (3 + 1) div 2"
    by simp_all
  note layout = makeI420_layout [OF side(1,2) f_def side(3,4)]
  have "vf_valid f" using layout [THEN conjunct1] size by (simp only:) simp
  then have "map pl_data (vf_planes f) = [Some (pb_data demo_buffer), Some (pb_data demo_buffer + nat (5 * 3)),
      Some (pb_data demo_buffer + nat (5 * 3) + nat (3 * 2))]"
    using layout [THEN conjunct2] by simp
  with \<open>vf_valid f\<close> show ?thesis by (simp add: f_def demo_buffer_def)
qed

text \<open>Audio blocks: the samples of a valid block fit its buffer, and its duration is the exact
  quotient rounded down.\<close>

lemma makePcm_fits:
  assumes "n < 2 ^ 31" "channels fmt < 2 ^ 31" "af_valid (makePcm (Some (a, b)) fmt n t)"
  shows "nat n * nat (channels fmt) * 2 \<le> pb_capacity b"
    "af_samples (makePcm (Some (a, b)) fmt n t) = Some (pb_data b)"
proof -
  have c: "0 < n" "0 < channels fmt"
    using assms(3) by (auto simp: makePcm_def af_valid_def new_audio_frame_def Let_def split: if_splits)
  then have "n * channels fmt < 2 ^ 62" "0 \<le> n * channels fmt" using assms size_product by auto
  moreover have "of_int n * of_int (channels fmt) * 2 = (of_int (n * channels fmt * 2) :: u64)" by simp
  ultimately have "unat (of_int n * of_int (channels fmt) * 2 :: u64) = nat (n * channels fmt * 2)"
    using of_int_size [of "n * channels fmt * 2"] three_parts [of 0 "n * channels fmt"] by (simp add: mult.commute)
  then show "nat n * nat (channels fmt) * 2 \<le> pb_capacity b"
    "af_samples (makePcm (Some (a, b)) fmt n t) = Some (pb_data b)"
    using assms(3) c by (auto simp: makePcm_def af_valid_def new_audio_frame_def Let_def nat_mult_distrib split: if_splits)
qed

lemma duration_exact:
  "0 \<le> af_sampleCount a \<Longrightarrow> 0 < sampleRateHz (af_format a) \<Longrightarrow>
   af_duration a = af_sampleCount a * 1000000000 div sampleRateHz (af_format a)"
  by (simp add: af_duration_def tdiv_nonneg)

end
