(* ===== verification/Pixel.thy ===== *)
theory Pixel
  imports Pool
begin

text \<open>
  Pixel format conversion (src/src/capture/PixelConvert.h) and the synthetic frame source
  (src/src/ui/MockFrameSource.cpp). The nested loops over rows and columns write the
  destination buffer in place; the first lemmas give the buffer after such loops as the
  concatenation of its planes.
\<close>

section \<open>PixelConvert.h\<close>

definition chromaWidth :: "nat \<Rightarrow> nat" where
  "chromaWidth w = (w + 1) div 2"

definition chromaHeight :: "nat \<Rightarrow> nat" where
  "chromaHeight h = (h + 1) div 2"

definition nv12ToI420 :: "bytes \<Rightarrow> nat \<Rightarrow> bytes \<Rightarrow> nat \<Rightarrow> nat \<Rightarrow> nat \<Rightarrow> bytes \<Rightarrow> bytes" where
  "nv12ToI420 srcY srcYStride srcUV srcUVStride w h dst =
     (let cw = chromaWidth w;
          ch = chromaHeight h;
          dstU = w * h;
          dstV = dstU + cw * ch;
          dst = fold (\<lambda>y d. let srow = y * srcYStride; drow = y * w in
                  fold (\<lambda>x d. d[drow + x := srcY ! (srow + x)]) [0..<w] d) [0..<h] dst
      in fold (\<lambda>y d. let srow = y * srcUVStride; du = dstU + y * cw; dv = dstV + y * cw in
           fold (\<lambda>x d. d[du + x := srcUV ! (srow + 2 * x + 0), dv + x := srcUV ! (srow + 2 * x + 1)]) [0..<cw] d)
         [0..<ch] dst)"

definition clamp8 :: "int \<Rightarrow> u8" where
  "clamp8 v = of_int (if v < 0 then 0 else if v > 255 then 255 else v)"

text \<open>\<^verbatim>\<open>>>\<close> on a negative \<^verbatim>\<open>int\<close> is the arithmetic shift, that is \<open>div\<close>; the bytes
  are promoted to \<^verbatim>\<open>int\<close>, where none of these sums can overflow.\<close>

definition bgra_y :: "u8 \<Rightarrow> u8 \<Rightarrow> u8 \<Rightarrow> u8" where
  "bgra_y b g r = clamp8 ((66 * uint r + 129 * uint g + 25 * uint b + 128) div 256 + 16)"

definition bgra_u :: "u8 \<Rightarrow> u8 \<Rightarrow> u8 \<Rightarrow> u8" where
  "bgra_u b g r = clamp8 ((- 38 * uint r - 74 * uint g + 112 * uint b + 128) div 256 + 128)"

definition bgra_v :: "u8 \<Rightarrow> u8 \<Rightarrow> u8 \<Rightarrow> u8" where
  "bgra_v b g r = clamp8 ((112 * uint r - 94 * uint g - 18 * uint b + 128) div 256 + 128)"

definition bgraToI420 :: "bytes \<Rightarrow> nat \<Rightarrow> nat \<Rightarrow> nat \<Rightarrow> bytes \<Rightarrow> bytes" where
  "bgraToI420 src srcStride w h dst =
     (let cw = chromaWidth w;
          ch = chromaHeight h;
          dstU = w * h;
          dstV = dstU + cw * ch;
          dst = fold (\<lambda>y d. let srow = y * srcStride; drow = y * w in
                  fold (\<lambda>x d. let b = src ! (srow + 4 * x + 0); g = src ! (srow + 4 * x + 1);
                                  r = src ! (srow + 4 * x + 2)
                    in d[drow + x := bgra_y b g r]) [0..<w] d) [0..<h] dst
      in fold (\<lambda>cy d. let sy = cy * 2; srow = sy * srcStride; du = dstU + cy * cw; dv = dstV + cy * cw in
           fold (\<lambda>cx d. let sx = cx * 2; b = src ! (srow + 4 * sx + 0); g = src ! (srow + 4 * sx + 1);
                            r = src ! (srow + 4 * sx + 2)
             in d[du + cx := bgra_u b g r, dv + cx := bgra_v b g r]) [0..<cw] d)
         [0..<ch] dst)"

section \<open>MockFrameSource.cpp\<close>

definition kBars :: "(int \<times> u8 \<times> u8) list" where
  "kBars = [(235, 128, 128), (210, 16, 146), (170, 166, 16), (145, 54, 34),
            (106, 202, 222), (81, 90, 240), (41, 240, 110), (16, 128, 128)]"

text \<open>The bar index; \<^verbatim>\<open>& 7\<close> of an \<^verbatim>\<open>int\<close> is the remainder modulo 8, whatever the sign.\<close>

definition barIdx :: "int \<Rightarrow> int \<Rightarrow> int \<Rightarrow> nat" where
  "barIdx col scroll w = nat (tdiv ((col + scroll) * 8) (max 1 w) mod 8)"

definition luma_at :: "int \<Rightarrow> int \<Rightarrow> int \<Rightarrow> int \<Rightarrow> int \<Rightarrow> u8" where
  "luma_at scroll w h row col =
     (let grad = tdiv (row * 24) (max 1 h);
          yv = fst (kBars ! barIdx col scroll w) + grad - 12
      in of_int (if yv < 16 then 16 else if 235 < yv then 235 else yv))"

definition plane_base :: "video_frame \<Rightarrow> nat \<Rightarrow> nat" where
  "plane_base f i = the (pl_data (vf_planes f ! i))"

definition plane_stride :: "video_frame \<Rightarrow> nat \<Rightarrow> nat" where
  "plane_stride f i = nat (pl_stride (vf_planes f ! i))"

definition fillPattern :: "video_frame \<Rightarrow> u64 \<Rightarrow> bytes \<Rightarrow> bytes" where
  "fillPattern f phase mem =
     (let w = vf_width f; h = vf_height f; cw = tdiv (w + 1) 2; ch = tdiv (h + 1) 2;
          scroll = sint (ucast (phase * 2) :: i32);
          mem = fold (\<lambda>row d. let dst = plane_base f 0 + row * plane_stride f 0 in
                  fold (\<lambda>col d. d[dst + col := luma_at scroll w h (int row) (int col)]) [0..<nat w] d) [0..<nat h] mem
      in fold (\<lambda>row d. let uDst = plane_base f 1 + row * plane_stride f 1;
                            vDst = plane_base f 2 + row * plane_stride f 2 in
           fold (\<lambda>col d. let bar = kBars ! barIdx (int col * 2) scroll w
             in d[uDst + col := fst (snd bar), vDst + col := snd (snd bar)]) [0..<nat cw] d)
         [0..<nat ch] mem)"

text \<open>The source owns its pool, whose storage is \<open>ms_mem\<close>; \<open>ms_timer\<close> is the interval of the
  running timer. \<open>now\<close> is the reading of the media clock.\<close>

record mock_source =
  ms_width :: int
  ms_height :: int
  ms_fps :: int
  ms_frameCounter :: u64
  ms_heap :: pool_heap
  ms_mem :: bytes
  ms_timer :: "int option"

definition new_mock_source :: "int \<Rightarrow> int \<Rightarrow> int \<Rightarrow> mock_source" where
  "new_mock_source width height fps =
     (let w = max 2 width; h = max 2 height; sz = unat (i420Size w h)
      in \<lparr>ms_width = w, ms_height = h, ms_fps = max 1 fps, ms_frameCounter = 0,
          ms_heap = new_pool_heap sz 4, ms_mem = replicate (sz * 4) 0, ms_timer = None\<rparr>)"

definition mock_start :: "mock_source \<Rightarrow> status \<times> mock_source" where
  "mock_start m = (if ms_width m \<le> 0 \<or> ms_height m \<le> 0 then (fail InvalidArgument, m)
     else if ms_timer m \<noteq> None then (ok, m)
     else (ok, m\<lparr>ms_timer := Some (tdiv 1000 (ms_fps m))\<rparr>))"

definition mock_stop :: "mock_source \<Rightarrow> mock_source" where
  "mock_stop m = m\<lparr>ms_timer := None\<rparr>"

text \<open>\<^verbatim>\<open>generateOne\<close>. A frame that is not valid does not keep the buffer, whose only pointer is
  then destroyed.\<close>

definition generateOne :: "steady_time \<Rightarrow> mock_source \<Rightarrow> video_frame result \<times> mock_source" where
  "generateOne now m = (case acquire_ptr (ms_heap m) of
     (None, hp) \<Rightarrow> (fail ResourceExhausted, m\<lparr>ms_heap := hp\<rparr>)
   | (Some buf, hp) \<Rightarrow>
       let frame = makeI420 (Some buf) (ms_width m) (ms_height m) now in
       if \<not> vf_valid frame then (fail Internal, m\<lparr>ms_heap := drop_ptr (fst buf) hp\<rparr>)
       else (Inr frame, m\<lparr>ms_heap := hp, ms_mem := fillPattern frame (ms_frameCounter m) (ms_mem m),
               ms_frameCounter := ms_frameCounter m + 1\<rparr>))"

text \<open>\<^verbatim>\<open>tick\<close>: the emitted frame, if any.\<close>

definition mock_tick :: "steady_time \<Rightarrow> mock_source \<Rightarrow> video_frame option \<times> mock_source" where
  "mock_tick now m = (case generateOne now m of
     (Inl _, m') \<Rightarrow> (None, m') | (Inr f, m') \<Rightarrow> (Some f, m'))"

section \<open>Loops that write planes\<close>

definition pixels :: "nat \<Rightarrow> nat \<Rightarrow> (nat \<Rightarrow> nat \<Rightarrow> 'a) \<Rightarrow> 'a list" where
  "pixels w h f = concat (map (\<lambda>y. map (f y) [0..<w]) [0..<h])"

lemma length_pixels [simp]: "length (pixels w h f) = h * w"
  by (simp add: pixels_def length_concat comp_def sum_list_triv)

lemma set_pixels: "set (pixels w h f) = {f y x | x y. x < w \<and> y < h}"
  by (auto simp: pixels_def) blast

lemma nth_pixels: "y < h \<Longrightarrow> x < w \<Longrightarrow> pixels w h f ! (y * w + x) = f y x"
proof (induction h)
  case (Suc h)
  have "y * w + x < h * w" if "y < h"
  proof -
    have "Suc y * w \<le> h * w" using that by (intro mult_le_mono1) simp
    then show ?thesis using Suc.prems by simp
  qed
  moreover have "pixels w (Suc h) f = pixels w h f @ map (f h) [0..<w]" by (simp add: pixels_def)
  ultimately show ?case using Suc by (cases "y = h") (auto simp: nth_append)
qed simp

definition write_row :: "nat \<Rightarrow> nat \<Rightarrow> (nat \<Rightarrow> 'a) \<Rightarrow> 'a list \<Rightarrow> 'a list" where
  "write_row a n f d = fold (\<lambda>x d. d[a + x := f x]) [0..<n] d"

definition write_plane :: "nat \<Rightarrow> nat \<Rightarrow> nat \<Rightarrow> (nat \<Rightarrow> nat \<Rightarrow> 'a) \<Rightarrow> 'a list \<Rightarrow> 'a list" where
  "write_plane a w h f d = fold (\<lambda>y. write_row (a + y * w) w (f y)) [0..<h] d"

lemma length_write_row [simp]: "length (write_row a n f d) = length d"
  by (induction n) (simp_all add: write_row_def)

lemma length_write_plane [simp]: "length (write_plane a w h f d) = length d"
  by (induction h) (simp_all add: write_plane_def)

lemma write_row_eq:
  "a + n \<le> length d \<Longrightarrow> write_row a n f d = take a d @ map f [0..<n] @ drop (a + n) d"
proof (induction n)
  case (Suc n)
  then have "write_row a (Suc n) f d = (take a d @ map f [0..<n] @ drop (a + n) d)[a + n := f n]"
    by (simp add: write_row_def)
  also have "drop (a + n) d = d ! (a + n) # drop (a + Suc n) d"
    using Suc.prems by (simp add: Cons_nth_drop_Suc)
  finally show ?case using Suc.prems by (simp add: list_update_append)
qed (simp add: write_row_def)

lemma write_plane_eq:
  "a + h * w \<le> length d \<Longrightarrow> write_plane a w h f d = take a d @ pixels w h f @ drop (a + h * w) d"
proof (induction h)
  case (Suc h)
  then have "write_plane a w (Suc h) f d = write_row (a + h * w) w (f h) (take a d @ pixels w h f @ drop (a + h * w) d)"
    by (simp add: write_plane_def)
  also have "\<dots> = take a d @ pixels w h f @ map (f h) [0..<w] @ drop (a + h * w + w) d"
    using Suc.prems by (simp add: write_row_eq add.commute)
  finally show ?case by (simp add: pixels_def add.commute add.left_commute)
qed (simp add: write_plane_def pixels_def)

text \<open>A write below a plane commutes with writing the plane, so a loop that writes two planes in
  step writes them one after the other.\<close>

lemma write_row_update: "i < a \<Longrightarrow> (write_row a n f d)[i := v] = write_row a n f (d[i := v])"
  by (induction n) (simp_all add: write_row_def list_update_swap)

lemma write_plane_update: "i < a \<Longrightarrow> (write_plane a w h f d)[i := v] = write_plane a w h f (d[i := v])"
  by (induction h) (simp_all add: write_plane_def write_row_update)

lemma write_row_row:
  "a + n \<le> b \<Longrightarrow> fold (\<lambda>x d. d[a + x := f x, b + x := g x]) [0..<n] d = write_row b n g (write_row a n f d)"
proof (induction n)
  case (Suc n)
  then show ?case
    by (simp add: write_row_def [of b "Suc n"] write_row_def [of a "Suc n"] flip: write_row_def)
      (simp add: write_row_update)
qed (simp add: write_row_def)

lemma write_row_plane:
  "a + n \<le> b \<Longrightarrow> write_row a n f (write_plane b w h g d) = write_plane b w h g (write_row a n f d)"
  by (induction n) (simp_all add: write_row_def write_plane_update)

lemma write_planes:
  "a + h * w \<le> b \<Longrightarrow>
   fold (\<lambda>y d. write_row (b + y * w) w (g y) (write_row (a + y * w) w (f y) d)) [0..<h] d =
   write_plane b w h g (write_plane a w h f d)"
proof (induction h)
  case (Suc h)
  then show ?case
    by (simp add: write_plane_def [of b w "Suc h"] write_plane_def [of a w "Suc h"] flip: write_plane_def)
      (simp add: write_row_plane)
qed (simp add: write_plane_def)

text \<open>Three planes written one behind the other, from position \<open>p\<close> of a buffer.\<close>

lemma write_planes3:
  assumes "p + (w * h + cw * ch + cw * ch) \<le> length d"
  shows "write_plane (p + w * h + cw * ch) cw ch fv (write_plane (p + w * h) cw ch fu (write_plane p w h fy d)) =
    take p d @ pixels w h fy @ pixels cw ch fu @ pixels cw ch fv @ drop (p + (w * h + cw * ch + cw * ch)) d"
proof -
  have "write_plane p w h fy d = (take p d @ pixels w h fy) @ drop (p + w * h) d"
    using assms by (simp add: write_plane_eq mult.commute)
  moreover have "write_plane (p + w * h) cw ch fu ((take p d @ pixels w h fy) @ drop (p + w * h) d) =
      (take p d @ pixels w h fy @ pixels cw ch fu) @ drop (p + w * h + cw * ch) d"
    using assms by (simp add: write_plane_eq mult.commute add.commute add.left_commute)
  moreover have "write_plane (p + w * h + cw * ch) cw ch fv
        ((take p d @ pixels w h fy @ pixels cw ch fu) @ drop (p + w * h + cw * ch) d) =
      (take p d @ pixels w h fy @ pixels cw ch fu) @ pixels cw ch fv @ drop (p + (w * h + cw * ch + cw * ch)) d"
    using assms by (simp add: write_plane_eq mult.commute add.commute add.left_commute)
  ultimately show ?thesis by simp
qed

lemmas write_i420 = write_planes3 [of 0, simplified]

definition i420_bytes :: "nat \<Rightarrow> nat \<Rightarrow> nat" where
  "i420_bytes w h = w * h + chromaWidth w * chromaHeight h + chromaWidth w * chromaHeight h"

text \<open>The loops of the code.\<close>

lemma plane_loop:
  "fold (\<lambda>y d. fold (\<lambda>x d. d[a + y * w + x := f y x]) [0..<w] d) [0..<h] d = write_plane a w h f d"
  by (simp add: write_plane_def write_row_def [abs_def])

lemma plane_loop0:
  "fold (\<lambda>y d. fold (\<lambda>x d. d[y * w + x := f y x]) [0..<w] d) [0..<h] d = write_plane 0 w h f d"
  by (simp add: write_plane_def write_row_def [abs_def])

lemma planes_loop:
  assumes "a + h * w \<le> b"
  shows "fold (\<lambda>y d. fold (\<lambda>x d. d[a + y * w + x := f y x, b + y * w + x := g y x]) [0..<w] d) [0..<h] d =
    write_plane b w h g (write_plane a w h f d)"
proof -
  have "a + y * w + w \<le> b + y * w" if "y < h" for y
  proof -
    have "w \<le> h * w" using that by (cases h) auto
    then show ?thesis using assms by linarith
  qed
  then have "fold (\<lambda>y d. fold (\<lambda>x d. d[a + y * w + x := f y x, b + y * w + x := g y x]) [0..<w] d) [0..<h] d =
      fold (\<lambda>y d. write_row (b + y * w) w (g y) (write_row (a + y * w) w (f y) d)) [0..<h] d"
    by (intro fold_cong refl ext write_row_row) simp
  then show ?thesis by (simp add: write_planes [OF assms])
qed

lemma nv12_planes:
  assumes "i420_bytes w h \<le> length dst"
  shows "nv12ToI420 srcY sy srcUV suv w h dst =
    pixels w h (\<lambda>y x. srcY ! (y * sy + x)) @
    pixels (chromaWidth w) (chromaHeight h) (\<lambda>y x. srcUV ! (y * suv + 2 * x)) @
    pixels (chromaWidth w) (chromaHeight h) (\<lambda>y x. srcUV ! (y * suv + 2 * x + 1)) @ drop (i420_bytes w h) dst"
  using write_i420 [OF assms [unfolded i420_bytes_def]]
  unfolding nv12ToI420_def Let_def plane_loop0 i420_bytes_def
  by (subst planes_loop) simp_all

lemma bgra_planes:
  assumes "i420_bytes w h \<le> length dst"
  shows "bgraToI420 src st w h dst =
    pixels w h (\<lambda>y x. bgra_y (src ! (y * st + 4 * x)) (src ! (y * st + 4 * x + 1)) (src ! (y * st + 4 * x + 2))) @
    pixels (chromaWidth w) (chromaHeight h)
      (\<lambda>y x. bgra_u (src ! (2 * y * st + 8 * x)) (src ! (2 * y * st + 8 * x + 1)) (src ! (2 * y * st + 8 * x + 2))) @
    pixels (chromaWidth w) (chromaHeight h)
      (\<lambda>y x. bgra_v (src ! (2 * y * st + 8 * x)) (src ! (2 * y * st + 8 * x + 1)) (src ! (2 * y * st + 8 * x + 2))) @
    drop (i420_bytes w h) dst"
  using write_i420 [OF assms [unfolded i420_bytes_def]]
  unfolding bgraToI420_def Let_def plane_loop0 i420_bytes_def
  by (subst planes_loop) (simp_all add: mult.commute mult.left_commute)

text \<open>The studio range of the coefficients.\<close>

lemma u8_int: "0 \<le> uint (x :: u8)" "uint (x :: u8) \<le> 255"
  using uint_bounded [of x] by simp_all

lemma clamp8_id: "0 \<le> v \<Longrightarrow> v \<le> 255 \<Longrightarrow> uint (clamp8 v) = v"
  by (simp add: clamp8_def uint_word_of_int take_bit_eq_mod)

lemma bgra_y_range: "16 \<le> uint (bgra_y b g r) \<and> uint (bgra_y b g r) \<le> 235"
proof -
  let ?v = "(66 * uint r + 129 * uint g + 25 * uint b + 128) div 256"
  have "0 \<le> ?v" "?v \<le> 219" using u8_int [of r] u8_int [of g] u8_int [of b] by linarith+
  then show ?thesis by (simp add: bgra_y_def clamp8_id)
qed

lemma bgra_uv_range:
  "16 \<le> uint (bgra_u b g r) \<and> uint (bgra_u b g r) \<le> 240" (is ?U)
  "16 \<le> uint (bgra_v b g r) \<and> uint (bgra_v b g r) \<le> 240" (is ?V)
proof -
  note bounds = u8_int [of r] u8_int [of g] u8_int [of b]
  let ?u = "(- 38 * uint r - 74 * uint g + 112 * uint b + 128) div 256"
  let ?v = "(112 * uint r - 94 * uint g - 18 * uint b + 128) div 256"
  have "- 112 \<le> ?u" "?u \<le> 112" "- 112 \<le> ?v" "?v \<le> 112" using bounds by linarith+
  then show ?U ?V by (simp_all add: bgra_u_def bgra_v_def clamp8_id)
qed


definition demo_bgra :: bytes where
  "demo_bgra = [0, 0, 255, 255, 0, 255, 0, 255, 9, 9, 255, 0, 0, 255, 128, 128, 128, 255, 9, 9]"


section \<open>The synthetic frames\<close>

lemma luma_range: "16 \<le> uint (luma_at scroll w h row col) \<and> uint (luma_at scroll w h row col) \<le> 235"
  by (auto simp: luma_at_def Let_def uint_word_of_int take_bit_eq_mod)

text \<open>The pattern fills the three planes of a frame and nothing outside them: \<open>base\<close> is where the
  frame's buffer starts in the storage.\<close>

lemma fillPattern_planes:
  assumes "vf_valid f" "f = makeI420 (Some (a, b)) w h t" "w < 2 ^ 31 - 1" "h < 2 ^ 31 - 1"
    "pb_data b + pb_capacity b \<le> length mem" "n = i420_bytes (nat w) (nat h)"
  shows "pb_data b + n \<le> length mem \<and> n \<le> pb_capacity b \<and>
    (\<exists>y u v. length y = nat w * nat h \<and> list_all (\<lambda>c. 16 \<le> uint c \<and> uint c \<le> 235) y \<and>
      length (y @ u @ v) = n \<and>
      fillPattern f phase mem = take (pb_data b) mem @ (y @ u @ v) @ drop (pb_data b + n) mem)"
proof -
  define cw ch where "cw = chromaWidth (nat w)" and "ch = chromaHeight (nat h)"
  have pos: "0 < w" "0 < h" and cap: "unat (i420Size w h) \<le> pb_capacity b"
    using makeI420_planes [OF assms(3,4,2) refl refl] assms(1) by blast+
  have c: "nat ((w + 1) div 2) = cw" "nat ((h + 1) div 2) = ch" "tdiv (w + 1) 2 = int cw" "tdiv (h + 1) 2 = int ch"
    using pos by (simp_all add: cw_def ch_def chromaWidth_def chromaHeight_def nat_div_distrib nat_add_distrib tdiv_nonneg)
  have prod: "nat (w * h) = nat w * nat h" "nat ((w + 1) div 2 * ((h + 1) div 2)) = cw * ch"
    using pos c(1,2) by (simp_all add: nat_mult_distrib)
  have n: "n = nat w * nat h + cw * ch + cw * ch" by (simp add: assms(6) i420_bytes_def cw_def ch_def)
  have fits: "n \<le> pb_capacity b"
    using cap i420_parts(3) [OF pos(1) assms(3) pos(2) assms(4)] prod n by simp
  let ?base = "pb_data b"
  have pl: "map pl_stride (vf_planes f) = [w, int cw, int cw]"
    "map pl_data (vf_planes f) = [Some ?base, Some (?base + nat w * nat h), Some (?base + nat w * nat h + cw * ch)]"
    using makeI420_planes [OF assms(3,4,2) refl refl] assms(1) prod c pos by (simp_all add: tdiv_nonneg)
  have size: "vf_width f = w" "vf_height f = h"
    using assms(1) unfolding assms(2)
    by (auto simp: makeI420_def vf_valid_def new_video_frame_def Let_def split: if_splits)
  obtain p0 p1 p2 where ps: "vf_planes f = [p0, p1, p2]" using pl(1) by (auto simp: map_eq_Cons_conv)
  have geo: "plane_base f 0 = ?base" "plane_base f (Suc 0) = ?base + nat w * nat h"
    "plane_base f 2 = ?base + nat w * nat h + cw * ch"
    "plane_stride f 0 = nat w" "plane_stride f (Suc 0) = cw" "plane_stride f 2 = cw"
    using pl by (simp_all add: plane_base_def plane_stride_def ps)
  have room: "?base + (nat w * nat h + cw * ch + cw * ch) \<le> length mem" using fits assms(5) n by simp
  obtain fy fu fv where "fillPattern f phase mem = write_plane (?base + nat w * nat h + cw * ch) cw ch fv
      (write_plane (?base + nat w * nat h) cw ch fu (write_plane ?base (nat w) (nat h) fy mem))"
    and fy: "fy = (\<lambda>y x. luma_at (sint (ucast (phase * 2) :: i32)) w h (int y) (int x))"
    unfolding fillPattern_def Let_def size geo One_nat_def c nat_int plane_loop
    by (subst (asm) planes_loop) simp_all
  moreover have "list_all (\<lambda>c. 16 \<le> uint c \<and> uint c \<le> 235) (pixels (nat w) (nat h) fy)"
    unfolding list_all_iff set_pixels fy using luma_range by blast
  moreover have "length (pixels (nat w) (nat h) fy @ pixels cw ch fu @ pixels cw ch fv) = n"
    by (simp add: n mult.commute)
  ultimately show ?thesis using write_planes3 [OF room, of fv fu fy] room fits
    by (intro conjI exI [of _ "pixels (nat w) (nat h) fy"] exI [of _ "pixels cw ch fu"] exI [of _ "pixels cw ch fv"])
      (simp_all add: n mult.commute)
qed

text \<open>While fewer than four frames are held, the source produces a valid frame at its clock time.\<close>

lemma generateOne_frame:
  assumes "fp_freeSlots (ph_pool (ms_heap m)) \<noteq> []" "fp_bufferSize (ph_pool (ms_heap m)) = unat (i420Size (ms_width m) (ms_height m))"
    "0 < ms_width m" "ms_width m < 2 ^ 31 - 1" "0 < ms_height m" "ms_height m < 2 ^ 31 - 1"
  obtains f m' where "generateOne now m = (Inr f, m')" "vf_valid f" "vf_captureTime f = now"
proof -
  obtain b p where acq: "acquire (ph_pool (ms_heap m)) = (Some b, p)"
    "pb_capacity b = unat (i420Size (ms_width m) (ms_height m))"
    using assms(1,2) by (simp add: acquire_def Let_def)
  let ?f = "makeI420 (Some (ph_next (ms_heap m), b)) (ms_width m) (ms_height m) now"
  have v: "vf_valid ?f"
    using makeI420_planes [OF assms(4,6) refl refl refl] assms(3,5) acq(2) by simp
  have t: "vf_captureTime ?f = now"
    using makeI420_planes [OF assms(4,6) refl refl refl, THEN conjunct2] v by simp
  show thesis
    by (rule that) (use v t acq(1) in \<open>simp_all add: generateOne_def acquire_ptr_def Let_def\<close>)
qed

end
