(* ===== verification/Sha1.thy ===== *)
theory Sha1
  imports Prelude
begin

text \<open>
  The SHA-1 and base64 routines of the WebSocket handshake (src/src/signaling/SignalingClient.cpp,
  lines 23 to 139): first the code, then the digest of FIPS 180-4 stated independently, the
  refinement of one by the other for every way of feeding the data, and a decoder that inverts
  the base64 encoder.
\<close>

section \<open>The class Sha1\<close>

type_synonym sha_vars = "u32 \<times> u32 \<times> u32 \<times> u32 \<times> u32"

record sha1 =
  sh_h :: sha_vars
  sh_buffer :: bytes
  sh_bufferLen :: nat
  sh_totalLen :: u64

definition sha1_reset :: sha1 where
  "sha1_reset = \<lparr>sh_h = (0x67452301, 0xEFCDAB89, 0x98BADCFE, 0x10325476, 0xC3D2E1F0),
     sh_buffer = replicate 64 0, sh_bufferLen = 0, sh_totalLen = 0\<rparr>"

definition rol :: "u32 \<Rightarrow> nat \<Rightarrow> u32" where
  "rol v b = push_bit b v OR drop_bit (32 - b) v"

definition block_words :: "bytes \<Rightarrow> u32 list" where
  "block_words p = map (\<lambda>i. push_bit 24 (ucast (p ! (i * 4))) OR push_bit 16 (ucast (p ! (i * 4 + 1))) OR
     push_bit 8 (ucast (p ! (i * 4 + 2))) OR ucast (p ! (i * 4 + 3))) [0..<16]"

definition schedule_step :: "nat \<Rightarrow> u32 list \<Rightarrow> u32 list" where
  "schedule_step i w = w @ [rol (w ! (i - 3) XOR w ! (i - 8) XOR w ! (i - 14) XOR w ! (i - 16)) 1]"

definition schedule :: "bytes \<Rightarrow> u32 list" where
  "schedule p = fold schedule_step [16..<80] (block_words p)"

definition sha_fk :: "nat \<Rightarrow> u32 \<Rightarrow> u32 \<Rightarrow> u32 \<Rightarrow> u32 \<times> u32" where
  "sha_fk i b c d =
     (if i < 20 then ((b AND c) OR (NOT b AND d), 0x5A827999)
      else if i < 40 then (b XOR c XOR d, 0x6ED9EBA1)
      else if i < 60 then ((b AND c) OR (b AND d) OR (c AND d), 0x8F1BBCDC)
      else (b XOR c XOR d, 0xCA62C1D6))"

fun sha_round :: "u32 list \<Rightarrow> nat \<Rightarrow> sha_vars \<Rightarrow> sha_vars" where
  "sha_round w i (a, b, c, d, e) =
     (let (f, k) = sha_fk i b c d;
          tmp = rol a 5 + f + e + k + w ! i
      in (tmp, a, rol b 30, c, d))"

fun add_vars :: "sha_vars \<Rightarrow> sha_vars \<Rightarrow> sha_vars" where
  "add_vars (h0, h1, h2, h3, h4) (a, b, c, d, e) = (h0 + a, h1 + b, h2 + c, h3 + d, h4 + e)"

definition processBlock :: "sha_vars \<Rightarrow> bytes \<Rightarrow> sha_vars" where
  "processBlock h p = add_vars h (fold (sha_round (schedule p)) [0..<80] h)"

definition update_byte :: "u8 \<Rightarrow> sha1 \<Rightarrow> sha1" where
  "update_byte x s =
     (let buf = (sh_buffer s)[sh_bufferLen s := x];
          len = sh_bufferLen s + 1;
          s = s\<lparr>sh_buffer := buf, sh_bufferLen := len\<rparr>;
          s = (if len = 64 then s\<lparr>sh_h := processBlock (sh_h s) buf, sh_bufferLen := 0\<rparr> else s)
      in s\<lparr>sh_totalLen := sh_totalLen s + 1\<rparr>)"

definition sha_update :: "bytes \<Rightarrow> sha1 \<Rightarrow> sha1" where
  "sha_update data s = fold update_byte data s"

text \<open>The padding loop of \<^verbatim>\<open>digest\<close> runs until the buffer holds 56 bytes; \<open>None\<close> would be a
  loop that does not end.\<close>

partial_function (option) pad_zeros :: "sha1 \<Rightarrow> sha1 option" where
  "pad_zeros s = (if sh_bufferLen s \<noteq> 56 then pad_zeros (update_byte 0 s) else Some s)"

definition be64 :: "u64 \<Rightarrow> bytes" where
  "be64 n = map (\<lambda>i. ucast (drop_bit (i * 8) n AND 0xff)) (rev [0..<8])"

definition be32 :: "u32 \<Rightarrow> bytes" where
  "be32 n = [ucast (drop_bit 24 n AND 0xff), ucast (drop_bit 16 n AND 0xff), ucast (drop_bit 8 n AND 0xff), ucast (n AND 0xff)]"

fun out_bytes :: "sha_vars \<Rightarrow> bytes" where
  "out_bytes (a, b, c, d, e) = concat (map be32 [a, b, c, d, e])"

definition sha_digest :: "sha1 \<Rightarrow> bytes option" where
  "sha_digest s =
     (let bitLen = sh_totalLen s * 8 in
      case pad_zeros (update_byte 0x80 s) of None \<Rightarrow> None
      | Some s \<Rightarrow> Some (out_bytes (sh_h (sha_update (be64 bitLen) s))))"

section \<open>The function base64\<close>

definition b64_tbl :: string where
  "b64_tbl = ''ABCDEFGHIJKLMNOPQRSTUVWXYZabcdefghijklmnopqrstuvwxyz0123456789+/''"

text \<open>The bytes are promoted to \<^verbatim>\<open>int\<close>, shifted and stored in an \<^verbatim>\<open>uint32_t\<close>; the loop takes
  three bytes at a time while at least three are left.\<close>

definition b64_char :: "nat \<Rightarrow> u32 \<Rightarrow> char" where
  "b64_char sh n = b64_tbl ! unat (drop_bit sh n AND 63)"

fun base64 :: "bytes \<Rightarrow> string" where
  "base64 (x # y # z # rest) =
     (let n = push_bit 16 (ucast x) OR push_bit 8 (ucast y) OR ucast z :: u32
      in [b64_char 18 n, b64_char 12 n, b64_char 6 n, b64_char 0 n] @ base64 rest)"
| "base64 [x, y] =
     (let n = push_bit 16 (ucast x) OR push_bit 8 (ucast y) :: u32
      in [b64_char 18 n, b64_char 12 n, b64_char 6 n, CHR ''='' ])"
| "base64 [x] =
     (let n = push_bit 16 (ucast x) :: u32
      in [b64_char 18 n, b64_char 12 n, CHR ''='', CHR ''='' ])"
| "base64 [] = []"

section \<open>The digest of the standard\<close>

text \<open>FIPS 180-4: the functions and constants of section 4, the padding of section 5.1.1, the
  message schedule and the rounds of section 6.1.2.\<close>

definition fips_f :: "nat \<Rightarrow> u32 \<Rightarrow> u32 \<Rightarrow> u32 \<Rightarrow> u32" where
  "fips_f t x y z = (if t < 20 then (x AND y) XOR (NOT x AND z)
     else if t < 40 \<or> 60 \<le> t then x XOR y XOR z
     else (x AND y) XOR (x AND z) XOR (y AND z))"

definition fips_K :: "nat \<Rightarrow> u32" where
  "fips_K t = [0x5A827999, 0x6ED9EBA1, 0x8F1BBCDC, 0xCA62C1D6] ! (t div 20)"

definition fips_word :: "bytes \<Rightarrow> nat \<Rightarrow> u32" where
  "fips_word M t = of_nat (foldl (\<lambda>n b. 256 * n + unat b) 0 (cut (t * 4) (t * 4 + 4) M))"

fun fips_W :: "bytes \<Rightarrow> nat \<Rightarrow> u32" where
  "fips_W M t = (if t < 16 then fips_word M t
     else word_rotl 1 (fips_W M (t - 3) XOR fips_W M (t - 8) XOR fips_W M (t - 14) XOR fips_W M (t - 16)))"

declare fips_W.simps [simp del]

fun fips_rounds :: "bytes \<Rightarrow> nat \<Rightarrow> sha_vars \<Rightarrow> sha_vars" where
  "fips_rounds M 0 v = v"
| "fips_rounds M (Suc t) v = (case fips_rounds M t v of (a, b, c, d, e) \<Rightarrow>
     (word_rotl 5 a + fips_f t b c d + e + fips_K t + fips_W M t, a, word_rotl 30 b, c, d))"

definition fips_block :: "sha_vars \<Rightarrow> bytes \<Rightarrow> sha_vars" where
  "fips_block h M = add_vars h (fips_rounds M 80 h)"

definition blocks64 :: "bytes \<Rightarrow> bytes list" where
  "blocks64 m = map (\<lambda>i. cut (64 * i) (64 * i + 64) m) [0..<length m div 64]"

definition fips_pad :: "bytes \<Rightarrow> bytes" where
  "fips_pad m = m @ [0x80] @ replicate ((119 - length m mod 64) mod 64) 0 @ be64 (of_nat (8 * length m))"

definition fips_sha1 :: "bytes \<Rightarrow> bytes" where
  "fips_sha1 m = out_bytes (foldl fips_block (0x67452301, 0xEFCDAB89, 0x98BADCFE, 0x10325476, 0xC3D2E1F0) (blocks64 (fips_pad m)))"

section \<open>One block\<close>

lemma rol_word_rotl:
  assumes "0 < n" "n < 32" shows "rol v n = word_rotl n v"
proof (rule bit_word_eqI)
  fix i assume "i < LENGTH(32)"
  then have i: "i < 32" by simp
  have r: "bit (word_rotl n v) i \<longleftrightarrow> bit v ((i + (32 - n)) mod 32)" "bit (rol v n) i \<longleftrightarrow> n \<le> i \<and> bit v (i - n) \<or> bit v (32 - n + i)"
    using i assms by (auto simp: rol_def bit_push_bit_iff bit_or_iff bit_drop_bit_eq bit_word_rotl_iff)
  show "bit (rol v n) i = bit (word_rotl n v) i"
  proof (cases "i < n")
    case True
    then have "(i + (32 - n)) mod 32 = 32 - n + i" using assms by simp
    then show ?thesis using True unfolding r by simp
  next
    case False
    then have "i + (32 - n) = (i - n) + 32" using assms by simp
    then have "(i + (32 - n)) mod 32 = i - n" using i by (simp only: mod_add_self2) simp
    moreover have "\<not> bit v (32 - n + i)" using False bit_imp_le_length [of v] assms by force
    ultimately show ?thesis using False unfolding r by simp
  qed
qed

lemma fips_fk: "t < 80 \<Longrightarrow> sha_fk t x y z = (fips_f t x y z, fips_K t)"
proof -
  assume t: "t < 80"
  have ch: "(x AND y) OR (NOT x AND z) = (x AND y) XOR (NOT x AND z)"
    by (rule bit_word_eqI) (auto simp: bit_simps)
  have maj: "(x AND y) OR (x AND z) OR (y AND z) = (x AND y) XOR (x AND z) XOR (y AND z)"
    by (rule bit_word_eqI) (auto simp: bit_simps)
  have "t div 20 = (if t < 20 then 0 else if t < 40 then 1 else if t < 60 then 2 else 3)"
    using t by (auto simp: div_nat_eqI)
  then show ?thesis unfolding sha_fk_def fips_f_def fips_K_def ch maj by auto
qed

lemma push_or_byte: "push_bit 8 x OR ucast d = (x * 256 + ucast d :: u32)" for d :: u8
proof -
  have "push_bit 8 x AND ucast d = (0 :: u32)"
    by (rule bit_word_eqI) (auto simp: bit_simps dest: bit_imp_le_length)
  then have "push_bit 8 x OR ucast d = push_bit 8 x + ucast d" by (simp add: disjunctive_add_eq_or)
  then show ?thesis by (simp add: push_bit_eq_mult mult.commute)
qed

lemma word_of_4:
  "push_bit 24 (ucast a) OR push_bit 16 (ucast b) OR push_bit 8 (ucast c) OR ucast d =
   (((ucast a * 256 + ucast b) * 256 + ucast c) * 256 + ucast d :: u32)" for a b c d :: u8
proof -
  have "push_bit 24 (ucast a) OR push_bit 16 (ucast b) OR push_bit 8 (ucast c) OR (ucast d :: u32) =
      push_bit 8 (push_bit 8 (push_bit 8 (ucast a) OR ucast b) OR ucast c) OR ucast d"
    by (simp add: push_bit_or or.assoc)
  then show ?thesis by (simp only: push_or_byte)
qed

lemma cut4: "t < 16 \<Longrightarrow> length p = 64 \<Longrightarrow>
    cut (t * 4) (t * 4 + 4) p = [p ! (t * 4), p ! (t * 4 + 1), p ! (t * 4 + 2), p ! (t * 4 + 3)]"
  by (simp add: cut_def take_drop_Cons numeral_eq_Suc mult.commute)

lemma fips_word_eq:
  "t < 16 \<Longrightarrow> length p = 64 \<Longrightarrow> fips_word p t =
   ((ucast (p ! (t * 4)) * 256 + ucast (p ! (t * 4 + 1))) * 256 + ucast (p ! (t * 4 + 2))) * 256 + ucast (p ! (t * 4 + 3))"
  unfolding fips_word_def by (simp only: cut4 foldl.simps) (simp add: mult.commute)

lemma block_words_fips: "length p = 64 \<Longrightarrow> block_words p = map (fips_W p) [0..<16]"
  by (auto simp: block_words_def fips_W.simps fips_word_eq word_of_4)

lemma schedule_fips:
  assumes "length p = 64" shows "k \<le> 64 \<Longrightarrow> fold schedule_step [16..<16 + k] (block_words p) = map (fips_W p) [0..<16 + k]"
proof (induction k)
  case 0
  then show ?case using assms by (simp add: block_words_fips)
next
  case (Suc k)
  have "[16..<16 + Suc k] = [16..<16 + k] @ [16 + k]" using upt_Suc_append [of 16 "16 + k"] by simp
  then have "fold schedule_step [16..<16 + Suc k] (block_words p) = schedule_step (16 + k) (map (fips_W p) [0..<16 + k])"
    using Suc by simp
  also have "\<dots> = map (fips_W p) [0..<16 + k] @ [fips_W p (16 + k)]"
    by (simp add: schedule_step_def fips_W.simps [of p "16 + k"] rol_word_rotl)
  also have "\<dots> = map (fips_W p) [0..<16 + Suc k]" using upt_Suc_append [of 0 "16 + k"] by simp
  finally show ?case .
qed

lemma schedule_nth: "length p = 64 \<Longrightarrow> t < 80 \<Longrightarrow> schedule p ! t = fips_W p t"
  using schedule_fips [of p 64] by (simp add: schedule_def)

lemma rounds_fips:
  "length p = 64 \<Longrightarrow> n \<le> 80 \<Longrightarrow> fold (sha_round (schedule p)) [0..<n] h = fips_rounds p n h"
proof (induction n)
  case (Suc n)
  then show ?case
    by (cases "fips_rounds p n h") (simp add: fips_fk schedule_nth rol_word_rotl)
qed simp

lemma processBlock_fips: "length p = 64 \<Longrightarrow> processBlock h p = fips_block h p"
  by (simp add: processBlock_def fips_block_def rounds_fips)

section \<open>The streaming state\<close>

text \<open>After the bytes \<open>m\<close> the state has absorbed the full blocks of \<open>m\<close> and buffers the rest.\<close>

definition absorbed :: "sha1 \<Rightarrow> bytes \<Rightarrow> bool" where
  "absorbed s m \<longleftrightarrow> sh_h s = foldl fips_block (sh_h sha1_reset) (blocks64 m) \<and>
     length (sh_buffer s) = 64 \<and> sh_bufferLen s = length m mod 64 \<and>
     take (sh_bufferLen s) (sh_buffer s) = drop (64 * (length m div 64)) m \<and>
     sh_totalLen s = of_nat (length m)"

lemma absorbed_reset: "absorbed sha1_reset []"
  by (simp add: absorbed_def sha1_reset_def blocks64_def)

lemma blocks64_snoc:
  "blocks64 (m @ [x]) = blocks64 m @ (if Suc (length m) mod 64 = 0 then [drop (64 * (length m div 64)) m @ [x]] else [])"
proof -
  define q r where "q = length m div 64" and "r = length m mod 64"
  have m: "length m = 64 * q + r" "r < 64" by (simp_all add: q_def r_def)
  have old: "map (\<lambda>i. cut (64 * i) (64 * i + 64) (m @ [x])) [0..<q] = blocks64 m"
  proof -
    have "cut (64 * i) (64 * i + 64) (m @ [x]) = cut (64 * i) (64 * i + 64) m" if "i < q" for i
    proof -
      have "64 * Suc i \<le> 64 * q" using that by (intro mult_le_mono2) simp
      then have "64 * i + 64 \<le> length m" using m by simp
      then show ?thesis by (simp add: cut_def)
    qed
    then show ?thesis by (simp add: blocks64_def q_def)
  qed
  show ?thesis
  proof (cases "r = 63")
    case True
    then have "Suc (length m) div 64 = Suc q" "Suc (length m) mod 64 = 0" unfolding m by simp_all
    moreover have "cut (64 * q) (64 * q + 64) (m @ [x]) = drop (64 * q) m @ [x]"
      using m True by (simp add: cut_def)
    ultimately show ?thesis using old by (simp add: blocks64_def flip: q_def)
  next
    case False
    then have "Suc (length m) div 64 = q" "Suc (length m) mod 64 \<noteq> 0" using m(2) unfolding m by simp_all
    then show ?thesis using old by (simp add: blocks64_def flip: q_def)
  qed
qed

lemma absorbed_byte: "absorbed s m \<Longrightarrow> absorbed (update_byte x s) (m @ [x])"
proof -
  assume inv: "absorbed s m"
  define q r where "q = length m div 64" and "r = length m mod 64"
  have m: "length m = 64 * q + r" "r < 64" by (simp_all add: q_def r_def)
  have s: "sh_bufferLen s = r" "length (sh_buffer s) = 64" "take r (sh_buffer s) = drop (64 * q) m"
    using inv unfolding absorbed_def q_def r_def by auto
  have buf: "take (Suc r) ((sh_buffer s)[r := x]) = drop (64 * q) m @ [x]"
    using s m(2) by (simp add: take_Suc_conv_app_nth)
  show ?thesis
  proof (cases "r = 63")
    case True
    then have d: "Suc (length m) div 64 = Suc q" "Suc (length m) mod 64 = 0" unfolding m by simp_all
    have "(sh_buffer s)[r := x] = drop (64 * q) m @ [x]" using buf s True by simp
    moreover from this have "length (drop (64 * q) m @ [x]) = 64" using m True by simp
    ultimately show ?thesis using inv s d True m(1)
      by (simp add: absorbed_def update_byte_def Let_def blocks64_snoc processBlock_fips flip: q_def)
  next
    case False
    then have "Suc (length m) div 64 = q" "Suc (length m) mod 64 = Suc r" using m(2) unfolding m by simp_all
    then show ?thesis using inv s False buf m
      by (simp add: absorbed_def update_byte_def Let_def blocks64_snoc flip: q_def)
  qed
qed

lemma absorbed_update: "absorbed s m \<Longrightarrow> absorbed (sha_update data s) (m @ data)"
proof (induction data arbitrary: s m)
  case (Cons x data)
  then show ?case using Cons.IH [OF absorbed_byte [OF Cons.prems, of x]] by (simp add: sha_update_def)
qed (simp add: sha_update_def)

section \<open>The digest\<close>

lemma pad_zeros_steps:
  "(sh_bufferLen s + k) mod 64 = 56 \<Longrightarrow> k < 64 \<Longrightarrow> sh_bufferLen s < 64 \<Longrightarrow>
   pad_zeros s = Some (sha_update (replicate k 0) s)"
proof (induction k arbitrary: s)
  case 0
  then show ?case by (subst pad_zeros.simps) (simp add: sha_update_def)
next
  case (Suc k)
  have ne: "sh_bufferLen s \<noteq> 56" using Suc.prems by (auto simp: mod_if split: if_splits)
  have len: "sh_bufferLen (update_byte 0 s) = (if sh_bufferLen s = 63 then 0 else sh_bufferLen s + 1)"
    by (simp add: update_byte_def Let_def)
  have "(sh_bufferLen (update_byte 0 s) + k) mod 64 = 56" "sh_bufferLen (update_byte 0 s) < 64"
    using Suc.prems unfolding len by auto
  then show ?case using Suc.IH [of "update_byte 0 s"] Suc.prems ne
    by (subst pad_zeros.simps) (simp add: sha_update_def)
qed

lemma pad_length: "(n + (119 - n mod 64) mod 64 + 1) mod 64 = (56 :: nat)"
proof -
  have "(n + x mod 64 + 1) mod 64 = (n mod 64 + x + 1) mod 64" for x :: nat
    by (metis mod_add_left_eq mod_add_right_eq)
  then have "(n + (119 - n mod 64) mod 64 + 1) mod 64 = (n mod 64 + (119 - n mod 64) + 1) mod 64" .
  also have "n mod 64 + (119 - n mod 64) + 1 = 120" using mod_less_divisor [of 64 n] by linarith
  finally show ?thesis by simp
qed

lemma digest_fips:
  assumes "absorbed s m" shows "sha_digest s = Some (fips_sha1 m)"
proof -
  let ?k = "(119 - length m mod 64) mod 64"
  have a1: "absorbed (update_byte 0x80 s) (m @ [0x80])" using assms by (rule absorbed_byte)
  then have len: "sh_bufferLen (update_byte 0x80 s) = (length m + 1) mod 64" by (simp add: absorbed_def)
  have "(sh_bufferLen (update_byte 0x80 s) + ?k) mod 64 = 56"
    using pad_length [of "length m"] unfolding len by (simp add: mod_add_left_eq add.commute add.left_commute)
  then have pad: "pad_zeros (update_byte 0x80 s) = Some (sha_update (replicate ?k 0) (update_byte 0x80 s))"
    by (rule pad_zeros_steps) (simp_all add: len)
  have bits: "sh_totalLen s * 8 = of_nat (8 * length m)" using assms by (simp add: absorbed_def)
  have "absorbed (sha_update (be64 (sh_totalLen s * 8)) (sha_update (replicate ?k 0) (update_byte 0x80 s))) (fips_pad m)"
    using absorbed_update [OF absorbed_update [OF a1]] unfolding fips_pad_def bits by simp
  then show ?thesis
    by (simp add: sha_digest_def pad fips_sha1_def absorbed_def sha1_reset_def)
qed

lemma fips_length: "length (fips_sha1 m) = 20"
proof -
  have "length (out_bytes v) = 20" for v by (cases v) (simp add: be32_def)
  then show ?thesis by (simp add: fips_sha1_def)
qed

text \<open>C32. SHA-1: however the message is cut into pieces and fed to \<^verbatim>\<open>update\<close>, \<^verbatim>\<open>digest\<close>
  returns (its padding loop ends) and returns the 20 bytes that FIPS 180-4 defines.\<close>

theorem sha1_streaming:
  "sha_digest (foldl (\<lambda>s d. sha_update d s) sha1_reset chunks) = Some (fips_sha1 (concat chunks)) \<and>
   length (fips_sha1 (concat chunks)) = 20"
proof -
  have "absorbed s m \<Longrightarrow> absorbed (foldl (\<lambda>s d. sha_update d s) s chunks) (m @ concat chunks)" for s m
  proof (induction chunks arbitrary: s m)
    case (Cons d chunks)
    then show ?case using absorbed_update [of s m d] by fastforce
  qed simp
  from this [OF absorbed_reset] have "absorbed (foldl (\<lambda>s d. sha_update d s) sha1_reset chunks) (concat chunks)" by simp
  then show ?thesis by (simp add: digest_fips fips_length)
qed

section \<open>The encoder and its inverse\<close>

definition b64_index :: "char \<Rightarrow> u32" where
  "b64_index c = of_nat (length (takeWhile (\<lambda>x. x \<noteq> c) b64_tbl))"

definition b64_join :: "char \<Rightarrow> char \<Rightarrow> char \<Rightarrow> char \<Rightarrow> u32" where
  "b64_join a b c d = push_bit 18 (b64_index a) OR push_bit 12 (b64_index b) OR push_bit 6 (b64_index c) OR b64_index d"

text \<open>The decoder of RFC 4648; a padding character stands for no bits.\<close>

fun unbase64 :: "string \<Rightarrow> bytes" where
  "unbase64 (a # b # c # d # rest) =
     (if c = CHR ''='' then [ucast (drop_bit 16 (b64_join a b (CHR ''A'') (CHR ''A'')))]
      else if d = CHR ''='' then (let n = b64_join a b c (CHR ''A'') in [ucast (drop_bit 16 n), ucast (drop_bit 8 n)])
      else (let n = b64_join a b c d in [ucast (drop_bit 16 n), ucast (drop_bit 8 n), ucast n] @ unbase64 rest))"
| "unbase64 _ = []"

lemma b64_tbl_facts: "length b64_tbl = 64" "distinct b64_tbl" "CHR ''='' \<notin> set b64_tbl" "b64_tbl ! 0 = CHR ''A''"
  by (simp_all add: b64_tbl_def)

lemma b64_index_nth: "i < 64 \<Longrightarrow> b64_index (b64_tbl ! i) = of_nat i"
proof -
  assume i: "i < 64"
  have "takeWhile (\<lambda>x. x \<noteq> b64_tbl ! i) b64_tbl = take i b64_tbl"
  proof (rule takeWhile_eq_take_P_nth)
    fix j assume "j < i" "j < length b64_tbl"
    then show "b64_tbl ! j \<noteq> b64_tbl ! i" using i b64_tbl_facts by (simp add: nth_eq_iff_index_eq)
  qed simp
  then show ?thesis using i b64_tbl_facts(1) by (simp add: b64_index_def)
qed

lemma six_bits: "unat (n AND 63 :: u32) < 64"
proof -
  have "n AND 63 \<le> (63 :: u32)" by (rule word_and_le1)
  then show ?thesis by (simp add: word_le_nat_alt)
qed

lemma b64_index_char: "b64_index (b64_char sh n) = drop_bit sh n AND 63"
  by (simp add: b64_char_def b64_index_nth six_bits)

lemma b64_index_A: "b64_index (CHR ''A'') = 0"
  using b64_index_nth [of 0] b64_tbl_facts(4) by simp

lemma b64_char_not_pad: "b64_char sh n \<noteq> CHR ''=''"
  using b64_tbl_facts(1,3) six_bits nth_mem unfolding b64_char_def by metis

lemma b64_join_chars:
  "b64_join (b64_char 18 n) (b64_char 12 n) (b64_char 6 n) (b64_char 0 n) = n AND mask 24"
proof (rule bit_word_eqI)
  fix i
  have m: "(63 :: u32) = mask 6" by (simp add: mask_eq_exp_minus_1)
  show "bit (b64_join (b64_char 18 n) (b64_char 12 n) (b64_char 6 n) (b64_char 0 n)) i = bit (n AND mask 24) i"
    if "i < LENGTH(32)"
  proof -
    consider "i < 6" | "6 \<le> i" "i < 12" | "12 \<le> i" "i < 18" | "18 \<le> i" "i < 24" | "24 \<le> i" by linarith
    then show ?thesis using that unfolding b64_join_def b64_index_char m by cases (auto simp: bit_simps)
  qed
qed

lemma u8_high: "8 \<le> i \<Longrightarrow> \<not> bit (b :: u8) i"
  using bit_imp_le_length [of b i] by auto

lemma unbase64_base64: "unbase64 (base64 bs) = bs"
proof (induction bs rule: base64.induct)
  case (1 x y z rest)
  let ?n = "push_bit 16 (ucast x) OR push_bit 8 (ucast y) OR ucast z :: u32"
  have "ucast (drop_bit 16 (?n AND mask 24)) = x" "ucast (drop_bit 8 (?n AND mask 24)) = y" "ucast (?n AND mask 24) = z"
    by (auto intro!: u8_eqI simp: bit_simps u8_high)
  then show ?case using 1 by (simp add: Let_def b64_char_not_pad b64_join_chars)
next
  case (2 x y)
  let ?n = "push_bit 16 (ucast x) OR push_bit 8 (ucast y) :: u32"
  have z: "drop_bit 0 ?n AND mask 6 = 0"
    by (rule bit_word_eqI) (auto simp: bit_simps)
  then have "b64_char 0 ?n = CHR ''A''"
    by (simp add: b64_char_def b64_tbl_facts mask_eq_exp_minus_1)
  then have j: "b64_join (b64_char 18 ?n) (b64_char 12 ?n) (b64_char 6 ?n) (CHR ''A'') = ?n AND mask 24"
    using b64_join_chars [of ?n] by simp
  have "ucast (drop_bit 16 (?n AND mask 24)) = x" "ucast (drop_bit 8 (?n AND mask 24)) = y"
    by (auto intro!: u8_eqI simp: bit_simps u8_high)
  then show ?case by (simp add: Let_def b64_char_not_pad j)
next
  case (3 x)
  let ?n = "push_bit 16 (ucast x) :: u32"
  have "drop_bit 0 ?n AND mask 6 = 0" "drop_bit 6 ?n AND mask 6 = 0"
    by (auto intro!: bit_word_eqI simp: bit_simps)
  then have "b64_char 0 ?n = CHR ''A''" "b64_char 6 ?n = CHR ''A''"
    by (simp_all add: b64_char_def b64_tbl_facts mask_eq_exp_minus_1)
  then have j: "b64_join (b64_char 18 ?n) (b64_char 12 ?n) (CHR ''A'') (CHR ''A'') = ?n AND mask 24"
    using b64_join_chars [of ?n] by simp
  have "ucast (drop_bit 16 (?n AND mask 24)) = x"
    by (auto intro!: u8_eqI simp: bit_simps u8_high)
  then show ?case by (simp add: Let_def b64_char_not_pad j)
qed simp

lemma length_base64: "length (base64 bs) = 4 * ((length bs + 2) div 3)"
proof (induction bs rule: base64.induct)
  case (1 x y z rest)
  have "(length (x # y # z # rest) + 2) div 3 = (length rest + 2) div 3 + 1" by simp
  then show ?case using 1 by (simp add: Let_def)
qed (simp_all add: Let_def)

end
