(* ===== verification/Websocket.thy ===== *)
theory Websocket
  imports Sha1 Rooms "HOL-Library.Monad_Syntax"
begin

text \<open>
  The WebSocket client of src/src/signaling/SignalingClient.cpp: blocking reads and writes on the
  socket, the upgrade handshake, masked text frames, the receive loop with its dispatch to the
  callbacks, and the connection state. The socket is what the operating system hands out: the
  received stream in the pieces that \<^verbatim>\<open>recv\<close> returns, and for sending the counts that
  \<^verbatim>\<open>send\<close> accepts. JSON values and their accessors are those of the theory Rooms; parsing and
  printing (nlohmann::json) are parameters.
\<close>

section \<open>Blocking reads and writes\<close>

text \<open>\<^verbatim>\<open>recv\<close> of at most \<open>n\<close> bytes: a prefix of the next piece; nothing at the end of the
  stream or on an error.\<close>

fun recv :: "nat \<Rightarrow> bytes list \<Rightarrow> bytes \<times> bytes list" where
  "recv n [] = ([], [])"
| "recv n (c # cs) = (take n c, if length c \<le> n then cs else drop n c # cs)"

lemma recv_concat: "recv n cs = (d, cs') \<Longrightarrow> concat cs = d @ concat cs' \<and> length d \<le> n"
  by (cases cs) (auto split: if_splits)

function readExact :: "nat \<Rightarrow> bytes list \<Rightarrow> (bytes \<times> bytes list) option" where
  "readExact n cs = (if n = 0 then Some ([], cs)
     else let (d, cs') = recv n cs in
       if d = [] then None
       else (case readExact (n - length d) cs' of None \<Rightarrow> None | Some (e, cs'') \<Rightarrow> Some (d @ e, cs'')))"
  by pat_completeness auto
termination by (relation "measure fst") (auto simp: length_greater_0_conv [symmetric] simp del: length_greater_0_conv)

declare readExact.simps [simp del]

lemma readExact_0 [simp]: "readExact 0 cs = Some ([], cs)"
  by (simp add: readExact.simps)

text \<open>\<^verbatim>\<open>send\<close> accepts a number of bytes, 0 standing for an error; the result is whether all were
  sent, and the bytes that were.\<close>

fun writeAll :: "nat list \<Rightarrow> bytes \<Rightarrow> bool \<times> bytes" where
  "writeAll accepts [] = (True, [])"
| "writeAll [] buf = (False, [])"
| "writeAll (k # accepts) buf = (if k = 0 then (False, [])
     else let (r, sent) = writeAll accepts (drop k buf) in (r, take k buf @ sent))"

definition bytes_of :: "string \<Rightarrow> bytes" where
  "bytes_of s = map (\<lambda>c. of_nat (of_char c)) s"

definition text_of :: "bytes \<Rightarrow> string" where
  "text_of bs = map (\<lambda>b. char_of (unat b)) bs"

section \<open>Frames\<close>

definition xor_mask :: "bytes \<Rightarrow> bytes \<Rightarrow> bytes" where
  "xor_mask msk p = map (\<lambda>i. p ! i XOR msk ! (i mod 4)) [0..<length p]"

text \<open>The frame of \<^verbatim>\<open>sendTextFrame\<close>; the mask comes from the system's random device.\<close>

definition frame_length :: "u8 \<Rightarrow> nat \<Rightarrow> bytes" where
  "frame_length maskBit len =
     (if len < 126 then [maskBit OR of_nat len]
      else if len \<le> 0xFFFF then [maskBit OR 126, of_nat (len div 256 mod 256), of_nat (len mod 256)]
      else (maskBit OR 127) # be64 (of_nat len))"

definition client_frame :: "bytes \<Rightarrow> bytes \<Rightarrow> bytes" where
  "client_frame msk payload = [0x81] @ frame_length 0x80 (length payload) @ msk @ xor_mask msk payload"

definition recv_length :: "u8 \<Rightarrow> bytes list \<Rightarrow> (u64 \<times> bytes list) option" where
  "recv_length len7 cs =
     (if len7 = 126 then do {
        (ext, cs) \<leftarrow> readExact 2 cs;
        Some (push_bit 8 (ucast (ext ! 0)) OR ucast (ext ! 1), cs) }
      else if len7 = 127 then do {
        (ext, cs) \<leftarrow> readExact 8 cs;
        Some (foldl (\<lambda>len e. push_bit 8 len OR ucast e) 0 ext, cs) }
      else Some (ucast len7, cs))"

text \<open>One frame of the receive loop: the fin flag, the opcode, the unmasked payload; \<open>None\<close> where
  the loop breaks because a read failed.\<close>

definition recv_frame :: "bytes list \<Rightarrow> (bool \<times> u8 \<times> bytes \<times> bytes list) option" where
  "recv_frame cs = do {
     (hdr, cs) \<leftarrow> readExact 2 cs;
     let masked = hdr ! 1 AND 0x80 \<noteq> 0;
     (len, cs) \<leftarrow> recv_length (hdr ! 1 AND 0x7f) cs;
     (msk, cs) \<leftarrow> (if masked then readExact 4 cs else Some ([0, 0, 0, 0], cs));
     (payload, cs) \<leftarrow> readExact (unat len) cs;
     Some (hdr ! 0 AND 0x80 \<noteq> 0, hdr ! 0 AND 0x0f, if masked then xor_mask msk payload else payload, cs) }"

section \<open>Dispatch\<close>

record callbacks =
  cb_onJoined :: bool
  cb_onPeerJoined :: bool
  cb_onPeerLeft :: bool
  cb_onOffer :: bool
  cb_onAnswer :: bool
  cb_onIceCandidate :: bool
  cb_onError :: bool

datatype client_event =
    EvJoined u64
  | EvPeerJoined u64
  | EvPeerLeft u64
  | EvOffer u64 string
  | EvAnswer u64 string
  | EvIce u64 string
  | EvError error string

definition reportError :: "callbacks \<Rightarrow> bool \<Rightarrow> error \<Rightarrow> string \<Rightarrow> client_event list" where
  "reportError cbs stopping e detail = (if cb_onError cbs \<and> \<not> stopping then [EvError e detail] else [])"

text \<open>\<^verbatim>\<open>p.get<PeerId>()\<close> throws on an element that is not a number.\<close>

fun peers_events :: "json list \<Rightarrow> client_event list option" where
  "peers_events [] = Some []"
| "peers_events (JInt n # ps) = map_option ((#) (EvPeerJoined (word_of_int n))) (peers_events ps)"
| "peers_events (_ # ps) = None"

definition only_if :: "bool \<Rightarrow> 'a \<Rightarrow> 'a list" where
  "only_if b x = (if b then [x] else [])"

text \<open>A text message: the new own id and the callbacks invoked; \<open>None\<close> when a field has the wrong
  type and the accessor throws, which nothing catches on the network thread.\<close>

definition payload_event :: "bool \<Rightarrow> (u64 \<Rightarrow> string \<Rightarrow> client_event) \<Rightarrow> u64 \<Rightarrow> (string \<times> json) list \<Rightarrow> client_event list option" where
  "payload_event present ev from obj = (if present then do { p \<leftarrow> value_string ''payload'' [] obj; Some [ev from p] } else Some [])"

definition dispatch :: "(string \<Rightarrow> json option) \<Rightarrow> callbacks \<Rightarrow> bool \<Rightarrow> u64 \<Rightarrow> string
    \<Rightarrow> (u64 \<times> client_event list) option" where
  "dispatch json_parse cbs stopping selfId payload = (case json_parse payload of
     Some (JObject obj) \<Rightarrow> do {
       type \<leftarrow> value_string ''type'' [] obj;
       from \<leftarrow> value_u64 ''from'' 0 obj;
       if type = ''joined'' then do {
         i \<leftarrow> value_u64 ''id'' 0 obj;
         evs \<leftarrow> (if cb_onPeerJoined cbs
           then (case map_of obj ''peers'' of Some (JArray ps) \<Rightarrow> peers_events ps | _ \<Rightarrow> Some []) else Some []);
         Some (i, only_if (cb_onJoined cbs) (EvJoined i) @ evs) }
       else if type = ''peer-joined'' then Some (selfId, only_if (cb_onPeerJoined cbs) (EvPeerJoined from))
       else if type = ''peer-left'' then Some (selfId, only_if (cb_onPeerLeft cbs) (EvPeerLeft from))
       else if type = ''offer'' then map_option (Pair selfId) (payload_event (cb_onOffer cbs) EvOffer from obj)
       else if type = ''answer'' then map_option (Pair selfId) (payload_event (cb_onAnswer cbs) EvAnswer from obj)
       else if type = ''ice'' then map_option (Pair selfId) (payload_event (cb_onIceCandidate cbs) EvIce from obj)
       else if type = ''error'' then do {
         reason \<leftarrow> value_string ''reason'' [] obj;
         Some (selfId, reportError cbs stopping Protocol reason) }
       else Some (selfId, []) }
   | _ \<Rightarrow> Some (selfId, reportError cbs stopping Protocol ''malformed server JSON''))"

section \<open>Reads deliver the stream whatever its pieces\<close>

lemma readExact_sound:
  "readExact n cs = Some (d, cs') \<Longrightarrow> concat cs = d @ concat cs' \<and> length d = n"
proof (induction n cs arbitrary: d cs' rule: readExact.induct)
  case (1 n cs)
  show ?case
  proof (cases "n = 0")
    case True
    then show ?thesis using 1(2) by (simp add: readExact.simps [of n])
  next
    case False
    obtain c rest where c: "recv n cs = (c, rest)" by force
    obtain e where e: "readExact (n - length c) rest = Some (e, cs')" "d = c @ e" "c \<noteq> []"
      using 1(2) False c by (auto simp: readExact.simps [of n] split: if_splits option.splits)
    have "concat rest = e @ concat cs' \<and> length e = n - length c"
      using 1(1) [OF False c [symmetric] refl] e by simp
    then show ?thesis using recv_concat [OF c] e(2) by simp
  qed
qed

lemma recv_nonempty:
  "list_all (\<lambda>c. c \<noteq> []) cs \<Longrightarrow> 0 < n \<Longrightarrow> concat cs \<noteq> [] \<Longrightarrow> recv n cs = (d, cs') \<Longrightarrow> d \<noteq> [] \<and> list_all (\<lambda>c. c \<noteq> []) cs'"
  by (cases cs) (auto split: if_splits)

lemma readExact_complete:
  "list_all (\<lambda>c. c \<noteq> []) cs \<Longrightarrow> n \<le> length (concat cs) \<Longrightarrow>
   \<exists>cs'. readExact n cs = Some (take n (concat cs), cs') \<and> concat cs' = drop n (concat cs) \<and> list_all (\<lambda>c. c \<noteq> []) cs'"
proof (induction n cs rule: readExact.induct)
  case (1 n cs)
  show ?case
  proof (cases "n = 0")
    case True
    then show ?thesis using 1 by (simp add: readExact.simps [of n])
  next
    case False
    obtain c rest where c: "recv n cs = (c, rest)" by force
    have "concat cs \<noteq> []" using 1(3) False by (metis le_zero_eq list.size(3))
    then have ne: "c \<noteq> []" "list_all (\<lambda>c. c \<noteq> []) rest" using recv_nonempty [OF 1(2) _ _ c] False by auto
    have s: "concat cs = c @ concat rest" "length c \<le> n" using recv_concat [OF c] by auto
    then have "n - length c \<le> length (concat rest)" using 1(3) by simp
    then obtain cs' where "readExact (n - length c) rest = Some (take (n - length c) (concat rest), cs')"
      "concat cs' = drop (n - length c) (concat rest)" "list_all (\<lambda>c. c \<noteq> []) cs'"
      using 1(1) [OF False c [symmetric] refl] ne by blast
    then show ?thesis using False c ne s by (simp add: readExact.simps [of n])
  qed
qed

lemma writeAll_prefix: "writeAll ks buf = (r, sent) \<Longrightarrow> (\<exists>rest. buf = sent @ rest) \<and> (r \<longrightarrow> sent = buf)"
proof (induction ks buf arbitrary: r sent rule: writeAll.induct)
  case (3 k ks b bs)
  show ?case
  proof (cases "k = 0")
    case False
    obtain r' sent' where w: "writeAll ks (drop k (b # bs)) = (r', sent')" by force
    then have "(\<exists>rest. drop k (b # bs) = sent' @ rest) \<and> (r' \<longrightarrow> sent' = drop k (b # bs))" using 3(1) False by blast
    moreover have "r = r'" "sent = take k (b # bs) @ sent'" using 3(2) w False by auto
    ultimately show ?thesis by (metis append_assoc append_take_drop_id)
  qed (use 3 in auto)
qed auto

section \<open>The receive loop\<close>

lemma recv_length_sound: "recv_length l cs = Some (n, cs') \<Longrightarrow> length (concat cs') \<le> length (concat cs)"
  by (auto simp: recv_length_def bind_eq_Some_conv dest!: readExact_sound split: if_splits)

lemma recv_frame_shrinks: "recv_frame cs = Some (fin, opc, p, cs') \<Longrightarrow> length (concat cs') < length (concat cs)"
proof -
  assume f: "recv_frame cs = Some (fin, opc, p, cs')"
  obtain hdr c1 where 1: "readExact 2 cs = Some (hdr, c1)"
    using f by (cases "readExact 2 cs") (auto simp: recv_frame_def)
  obtain l c2 where 2: "recv_length (hdr ! 1 AND 0x7f) c1 = Some (l, c2)"
    using f 1 by (cases "recv_length (hdr ! 1 AND 0x7f) c1") (auto simp: recv_frame_def)
  obtain m c3 where 3: "(if hdr ! 1 AND 0x80 \<noteq> 0 then readExact 4 c2 else Some ([0, 0, 0, 0], c2)) = Some (m, c3)"
    using f 1 2 by (cases "if hdr ! 1 AND 0x80 \<noteq> 0 then readExact 4 c2 else Some ([0, 0, 0, 0], c2)") (auto simp: recv_frame_def)
  obtain q where 4: "readExact (unat l) c3 = Some (q, cs')"
    using f 1 2 3 by (cases "readExact (unat l) c3") (auto simp: recv_frame_def simp del: One_nat_def)
  have "length (concat c3) \<le> length (concat c2)"
    using 3 by (auto dest: readExact_sound split: if_splits)
  then show ?thesis using readExact_sound [OF 1] recv_length_sound [OF 2] readExact_sound [OF 4] by simp
qed

text \<open>\<^verbatim>\<open>runRecvLoop\<close>. Another thread may set \<^verbatim>\<open>stopping_\<close> at any time, so its successive
  readings are \<open>stop\<close>: round \<open>k\<close> reads \<open>stop k\<close> at the loop head and \<open>stop (k + 1)\<close> behind.
  The result is the own id and the callbacks invoked, or \<open>None\<close> for an exception.\<close>

definition loop_end :: "callbacks \<Rightarrow> bool \<Rightarrow> u64 \<Rightarrow> (u64 \<times> client_event list) option" where
  "loop_end cbs stopping selfId = Some (selfId, reportError cbs stopping NetworkError ''connection closed'')"

definition and_then :: "client_event list \<Rightarrow> (u64 \<times> client_event list) option \<Rightarrow> (u64 \<times> client_event list) option" where
  "and_then evs r = map_option (\<lambda>(i, evs'). (i, evs @ evs')) r"

function runRecvLoop :: "(string \<Rightarrow> json option) \<Rightarrow> callbacks \<Rightarrow> (nat \<Rightarrow> bool) \<Rightarrow> nat \<Rightarrow> u64 \<Rightarrow> bytes list
    \<Rightarrow> (u64 \<times> client_event list) option" where
  "runRecvLoop json_parse cbs stop k selfId cs =
     (if stop k then loop_end cbs (stop (k + 1)) selfId
      else (case recv_frame cs of
        None \<Rightarrow> loop_end cbs (stop (k + 1)) selfId
      | Some (fin, opc, payload, cs') \<Rightarrow>
          if opc = 0x8 then loop_end cbs (stop (k + 1)) selfId
          else if opc = 0x9 \<or> opc = 0xA then runRecvLoop json_parse cbs stop (k + 2) selfId cs'
          else if \<not> fin then and_then (reportError cbs (stop (k + 1)) Protocol ''unexpected fragmented frame'')
            (loop_end cbs (stop (k + 1)) selfId)
          else if opc \<noteq> 0x1 then runRecvLoop json_parse cbs stop (k + 2) selfId cs'
          else (case dispatch json_parse cbs (stop (k + 1)) selfId (text_of payload) of
              None \<Rightarrow> None
            | Some (selfId', evs) \<Rightarrow> and_then evs (runRecvLoop json_parse cbs stop (k + 2) selfId' cs'))))"
  by pat_completeness auto
termination
  by (relation "measure (\<lambda>(_, _, _, _, _, cs). length (concat cs))") (auto dest: recv_frame_shrinks simp del: length_concat)

declare runRecvLoop.simps [simp del]

section \<open>The handshake\<close>

record client_config =
  cf_host :: string
  cf_port :: u16
  cf_path :: string
  cf_room :: string

definition crlf :: string where
  "crlf = [CHR 0x0D, CHR 0x0A]"

definition upgrade_request :: "client_config \<Rightarrow> string \<Rightarrow> string" where
  "upgrade_request cfg key =
     ''GET '' @ cf_path cfg @ '' HTTP/1.1'' @ crlf @
     ''Host: '' @ cf_host cfg @ '':'' @ decimal (unat (cf_port cfg)) @ crlf @
     ''Upgrade: websocket'' @ crlf @ ''Connection: Upgrade'' @ crlf @
     ''Sec-WebSocket-Key: '' @ key @ crlf @ ''Sec-WebSocket-Version: 13'' @ crlf @ crlf"

text \<open>\<^verbatim>\<open>s.find(pat) != npos\<close>.\<close>

definition contains :: "string \<Rightarrow> string \<Rightarrow> bool" where
  "contains pat s = list_ex (\<lambda>i. take (length pat) (drop i s) = pat) [0..<length s + 1]"

function read_headers :: "string \<Rightarrow> bytes list \<Rightarrow> error + (string \<times> bytes list)" where
  "read_headers resp cs =
     (if contains (crlf @ crlf) resp then Inr (resp, cs)
      else if length resp > 8192 then Inl Protocol
      else (case readExact 1 cs of
          None \<Rightarrow> Inl NetworkError
        | Some (c, cs') \<Rightarrow> read_headers (resp @ text_of c) cs'))"
  by pat_completeness auto
termination
  by (relation "measure (\<lambda>(resp, cs). 8193 - length resp)") (auto simp: text_of_def dest!: readExact_sound)

declare read_headers.simps [simp del]

definition accept_key :: "string \<Rightarrow> string option" where
  "accept_key key = (case sha_digest (sha_update (bytes_of (key @ ''258EAFA5-E914-47DA-95CA-C5AB0DC85B11'')) sha1_reset) of
     None \<Rightarrow> None | Some d \<Rightarrow> Some (base64 d))"

text \<open>The result, what was sent and the rest of the input.\<close>

definition doHandshake :: "client_config \<Rightarrow> bytes \<Rightarrow> nat list \<Rightarrow> bytes list \<Rightarrow> status \<times> bytes \<times> bytes list" where
  "doHandshake cfg nonce accepts cs =
     (let key = base64 nonce;
          (sent_all, sent) = writeAll accepts (bytes_of (upgrade_request cfg key))
      in if \<not> sent_all then (fail NetworkError, sent, cs)
         else (case read_headers [] cs of
             Inl e \<Rightarrow> (fail e, sent, cs)
           | Inr (resp, cs') \<Rightarrow>
               if \<not> contains '' 101 '' resp then (fail Protocol, sent, cs')
               else (case accept_key key of
                   None \<Rightarrow> (fail Internal, sent, cs')
                 | Some expect \<Rightarrow> if contains expect resp then (ok, sent, cs') else (fail Protocol, sent, cs'))))"

section \<open>The connection\<close>

text \<open>\<open>cl_fd\<close> says whether \<^verbatim>\<open>fd_\<close> is open, \<open>cl_recvThread\<close> whether the thread object is
  joinable, \<open>cl_leaked\<close> counts descriptors that were overwritten without being closed.\<close>

record signaling_client =
  cl_cbs :: callbacks
  cl_cfg :: client_config
  cl_fd :: bool
  cl_recvThread :: bool
  cl_connected :: bool
  cl_stopping :: bool
  cl_selfId :: u64
  cl_leaked :: nat

definition new_client :: signaling_client where
  "new_client = \<lparr>cl_cbs = \<lparr>cb_onJoined = False, cb_onPeerJoined = False, cb_onPeerLeft = False, cb_onOffer = False,
       cb_onAnswer = False, cb_onIceCandidate = False, cb_onError = False\<rparr>,
     cl_cfg = \<lparr>cf_host = ''127.0.0.1'', cf_port = 8080, cf_path = ''/'', cf_room = []\<rparr>,
     cl_fd = False, cl_recvThread = False, cl_connected = False, cl_stopping = False, cl_selfId = 0, cl_leaked = 0\<rparr>"

definition setCallbacks :: "callbacks \<Rightarrow> signaling_client \<Rightarrow> signaling_client" where
  "setCallbacks cbs c = c\<lparr>cl_cbs := cbs\<rparr>"

definition closeSocket :: "signaling_client \<Rightarrow> signaling_client" where
  "closeSocket c = (if cl_fd c then c\<lparr>cl_fd := False\<rparr> else c)"

definition sendTextFrame :: "bytes \<Rightarrow> nat list \<Rightarrow> string \<Rightarrow> signaling_client \<Rightarrow> status \<times> bytes" where
  "sendTextFrame msk accepts text c =
     (if \<not> cl_fd c then (fail NotInitialized, [])
      else let (sent_all, sent) = writeAll accepts (client_frame msk (bytes_of text))
        in (if sent_all then ok else fail NetworkError, sent))"

text \<open>\<open>onThread\<close>: the call comes from the network thread itself, which cannot join itself.\<close>

definition join_thread :: "bool \<Rightarrow> signaling_client \<Rightarrow> signaling_client" where
  "join_thread onThread c = (if cl_recvThread c \<and> \<not> onThread then c\<lparr>cl_recvThread := False\<rparr> else c)"

definition leave_message :: "string \<Rightarrow> json" where
  "leave_message room = JObject [(''type'', JString ''leave''), (''room'', JString room)]"

definition join_message :: "string \<Rightarrow> json" where
  "join_message room = JObject [(''type'', JString ''join''), (''room'', JString room)]"

definition disconnect :: "(json \<Rightarrow> string) \<Rightarrow> bool \<Rightarrow> bytes \<Rightarrow> nat list \<Rightarrow> signaling_client \<Rightarrow> signaling_client \<times> bytes" where
  "disconnect json_dump onThread msk accepts c =
     (if cl_stopping c then (join_thread onThread c, [])
      else let c = c\<lparr>cl_stopping := True\<rparr>;
               out = (if cl_connected c then snd (sendTextFrame msk accepts (json_dump (leave_message (cf_room (cl_cfg c)))) c) else []);
               c = join_thread onThread (closeSocket c)
           in (c\<lparr>cl_connected := False\<rparr>, out))"

text \<open>What the network does during \<^verbatim>\<open>connect\<close>: whether the name resolves, for each address whether
  the connection succeeds, the random nonce and mask, the stream and the counts of \<^verbatim>\<open>send\<close>.\<close>

record network =
  nw_resolves :: bool
  nw_dials :: "bool list"
  nw_nonce :: bytes
  nw_input :: "bytes list"
  nw_accepts :: "nat list"
  nw_mask :: bytes
  nw_joinAccepts :: "nat list"

text \<open>\<^verbatim>\<open>connect\<close>; \<open>None\<close> is \<^verbatim>\<open>std::terminate\<close>, which assigning to a joinable thread object
  calls.\<close>

definition connect :: "(json \<Rightarrow> string) \<Rightarrow> network \<Rightarrow> client_config \<Rightarrow> signaling_client \<Rightarrow> (status \<times> signaling_client) option" where
  "connect json_dump nw cfg c =
     (if cl_connected c then Some (fail AlreadyRunning, c)
      else if cf_room cfg = [] then Some (fail InvalidArgument, c)
      else let c = c\<lparr>cl_cfg := cfg, cl_stopping := False, cl_selfId := 0\<rparr> in
        if \<not> nw_resolves nw then Some (fail NetworkError, c)
        else if \<not> list_ex id (nw_dials nw) then Some (fail NetworkError, c)
        else let c = c\<lparr>cl_fd := True, cl_leaked := cl_leaked c + (if cl_fd c then 1 else 0)\<rparr>;
                 s = fst (doHandshake cfg (nw_nonce nw) (nw_accepts nw) (nw_input nw))
             in if \<not> has_value s then Some (s, closeSocket c)
                else let c = c\<lparr>cl_connected := True\<rparr> in
                  if cl_recvThread c then None
                  else let c = c\<lparr>cl_recvThread := True\<rparr>;
                           s = fst (sendTextFrame (nw_mask nw) (nw_joinAccepts nw) (json_dump (join_message (cf_room cfg))) c)
                       in if \<not> has_value s then Some (s, fst (disconnect json_dump False (nw_mask nw) [] c))
                          else Some (ok, c))"

text \<open>The end of the receive loop on the network thread.\<close>

definition loop_finished :: "u64 \<Rightarrow> signaling_client \<Rightarrow> signaling_client" where
  "loop_finished selfId c = c\<lparr>cl_selfId := selfId, cl_connected := False\<rparr>"

definition sendMessage :: "(json \<Rightarrow> string) \<Rightarrow> bytes \<Rightarrow> nat list \<Rightarrow> string \<Rightarrow> u64 \<Rightarrow> string \<Rightarrow> signaling_client \<Rightarrow> status \<times> bytes" where
  "sendMessage json_dump msk accepts type to payload c =
     (if \<not> cl_connected c then (fail NotInitialized, [])
      else let j = [(''type'', JString type), (''room'', JString (cf_room (cl_cfg c))), (''payload'', JString payload)];
               j = (if to \<noteq> 0 then j @ [(''to'', JInt (uint to))] else j)
           in sendTextFrame msk accepts (json_dump (JObject j)) c)"

definition sendOffer :: "(json \<Rightarrow> string) \<Rightarrow> bytes \<Rightarrow> nat list \<Rightarrow> u64 \<Rightarrow> string \<Rightarrow> signaling_client \<Rightarrow> status \<times> bytes" where
  "sendOffer json_dump msk accepts to sdp c = sendMessage json_dump msk accepts ''offer'' to sdp c"

definition sendAnswer :: "(json \<Rightarrow> string) \<Rightarrow> bytes \<Rightarrow> nat list \<Rightarrow> u64 \<Rightarrow> string \<Rightarrow> signaling_client \<Rightarrow> status \<times> bytes" where
  "sendAnswer json_dump msk accepts to sdp c = sendMessage json_dump msk accepts ''answer'' to sdp c"

definition sendIceCandidate :: "(json \<Rightarrow> string) \<Rightarrow> bytes \<Rightarrow> nat list \<Rightarrow> u64 \<Rightarrow> string \<Rightarrow> signaling_client \<Rightarrow> status \<times> bytes" where
  "sendIceCandidate json_dump msk accepts to candidate c = sendMessage json_dump msk accepts ''ice'' to candidate c"

section \<open>Frames survive the wire\<close>

lemma xor_mask_invol: "xor_mask m (xor_mask m p) = p"
  by (rule nth_equalityI) (simp_all add: xor_mask_def xor.assoc)

lemma length_xor_mask [simp]: "length (xor_mask m p) = length p"
  by (simp add: xor_mask_def)

lemma small_octet:
  assumes "n < 128" shows "\<not> bit (of_nat n :: u8) 7"
proof -
  have "\<not> bit n 7" using assms by (simp add: bit_iff_odd)
  then show ?thesis by (simp add: bit_of_nat_iff)
qed

lemma length_octet:
  fixes w :: u8
  assumes "\<not> bit w 7"
  shows "(0x80 OR w) AND 0x7f = w" "(0x80 OR w) AND 0x80 \<noteq> 0" "w AND 0x7f = w" "w AND 0x80 = 0"
  using assms by (auto intro!: u8_eqI simp: bit_simps u8_mask_bit)

lemma octet_of: "ucast (ucast (x AND 0xff :: u64) :: u8) = x AND mask 8"
  unfolding FF_mask by (rule bit_word_eqI) (auto simp: bit_simps)

lemma be64_decode: "foldl (\<lambda>len e. push_bit 8 len OR ucast e) 0 (be64 n) = n"
proof (rule bit_word_eqI)
  fix i assume i: "i < LENGTH(64)"
  have l: "rev [0..<8] = [7, 6, 5, 4, 3, 2, 1, 0 :: nat]" by (simp add: upt_rec)
  have e: "foldl (\<lambda>len e. push_bit 8 len OR ucast e) (0 :: u64) (be64 n) =
      foldl (\<lambda>len k. push_bit 8 len OR (drop_bit (k * 8) n AND mask 8)) 0 [7, 6, 5, 4, 3, 2, 1, 0]"
    unfolding be64_def l by (simp only: list.map foldl.simps octet_of)
  consider "i < 8" | "8 \<le> i" "i < 16" | "16 \<le> i" "i < 24" | "24 \<le> i" "i < 32" | "32 \<le> i" "i < 40"
    | "40 \<le> i" "i < 48" | "48 \<le> i" "i < 56" | "56 \<le> i" "i < 64" using i by fastforce
  then show "bit (foldl (\<lambda>len e. push_bit 8 len OR ucast e) (0 :: u64) (be64 n)) i = bit n i"
    unfolding e by cases (auto simp: bit_simps)
qed

lemma be64_length [simp]: "length (be64 n) = 8"
  by (simp add: be64_def)

lemma two_octets: "x < 256 \<Longrightarrow> y < 256 \<Longrightarrow>
  push_bit 8 (ucast (of_nat x :: u8)) OR ucast (of_nat y :: u8) = (of_nat (256 * x + y) :: u64)"
proof -
  assume b: "x < 256" "y < 256"
  have u: "ucast (of_nat z :: u8) = (of_nat z :: u64)" if "z < 256" for z
  proof -
    have "(ucast (of_nat z :: u8) :: u64) = of_nat (unat (of_nat z :: u8))" by simp
    also have "unat (of_nat z :: u8) = z" using that by (intro unat_of_nat_less) simp
    finally show ?thesis .
  qed
  have "push_bit 8 (of_nat x) AND (of_nat y :: u64) = 0"
  proof (rule bit_word_eqI)
    fix i
    have "\<not> bit y i" if "8 \<le> i"
    proof -
      have "(2 :: nat) ^ 8 \<le> 2 ^ i" using that by (rule power_increasing) simp
      then have "y div 2 ^ i = 0" using b(2) by simp
      then show ?thesis by (simp add: bit_iff_odd)
    qed
    then show "bit (push_bit 8 (of_nat x) AND (of_nat y :: u64)) i = bit (0 :: u64) i"
      by (auto simp: bit_simps bit_of_nat_iff)
  qed
  then have "push_bit 8 (of_nat x) OR (of_nat y :: u64) = push_bit 8 (of_nat x) + of_nat y" by (simp add: disjunctive_add_eq_or)
  then show ?thesis unfolding u [OF b(1)] u [OF b(2)] by (simp add: push_bit_eq_mult mult.commute)
qed

text \<open>Reading a prefix that is known to be there.\<close>

definition pieces :: "bytes list \<Rightarrow> bytes \<Rightarrow> bool" where
  "pieces cs s \<longleftrightarrow> list_all (\<lambda>c. c \<noteq> []) cs \<and> concat cs = s"

lemma readExact_pieces:
  assumes "pieces cs (d @ rest)"
  obtains cs' where "readExact (length d) cs = Some (d, cs')" "pieces cs' rest"
  using readExact_complete [of cs "length d"] assms that by (auto simp: pieces_def)

lemma recv_length_pieces:
  assumes "frame_length mb n = h # ext" "pieces cs (ext @ rest)" "n < 2 ^ 64" "mb = 0 \<or> mb = 0x80"
  obtains cs' where "recv_length (h AND 0x7f) cs = Some (of_nat n, cs')" "pieces cs' rest"
    "h AND 0x80 = mb"
proof -
  have small: "(mb OR of_nat k) AND 0x7f = of_nat k" "(mb OR of_nat k) AND 0x80 = mb" if "k < 128" for k
    using assms(4) length_octet [OF small_octet [OF that]] 
    by (auto intro!: u8_eqI simp: bit_simps small_octet [OF that])
  consider "n < 126" | "126 \<le> n" "n \<le> 0xFFFF" | "0xFFFF < n" by linarith
  then show thesis
  proof cases
    case 1
    then have h: "h = mb OR of_nat n" "ext = []" using assms(1) by (simp_all add: frame_length_def)
    have u: "unat (of_nat n :: u8) = n" using 1 by (intro unat_of_nat_less) simp
    have "w \<noteq> 126 \<and> w \<noteq> 127" if "unat w < 126" for w :: u8 using that by auto
    then have "(of_nat n :: u8) \<noteq> 126 \<and> (of_nat n :: u8) \<noteq> 127" using 1 by (metis u)
    moreover have "(ucast (of_nat n :: u8) :: u64) = of_nat (unat (of_nat n :: u8))" by simp
    ultimately have "recv_length (h AND 0x7f) cs = Some (of_nat n, cs)"
      unfolding u using small [of n] 1 by (simp add: recv_length_def h)
    then show thesis using that [of cs] assms(2) small [of n] 1 h by simp
  next
    case 2
    then have h: "h = mb OR of_nat 126" "ext = [of_nat (n div 256 mod 256), of_nat (n mod 256)]"
      using assms(1) by (simp_all add: frame_length_def)
    have l: "length ext = 2" using h(2) by simp
    obtain cs' where r: "readExact 2 cs = Some (ext, cs')" "pieces cs' rest"
      by (rule readExact_pieces [OF assms(2), unfolded l])
    have "n div 256 < 256" using 2(2) by (intro less_mult_imp_div_less) simp
    then have "256 * (n div 256 mod 256) + n mod 256 = n" by (simp only: mod_less mult_div_mod_eq)
    then have "push_bit 8 (ucast (ext ! 0)) OR ucast (ext ! 1) = (of_nat n :: u64)"
      using two_octets [of "n div 256 mod 256" "n mod 256"] by (simp add: h(2))
    then show thesis using that [of cs'] r small [of 126] h(1) by (simp add: recv_length_def)
  next
    case 3
    then have h: "h = mb OR of_nat 127" "ext = be64 (of_nat n)" using assms(1) by (simp_all add: frame_length_def)
    have l: "length ext = 8" using h(2) by simp
    obtain cs' where r: "readExact 8 cs = Some (ext, cs')" "pieces cs' rest"
      by (rule readExact_pieces [OF assms(2), unfolded l])
    then show thesis using that [of cs'] small [of 127] h be64_decode by (simp add: recv_length_def)
  qed
qed

text \<open>The frame as another endpoint writes it: unmasked from a server (RFC 6455, section 5.2).\<close>

definition server_frame :: "u8 \<Rightarrow> bytes \<Rightarrow> bytes" where
  "server_frame op payload = [0x80 OR op] @ frame_length 0 (length payload) @ payload"

lemma frame_length_Cons: obtains h ext where "frame_length mb n = h # ext"
  by (cases "frame_length mb n") (auto simp: frame_length_def split: if_splits)

lemma unat_of_len: "n < 2 ^ 64 \<Longrightarrow> unat (of_nat n :: u64) = n"
  by (rule unat_of_nat_less) simp

lemma recv_frame_pieces:
  assumes "pieces cs ([b0] @ frame_length (if masked then 0x80 else 0) (length body) @ (if masked then m else []) @ body @ rest)"
    "masked \<Longrightarrow> length m = 4" "length body < 2 ^ 64"
  obtains cs' where "recv_frame cs = Some (b0 AND 0x80 \<noteq> 0, b0 AND 0x0f, if masked then xor_mask m body else body, cs')"
    "pieces cs' rest"
proof -
  obtain h ext where he: "frame_length (if masked then 0x80 else 0) (length body) = h # ext" by (rule frame_length_Cons)
  obtain c1 where 1: "readExact 2 cs = Some ([b0, h], c1)" "pieces c1 (ext @ (if masked then m else []) @ body @ rest)"
    using readExact_pieces [of cs "[b0, h]" "ext @ (if masked then m else []) @ body @ rest"] assms(1) he
    by (auto simp: numeral_2_eq_2)
  obtain c2 where 2: "recv_length (h AND 0x7f) c1 = Some (of_nat (length body), c2)"
    "pieces c2 ((if masked then m else []) @ body @ rest)" "h AND 0x80 = (if masked then 0x80 else 0)"
    by (rule recv_length_pieces [OF he 1(2) assms(3)]) auto
  obtain m' c3 where 3: "(if masked then readExact 4 c2 else Some ([0, 0, 0, 0], c2)) = Some (m', c3)"
    "pieces c3 (body @ rest)" "masked \<Longrightarrow> m' = m"
  proof (cases masked)
    case True
    then show thesis using readExact_pieces [of c2 m "body @ rest"] 2(2) assms(2) that by fastforce
  next
    case False
    then show thesis using 2(2) that [of "[0, 0, 0, 0]" c2] by simp
  qed
  obtain c4 where 4: "readExact (length body) c3 = Some (body, c4)" "pieces c4 rest"
    by (rule readExact_pieces [OF 3(2)])
  have "recv_frame cs = Some (b0 AND 0x80 \<noteq> 0, b0 AND 0x0f, if masked then xor_mask m body else body, c4)"
    using 1 2 3 4 assms(3) by (cases masked) (simp_all add: recv_frame_def unat_of_len)
  then show thesis using that 4(2) by blast
qed

text \<open>C31. A text frame survives the wire: whatever pieces the stream arrives in and whatever mask was
  drawn, the receive loop reads from the frame of \<^verbatim>\<open>sendTextFrame\<close> exactly the text, as a final
  text frame, and leaves exactly the bytes behind it; this holds across the three length forms.\<close>

theorem client_frame_roundtrip:
  assumes "length m = 4" "length p < 2 ^ 64" "pieces cs (client_frame m p @ rest)"
  shows "\<exists>cs'. recv_frame cs = Some (True, 1, p, cs') \<and> pieces cs' rest"
proof -
  have "pieces cs ([0x81] @ frame_length (if True then 0x80 else 0) (length (xor_mask m p)) @ (if True then m else []) @ xor_mask m p @ rest)"
    using assms(3) by (simp add: client_frame_def)
  then obtain cs' where "recv_frame cs = Some (0x81 AND 0x80 \<noteq> (0 :: u8), 0x81 AND 0x0f, if True then xor_mask m (xor_mask m p) else xor_mask m p, cs')"
    "pieces cs' rest"
    by (rule recv_frame_pieces) (use assms in simp_all)
  then show ?thesis by (simp add: xor_mask_invol)
qed

lemma recv_server_frame:
  assumes "length p < 2 ^ 64" "pieces cs (server_frame op p @ rest)" "op AND 0x0f = op"
  obtains cs' where "recv_frame cs = Some (True, op, p, cs')" "pieces cs' rest"
proof -
  have "pieces cs ([0x80 OR op] @ frame_length (if False then 0x80 else 0) (length p) @ (if False then [] else []) @ p @ rest)"
    using assms(2) by (simp add: server_frame_def)
  then obtain cs' where r: "recv_frame cs = Some ((0x80 OR op) AND 0x80 \<noteq> 0, (0x80 OR op) AND 0x0f, if False then xor_mask [] p else p, cs')"
    "pieces cs' rest"
    by (rule recv_frame_pieces) (use assms in simp_all)
  have "(0x80 OR op) AND 0x0f = op AND 0x0f" by (rule u8_eqI) (auto simp: bit_simps)
  moreover have "(0x80 OR op) AND 0x80 \<noteq> 0" by (auto simp: u8_mask_bit bit_simps)
  ultimately show thesis using r assms(3) that by simp
qed

text \<open>What the callbacks should see of a sequence of messages.\<close>

fun deliver_all :: "(string \<Rightarrow> json option) \<Rightarrow> callbacks \<Rightarrow> u64 \<Rightarrow> bytes list \<Rightarrow> (u64 \<times> client_event list) option" where
  "deliver_all json_parse cbs i [] = loop_end cbs False i"
| "deliver_all json_parse cbs i (p # ps) = (case dispatch json_parse cbs False i (text_of p) of
     None \<Rightarrow> None | Some (i', evs) \<Rightarrow> and_then evs (deliver_all json_parse cbs i' ps))"

text \<open>C21. The receive loop is faithful to the message stream: fed any number of text messages cut
  into arbitrary pieces and then the end of the stream, it invokes exactly the callbacks of the
  messages, in order, each message once, and then reports the lost connection; it ends in an
  exception exactly when one of the messages makes the dispatch throw.\<close>

theorem receive_loop_in_order:
  assumes "pieces cs (concat (map (server_frame 1) ps))" "list_all (\<lambda>p. length p < 2 ^ 64) ps"
  shows "runRecvLoop json_parse cbs (\<lambda>_. False) k i cs = deliver_all json_parse cbs i ps"
  using assms
proof (induction ps arbitrary: cs i k)
  case Nil
  then have "cs = []" by (cases cs) (auto simp: pieces_def)
  then show ?case by (simp add: runRecvLoop.simps recv_frame_def readExact.simps)
next
  case (Cons p ps)
  have op: "(1 :: u8) AND 0x0f = 1" by simp
  obtain cs' where "recv_frame cs = Some (True, 1, p, cs')" "pieces cs' (concat (map (server_frame 1) ps))"
    by (rule recv_server_frame [OF _ _ op, of p cs "concat (map (server_frame 1) ps)"]) (use Cons.prems in simp_all)
  then show ?case using Cons by (simp add: runRecvLoop.simps [of _ _ _ k] split: option.splits)
qed

text \<open>Reconnecting after the server dropped the link: the loop's end leaves the network thread
  joinable and the descriptor open, \<^verbatim>\<open>connect\<close> does not refuse, and once the new handshake
  succeeds the program is terminated; after a \<^verbatim>\<open>disconnect\<close> from another thread the same
  connection attempt never is, and leaks nothing.\<close>

theorem reconnect_after_drop:
  assumes "cf_room cfg \<noteq> []" "nw_resolves nw" "list_ex id (nw_dials nw)"
    "fst (doHandshake cfg (nw_nonce nw) (nw_accepts nw) (nw_input nw)) = ok"
    "connect D nw0 cfg0 new_client = Some (ok, c)"
  shows "connect D nw cfg (loop_finished i c) = None \<and>
    (case connect D nw cfg (fst (disconnect D False m ks (loop_finished i c))) of
       None \<Rightarrow> False | Some (s, c') \<Rightarrow> cl_leaked c' = 0 \<and> (cl_connected c' \<longleftrightarrow> has_value s))"
proof -
  have c: "cl_recvThread c" "cl_fd c" "\<not> cl_stopping c" "cl_leaked c = 0"
    using assms(5) by (auto simp: connect_def new_client_def Let_def closeSocket_def ok_def fail_def split: if_splits)
  then have "connect D nw cfg (loop_finished i c) = None"
    using assms(1-4) by (simp add: connect_def loop_finished_def Let_def)
  moreover have d: "fst (disconnect D False m ks (loop_finished i c)) =
      c\<lparr>cl_selfId := i, cl_stopping := True, cl_connected := False, cl_fd := False, cl_recvThread := False\<rparr>"
    using c by (simp add: disconnect_def loop_finished_def Let_def join_thread_def closeSocket_def)
  ultimately show ?thesis unfolding d using assms(1-4) c
    by (auto simp: connect_def Let_def disconnect_def closeSocket_def join_thread_def sendTextFrame_def split: if_splits prod.splits)
qed

section \<open>A conforming response is accepted\<close>

lemma text_of_bytes_of: "text_of (bytes_of s) = s"
proof -
  have "unat (of_nat (of_char c) :: u8) = of_char c" for c
    by (rule unat_of_nat_less) simp
  then show ?thesis by (simp add: text_of_def bytes_of_def comp_def)
qed

lemma read_headers_stops:
  assumes "contains (crlf @ crlf) (a @ b)" "length (a @ b) \<le> 8193" "pieces cs (bytes_of b @ tail)"
    "\<And>n. n < length (a @ b) \<Longrightarrow> \<not> contains (crlf @ crlf) (take n (a @ b))"
  shows "\<exists>cs'. read_headers a cs = Inr (a @ b, cs') \<and> pieces cs' tail"
  using assms
proof (induction b arbitrary: a cs)
  case Nil
  then show ?case by (auto simp: read_headers.simps [of a] bytes_of_def)
next
  case (Cons c b)
  have no: "\<not> contains (crlf @ crlf) a" using Cons.prems(4) [of "length a"] by simp
  obtain cs' where r: "readExact 1 cs = Some (bytes_of [c], cs')" "pieces cs' (bytes_of b @ tail)"
    using readExact_pieces [of cs "bytes_of [c]" "bytes_of b @ tail"] Cons.prems(3) by (auto simp: bytes_of_def)
  have "\<exists>cs''. read_headers (a @ [c]) cs' = Inr ((a @ [c]) @ b, cs'') \<and> pieces cs'' tail"
    by (rule Cons.IH) (use Cons.prems r(2) in simp_all)
  moreover have "read_headers a cs = read_headers (a @ [c]) cs'"
    using no r(1) Cons.prems(2) text_of_bytes_of [of "[c]"] by (subst read_headers.simps) simp
  ultimately show ?case by simp
qed

definition expected_accept :: "bytes \<Rightarrow> string" where
  "expected_accept nonce = base64 (fips_sha1 (bytes_of (base64 nonce @ ''258EAFA5-E914-47DA-95CA-C5AB0DC85B11'')))"

lemma accept_key_fips: "accept_key (base64 nonce) = Some (expected_accept nonce)"
  using digest_fips [OF absorbed_update [OF absorbed_reset]] by (simp add: accept_key_def expected_accept_def)

lemma handshake_conforming:
  assumes "contains (crlf @ crlf) r" "\<And>n. n < length r \<Longrightarrow> \<not> contains (crlf @ crlf) (take n r)" "length r \<le> 8193"
    "contains '' 101 '' r" "contains (expected_accept nonce) r" "pieces cs (bytes_of r @ tail)"
    "fst (writeAll accepts (bytes_of (upgrade_request cfg (base64 nonce))))"
  shows "fst (doHandshake cfg nonce accepts cs) = ok"
proof -
  obtain cs' where "read_headers [] cs = Inr (r, cs')"
    using read_headers_stops [of "[]" r cs tail] assms by auto
  then show ?thesis using assms(4,5,7)
    by (simp add: doHandshake_def Let_def accept_key_fips split_beta)
qed

lemma contains_part: "contains p (a @ p @ b)"
  unfolding contains_def list_ex_iff by (intro bexI [of _ "length a"]) auto

lemma no_blank_line:
  assumes "CHR 0x0D \<notin> set s" "n < length s + 4" shows "\<not> contains (crlf @ crlf) (take n (s @ crlf @ crlf))"
proof
  assume "contains (crlf @ crlf) (take n (s @ crlf @ crlf))"
  moreover have l: "length (crlf @ crlf) = 4" by (simp add: crlf_def)
  ultimately obtain i where i: "take 4 (drop i (take n (s @ crlf @ crlf))) = crlf @ crlf"
    unfolding contains_def list_ex_iff l by blast
  then have "length (take 4 (drop i (take n (s @ crlf @ crlf)))) = 4" by (simp add: crlf_def)
  then have len: "i + 4 \<le> n" "n \<le> length s + 4" using assms(2) by (auto simp: crlf_def min_def split: if_splits)
  define t where "t = s @ crlf @ crlf"
  have lt: "length t = length s + 4" by (simp add: t_def crlf_def)
  have "take 4 (drop i (take n t)) ! 0 = CHR 0x0D" by (simp only: t_def i) (simp add: crlf_def)
  then have "t ! i = CHR 0x0D" using len lt by simp
  then have "(s @ crlf @ crlf) ! i = CHR 0x0D" by (simp only: t_def)
  moreover have "i < length s" using len assms(2) by simp
  ultimately have "CHR 0x0D \<in> set s" by (simp add: nth_append) (metis nth_mem)
  then show False using assms(1) by simp
qed

section \<open>Concrete runs\<close>

lemma pieces_bytewise: "pieces (map (\<lambda>b. [b]) s) s"
  by (simp add: pieces_def list_all_iff)

lemma client_frame_roundtrip_witness:
  "\<exists>cs'. recv_frame (map (\<lambda>b. [b]) (client_frame [1, 2, 3, 4] [104, 105] @ [7])) = Some (True, 1, [104, 105], cs') \<and> pieces cs' [7]"
  using client_frame_roundtrip [of "[1, 2, 3, 4]" "[104, 105]", OF _ _ pieces_bytewise, of "[7]"] by simp

definition demo_callbacks :: callbacks where
  "demo_callbacks = \<lparr>cb_onJoined = True, cb_onPeerJoined = True, cb_onPeerLeft = True, cb_onOffer = True,
     cb_onAnswer = True, cb_onIceCandidate = True, cb_onError = True\<rparr>"

definition demo_json :: "string \<Rightarrow> json option" where
  "demo_json s = (if s = ''j'' then Some (JObject [(''type'', JString ''joined''), (''id'', JInt 5), (''peers'', JArray [JInt 2, JInt 3])])
     else if s = ''o'' then Some (JObject [(''type'', JString ''offer''), (''from'', JInt 2), (''payload'', JString ''sdp'')])
     else None)"

lemma receive_loop_in_order_witness:
  "runRecvLoop demo_json demo_callbacks (\<lambda>_. False) 0 0
     (map (\<lambda>b. [b]) (concat (map (server_frame 1) [bytes_of ''j'', bytes_of ''o'', bytes_of ''x'']))) =
   Some (5, [EvJoined 5, EvPeerJoined 2, EvPeerJoined 3, EvOffer 2 ''sdp'', EvError Protocol ''malformed server JSON'',
     EvError NetworkError ''connection closed''])"
  by (subst receive_loop_in_order [OF pieces_bytewise])
    (simp_all add: text_of_bytes_of dispatch_def demo_json_def value_string_def value_u64_def demo_callbacks_def
      loop_end_def and_then_def reportError_def only_if_def payload_event_def, simp_all add: bytes_of_def)

definition demo_response :: string where
  "demo_response = '' 101 '' @ expected_accept (replicate 16 0)"

definition demo_network :: network where
  "demo_network = \<lparr>nw_resolves = True, nw_dials = [False, True], nw_nonce = replicate 16 0,
     nw_input = map (\<lambda>b. [b]) (bytes_of (demo_response @ crlf @ crlf)), nw_accepts = [1000], nw_mask = [1, 2, 3, 4],
     nw_joinAccepts = [1000]\<rparr>"

definition demo_config :: client_config where
  "demo_config = \<lparr>cf_host = ''h'', cf_port = 80, cf_path = ''/'', cf_room = ''r''\<rparr>"

lemma set_base64: "set (base64 bs) \<subseteq> insert (CHR ''='') (set b64_tbl)"
proof (induction bs rule: base64.induct)
  case (1 x y z rest)
  have "b64_char k n \<in> set b64_tbl" for k n
    unfolding b64_char_def by (rule nth_mem) (simp add: b64_tbl_facts six_bits)
  then show ?case using 1 by (simp add: Let_def)
qed (simp_all add: Let_def b64_char_def b64_tbl_facts six_bits)

lemma writeAll_one: "length buf \<le> k \<Longrightarrow> 0 < k \<Longrightarrow> writeAll [k] buf = (True, buf)"
  by (cases buf) auto

lemma demo_handshake:
  "fst (doHandshake demo_config (nw_nonce demo_network) (nw_accepts demo_network) (nw_input demo_network)) = ok"
proof -
  have cr: "CHR 0x0D \<notin> set demo_response"
    using set_base64 by (fastforce simp: demo_response_def expected_accept_def b64_tbl_def)
  have len: "length demo_response = 33"
    by (simp add: demo_response_def expected_accept_def length_base64 fips_length)
  have "fst (doHandshake demo_config (replicate 16 0) [1000] (map (\<lambda>b. [b]) (bytes_of (demo_response @ crlf @ crlf)))) = ok"
  proof (rule handshake_conforming)
    show "contains (crlf @ crlf) (demo_response @ crlf @ crlf)"
      using contains_part [of "crlf @ crlf" demo_response "[]"] by simp
    show "\<not> contains (crlf @ crlf) (take n (demo_response @ crlf @ crlf))" if "n < length (demo_response @ crlf @ crlf)" for n
      using no_blank_line [OF cr, of n] that by (simp add: crlf_def)
    show "length (demo_response @ crlf @ crlf) \<le> 8193" by (simp add: len crlf_def)
    show "contains '' 101 '' (demo_response @ crlf @ crlf)"
      using contains_part [of "'' 101 ''" "[]"] by (simp add: demo_response_def)
    show "contains (expected_accept (replicate 16 0)) (demo_response @ crlf @ crlf)"
      using contains_part [of "expected_accept (replicate 16 0)" "'' 101 ''" "crlf @ crlf"] by (simp add: demo_response_def)
    show "pieces (map (\<lambda>b. [b]) (bytes_of (demo_response @ crlf @ crlf))) (bytes_of (demo_response @ crlf @ crlf) @ [])"
      using pieces_bytewise by simp
    have "length (decimal 80) = 2" by (simp add: decimal.simps [of 80] decimal.simps [of 8])
    then have "length (bytes_of (upgrade_request demo_config (base64 (replicate 16 0)))) \<le> 1000"
      by (simp add: upgrade_request_def bytes_of_def demo_config_def crlf_def length_base64)
    then show "fst (writeAll [1000] (bytes_of (upgrade_request demo_config (base64 (replicate 16 0)))))"
      by (subst writeAll_one) simp_all
  qed
  then show ?thesis by (simp add: demo_network_def)
qed

lemma demo_connect:
  "connect (\<lambda>_. ''m'') demo_network demo_config new_client =
    Some (ok, snd (the (connect (\<lambda>_. ''m'') demo_network demo_config new_client)))"
proof -
  have "writeAll [1000] (client_frame [1, 2, 3, 4] (bytes_of ''m'')) = (True, client_frame [1, 2, 3, 4] (bytes_of ''m''))"
    by (rule writeAll_one) (simp_all add: client_frame_def frame_length_def bytes_of_def)
  then show ?thesis using demo_handshake
    by (simp add: connect_def new_client_def demo_config_def Let_def sendTextFrame_def)
      (simp add: demo_network_def)
qed

lemma reconnect_after_drop_witness:
  "connect (\<lambda>_. ''m'') demo_network demo_config
     (loop_finished 5 (snd (the (connect (\<lambda>_. ''m'') demo_network demo_config new_client)))) = None"
  using reconnect_after_drop [OF _ _ _ demo_handshake demo_connect, of 5]
  by (simp add: demo_network_def demo_config_def)

end
