(* ===== verification/Nat_Traversal.thy ===== *)
theory Nat_Traversal
  imports Common
begin

text \<open>
  ICE connectivity: the wrapper around libjuice of src/src/signaling/NATTraversal.cpp and the
  environment configuration. libjuice is not part of the repository: whether each of its calls
  succeeds is an argument, what it is configured with and what is sent through it are results.
\<close>

section \<open>Types\<close>

datatype ice_state = IceDisconnected | IceGathering | IceConnecting | IceConnected | IceCompleted | IceFailed

fun ice_to_string :: "ice_state \<Rightarrow> string" where
  "ice_to_string IceDisconnected = ''Disconnected''"
| "ice_to_string IceGathering = ''Gathering''"
| "ice_to_string IceConnecting = ''Connecting''"
| "ice_to_string IceConnected = ''Connected''"
| "ice_to_string IceCompleted = ''Completed''"
| "ice_to_string IceFailed = ''Failed''"

text \<open>The states of libjuice, and any other value of its enumeration.\<close>

datatype juice_state = JUICE_DISCONNECTED | JUICE_GATHERING | JUICE_CONNECTING | JUICE_CONNECTED
  | JUICE_COMPLETED | JUICE_FAILED | JUICE_other

fun fromJuice :: "juice_state \<Rightarrow> ice_state" where
  "fromJuice JUICE_DISCONNECTED = IceDisconnected"
| "fromJuice JUICE_GATHERING = IceGathering"
| "fromJuice JUICE_CONNECTING = IceConnecting"
| "fromJuice JUICE_CONNECTED = IceConnected"
| "fromJuice JUICE_COMPLETED = IceCompleted"
| "fromJuice JUICE_FAILED = IceFailed"
| "fromJuice JUICE_other = IceDisconnected"

record turn_server =
  ts_host :: string
  ts_port :: u16
  ts_username :: string
  ts_password :: string

definition new_turn_server :: turn_server where
  "new_turn_server = \<lparr>ts_host = [], ts_port = 3478, ts_username = [], ts_password = []\<rparr>"

record nat_config =
  nc_stunHost :: string
  nc_stunPort :: u16
  nc_turnServers :: "turn_server list"

definition default_nat_config :: nat_config where
  "default_nat_config = \<lparr>nc_stunHost = ''stun.l.google.com'', nc_stunPort = 19302, nc_turnServers = []\<rparr>"

record nat_callbacks =
  nb_onLocalCandidate :: bool
  nb_onGatheringDone :: bool
  nb_onStateChanged :: bool
  nb_onData :: bool

datatype nat_event = LocalCandidate string | GatheringDone | StateChanged ice_state | Data bytes

record nat_traversal =
  nt_agent :: bool
  nt_cbs :: nat_callbacks
  nt_cfg :: nat_config
  nt_state :: ice_state

definition new_nat_traversal :: nat_traversal where
  "new_nat_traversal = \<lparr>nt_agent = False,
     nt_cbs = \<lparr>nb_onLocalCandidate = False, nb_onGatheringDone = False, nb_onStateChanged = False, nb_onData = False\<rparr>,
     nt_cfg = default_nat_config, nt_state = IceDisconnected\<rparr>"

section \<open>Events from the agent\<close>

definition handleStateChanged :: "juice_state \<Rightarrow> nat_traversal \<Rightarrow> nat_traversal \<times> nat_event list" where
  "handleStateChanged js n = (let s = fromJuice js in
     (n\<lparr>nt_state := s\<rparr>, if nb_onStateChanged (nt_cbs n) then [StateChanged s] else []))"

text \<open>The candidate is a C string, possibly null.\<close>

definition handleCandidate :: "string option \<Rightarrow> nat_traversal \<Rightarrow> nat_event list" where
  "handleCandidate sdp n = (case sdp of
     Some c \<Rightarrow> if nb_onLocalCandidate (nt_cbs n) then [LocalCandidate c] else [] | None \<Rightarrow> [])"

definition handleGatheringDone :: "nat_traversal \<Rightarrow> nat_event list" where
  "handleGatheringDone n = (if nb_onGatheringDone (nt_cbs n) then [GatheringDone] else [])"

definition handleRecv :: "bytes \<Rightarrow> nat_traversal \<Rightarrow> nat_event list" where
  "handleRecv data n = (if nb_onData (nt_cbs n) then [Data data] else [])"

section \<open>Operations\<close>

text \<open>What \<^verbatim>\<open>juice_create\<close> is given: the STUN server, if any, and the relays.\<close>

record juice_config =
  jc_stun :: "(string \<times> u16) option"
  jc_turn :: "turn_server list"

definition nat_initialize :: "bool \<Rightarrow> nat_config \<Rightarrow> nat_callbacks \<Rightarrow> nat_traversal
    \<Rightarrow> status \<times> nat_traversal \<times> juice_config option" where
  "nat_initialize created cfg cbs n =
     (if nt_agent n then (fail AlreadyRunning, n, None)
      else let n = n\<lparr>nt_cfg := cfg, nt_cbs := cbs\<rparr>;
               jc = \<lparr>jc_stun = (if nc_stunHost cfg \<noteq> [] then Some (nc_stunHost cfg, nc_stunPort cfg) else None),
                     jc_turn = nc_turnServers cfg\<rparr>
           in if \<not> created then (fail NetworkError, n, Some jc) else (ok, n\<lparr>nt_agent := True\<rparr>, Some jc))"

definition startGathering :: "bool \<Rightarrow> nat_traversal \<Rightarrow> status" where
  "startGathering juice_ok n = (if \<not> nt_agent n then fail NotInitialized
     else if \<not> juice_ok then fail NetworkError else ok)"

definition localDescription :: "string option \<Rightarrow> nat_traversal \<Rightarrow> string result" where
  "localDescription juice n = (if \<not> nt_agent n then fail NotInitialized
     else case juice of None \<Rightarrow> fail NetworkError | Some buf \<Rightarrow> Inr buf)"

definition setRemoteDescription :: "(string \<Rightarrow> bool) \<Rightarrow> string \<Rightarrow> nat_traversal \<Rightarrow> status" where
  "setRemoteDescription juice sdp n = (if \<not> nt_agent n then fail NotInitialized
     else if \<not> juice sdp then fail Protocol else ok)"

definition addRemoteCandidate :: "(string \<Rightarrow> bool) \<Rightarrow> string \<Rightarrow> nat_traversal \<Rightarrow> status" where
  "addRemoteCandidate juice candidate n = (if \<not> nt_agent n then fail NotInitialized
     else if \<not> juice candidate then fail Protocol else ok)"

definition setRemoteGatheringDone :: "bool \<Rightarrow> nat_traversal \<Rightarrow> status" where
  "setRemoteGatheringDone juice_ok n = (if \<not> nt_agent n then fail NotInitialized
     else if \<not> juice_ok then fail NetworkError else ok)"

text \<open>\<^verbatim>\<open>send\<close>: the datagram handed to the network, if any.\<close>

definition nat_send :: "bool \<Rightarrow> bytes \<Rightarrow> nat_traversal \<Rightarrow> status \<times> bytes list" where
  "nat_send juice_ok data n = (if \<not> nt_agent n then (fail NotInitialized, [])
     else if \<not> juice_ok then (fail NetworkError, []) else (ok, [data]))"

section \<open>Configuration from the environment\<close>

text \<open>The text before and behind the last \<open>c\<close> (\<^verbatim>\<open>rfind\<close>).\<close>

definition split_last :: "char \<Rightarrow> string \<Rightarrow> (string \<times> string) option" where
  "split_last c s = (if c \<in> set s
     then Some (rev (tl (dropWhile (\<lambda>x. x \<noteq> c) (rev s))), rev (takeWhile (\<lambda>x. x \<noteq> c) (rev s))) else None)"

definition splitHostPort :: "string \<Rightarrow> u16 \<Rightarrow> string \<times> u16" where
  "splitHostPort s defPort = (case split_last (CHR '':'') s of
     Some (host, rest) \<Rightarrow> let p = atoi rest in (host, if 0 < p \<and> p \<le> 65535 then of_int p else defPort)
   | None \<Rightarrow> (s, defPort))"

definition iceConfigFromEnv :: "(string \<Rightarrow> string option) \<Rightarrow> nat_config" where
  "iceConfigFromEnv getenv =
     (let cfg = default_nat_config;
          cfg = (case getenv ''VC_STUN'' of None \<Rightarrow> cfg
            | Some s \<Rightarrow> if s = [] \<or> s = ''off'' then cfg\<lparr>nc_stunHost := []\<rparr>
                else let (host, port) = splitHostPort s 19302 in cfg\<lparr>nc_stunHost := host, nc_stunPort := port\<rparr>)
      in case getenv ''VC_TURN'' of None \<Rightarrow> cfg
         | Some turn \<Rightarrow> if turn = [] then cfg
             else let (host, port) = splitHostPort turn 3478;
                      ts = new_turn_server\<lparr>ts_host := host, ts_port := port\<rparr>;
                      ts = (case getenv ''VC_TURN_USER'' of Some u \<Rightarrow> ts\<lparr>ts_username := u\<rparr> | None \<Rightarrow> ts);
                      ts = (case getenv ''VC_TURN_PASS'' of Some p \<Rightarrow> ts\<lparr>ts_password := p\<rparr> | None \<Rightarrow> ts)
                  in cfg\<lparr>nc_turnServers := nc_turnServers cfg @ [ts]\<rparr>)"

section \<open>Properties\<close>

lemma split_last_Some: "c \<notin> set b \<Longrightarrow> split_last c (a @ c # b) = Some (a, b)"
  by (auto simp: split_last_def takeWhile_append dropWhile_append)

lemma split_last_sound: "split_last c s = Some (a, b) \<Longrightarrow> s = a @ c # b \<and> c \<notin> set b"
proof -
  assume h: "split_last c s = Some (a, b)"
  then have c: "c \<in> set (rev s)" by (simp add: split_last_def split: if_splits)
  then obtain xs ys where rs: "rev s = xs @ c # ys" "c \<notin> set xs" using split_list_first [OF c] by blast
  then have "s = rev ys @ c # rev xs" by (metis rev_rev_ident rev_append rev.simps(2) append_assoc append_Cons append_Nil)
  then show ?thesis using h rs(2) split_last_Some [of c "rev xs" "rev ys"] by auto
qed

lemma splitHostPort_roundtrip:
  assumes "0 < p" "p \<le> 65535" shows "splitHostPort (host @ '':'' @ decimal p) d = (host, of_nat p)"
proof -
  have "CHR '':'' \<notin> set (decimal p)" using decimal_digits [of p] by (auto simp: list_all_iff is_digit_def)
  then have "split_last (CHR '':'') (host @ '':'' @ decimal p) = Some (host, decimal p)"
    using split_last_Some by fastforce
  then show ?thesis using assms by (simp add: splitHostPort_def atoi_decimal)
qed

lemma splitHostPort_port: "0 < d \<Longrightarrow> 0 < snd (splitHostPort s d)"
proof -
  assume d: "0 < d"
  have "0 < (of_int p :: u16)" if "0 < p" "p \<le> 65535" for p
  proof -
    have "uint (of_int p :: u16) = p" using that by (simp add: uint_word_of_int take_bit_eq_mod)
    then show ?thesis using that(1) by (metis uint_0_iff word_gt_0 less_irrefl)
  qed
  then show ?thesis using d by (auto simp: splitHostPort_def Let_def split: option.splits)
qed

end
