(* ===== verification/Dtls_Srtp.thy ===== *)
theory Dtls_Srtp
  imports Common "HOL-Library.Sublist"
begin

text \<open>
  DTLS-SRTP keying: src/src/signaling/DtlsSrtp.cpp. OpenSSL and libsrtp are not part of the
  repository. The handshake engine is a parameter (\<open>dtls_engine\<close>): a state with the calls the
  code makes on it; libsrtp is \<open>srtp_lib\<close>: sessions made from a master key, with a protect and an
  unprotect call that may fail.
\<close>

section \<open>Fingerprints\<close>

definition hex_digit :: "nat \<Rightarrow> char" where
  "hex_digit n = ''0123456789ABCDEF'' ! n"

fun colon_hex :: "bytes \<Rightarrow> string" where
  "colon_hex [] = []"
| "colon_hex [b] = [hex_digit (unat (drop_bit 4 b)), hex_digit (unat (b AND 0xF))]"
| "colon_hex (b # bs) = hex_digit (unat (drop_bit 4 b)) # hex_digit (unat (b AND 0xF)) # CHR '':'' # colon_hex bs"

text \<open>\<open>digest\<close> is the SHA-256 digest that OpenSSL computes of the certificate, if it can.\<close>

definition fingerprintOf :: "bytes option \<Rightarrow> string" where
  "fingerprintOf digest = (case digest of None \<Rightarrow> [] | Some md \<Rightarrow> ''sha-256 '' @ colon_hex md)"

text \<open>\<^verbatim>\<open>std::toupper\<close> in the C locale.\<close>

definition to_upper :: "char \<Rightarrow> char" where
  "to_upper c = (if 97 \<le> (of_char c :: nat) \<and> (of_char c :: nat) \<le> 122 then char_of (of_char c - 32 :: nat) else c)"

definition normalizeFp :: "string \<Rightarrow> string" where
  "normalizeFp s = map to_upper (rev (dropWhile is_space (rev (dropWhile is_space s))))"

section \<open>Signaling payloads\<close>

definition fp_tag :: string where
  "fp_tag = CHR 0x0A # ''#fp ''"

definition packDescription :: "string \<Rightarrow> string \<Rightarrow> string" where
  "packDescription ice fingerprint = ice @ fp_tag @ fingerprint"

text \<open>The position of the first occurrence (\<^verbatim>\<open>find\<close>).\<close>

fun find_sub :: "string \<Rightarrow> string \<Rightarrow> nat option" where
  "find_sub pat s = (if prefix pat s then Some 0
     else case s of [] \<Rightarrow> None | _ # cs \<Rightarrow> map_option Suc (find_sub pat cs))"

declare find_sub.simps [simp del]

definition unpackDescription :: "string \<Rightarrow> string \<times> string" where
  "unpackDescription payload = (case find_sub fp_tag payload of
     None \<Rightarrow> (payload, [])
   | Some pos \<Rightarrow> (take pos payload, drop (pos + 5) payload))"

section \<open>The handshake\<close>

datatype dtls_role = Client | Server
datatype ssl_error = WantRead | WantWrite | SslFatal

text \<open>The engine: one \<^verbatim>\<open>SSL_do_handshake\<close> with the records it puts into the outbound buffer, the
  error it leaves, whether the handshake is finished, whether a retransmission timer runs, an
  inbound record, the timeout; after the handshake, the peer's certificate digest (\<open>None\<close>: no
  certificate) and 60 bytes of exported keying material.\<close>

record 'e dtls_engine =
  en_init :: "dtls_role \<Rightarrow> 'e"
  en_handshake :: "'e \<Rightarrow> 'e \<times> bytes list"
  en_error :: "'e \<Rightarrow> ssl_error"
  en_finished :: "'e \<Rightarrow> bool"
  en_hasTimeout :: "'e \<Rightarrow> bool"
  en_input :: "bytes \<Rightarrow> 'e \<Rightarrow> 'e"
  en_timeout :: "'e \<Rightarrow> 'e"
  en_peerDigest :: "'e \<Rightarrow> bytes option option"
  en_export :: "'e \<Rightarrow> bytes option"

record 's srtp_lib =
  sl_create :: "bool \<Rightarrow> bytes \<Rightarrow> 's option"
  sl_protect :: "'s \<Rightarrow> bytes \<Rightarrow> bytes option \<times> 's"
  sl_unprotect :: "'s \<Rightarrow> bytes \<Rightarrow> bytes option \<times> 's"

record ('e, 's) dtls_srtp =
  ds_role :: dtls_role
  ds_remoteFp :: string
  ds_ssl :: "'e option"
  ds_inQ :: "bytes list"
  ds_running :: bool
  ds_ready :: bool
  ds_stop :: bool
  ds_srtpIn :: "'s option"
  ds_srtpOut :: "'s option"

definition new_dtls_srtp :: "('e, 's) dtls_srtp" where
  "new_dtls_srtp = \<lparr>ds_role = Client, ds_remoteFp = [], ds_ssl = None, ds_inQ = [], ds_running = False,
     ds_ready = False, ds_stop = False, ds_srtpIn = None, ds_srtpOut = None\<rparr>"

definition dtls_start :: "'e dtls_engine \<Rightarrow> dtls_role \<Rightarrow> string \<Rightarrow> ('e, 's) dtls_srtp \<Rightarrow> status \<times> ('e, 's) dtls_srtp" where
  "dtls_start en role remoteFingerprint d =
     (if ds_ssl d \<noteq> None then (fail AlreadyRunning, d)
      else (ok, d\<lparr>ds_role := role, ds_remoteFp := remoteFingerprint, ds_ssl := Some (en_init en role), ds_running := True\<rparr>))"

definition feedDtls :: "bytes \<Rightarrow> ('e, 's) dtls_srtp \<Rightarrow> ('e, 's) dtls_srtp" where
  "feedDtls data d = d\<lparr>ds_inQ := ds_inQ d @ [data]\<rparr>"

text \<open>One round of the loop of \<^verbatim>\<open>run\<close> meets the flags and the queue as other threads leave them:
  whether the loop condition on the stop flag and the 15 s deadline holds, the record taken from the
  queue after the wait, and the stop flag after it.\<close>

record round =
  ro_go :: bool
  ro_datagram :: bytes
  ro_stopped :: bool

fun handshake_loop :: "'e dtls_engine \<Rightarrow> round list \<Rightarrow> 'e \<Rightarrow> bytes list \<Rightarrow> bool \<times> 'e \<times> bytes list" where
  "handshake_loop en [] e out = (False, e, out)"
| "handshake_loop en (r # rs) e out =
     (if \<not> ro_go r \<or> en_finished en e then (False, e, out)
      else let (e, recs) = en_handshake en e; out = out @ recs in
        if en_finished en e then (False, e, out)
        else (case en_error en e of
            WantRead \<Rightarrow>
              if ro_stopped r then (False, e, out)
              else if ro_datagram r \<noteq> [] then handshake_loop en rs (en_input en (ro_datagram r) e) out
              else if en_hasTimeout en e then handshake_loop en rs (en_timeout en e) out
              else handshake_loop en rs e out
          | WantWrite \<Rightarrow> handshake_loop en rs e out
          | SslFatal \<Rightarrow> (True, e, out)))"

definition verifyPeerFingerprint :: "'e dtls_engine \<Rightarrow> 'e \<Rightarrow> string \<Rightarrow> bool" where
  "verifyPeerFingerprint en e remoteFp = (case en_peerDigest en e of
     None \<Rightarrow> False
   | Some digest \<Rightarrow> if remoteFp = [] then False
       else normalizeFp (fingerprintOf digest) = normalizeFp remoteFp)"

definition kKeyLen :: nat where "kKeyLen = 16"
definition kSaltLen :: nat where "kSaltLen = 14"

text \<open>RFC 5764: client key, server key, client salt, server salt. The result is the outbound and the
  inbound master key.\<close>

definition master_keys :: "dtls_role \<Rightarrow> bytes \<Rightarrow> bytes \<times> bytes" where
  "master_keys role material =
     (let clientKey = take kKeyLen material;
          serverKey = take kKeyLen (drop kKeyLen material);
          clientSalt = take kSaltLen (drop (2 * kKeyLen) material);
          serverSalt = take kSaltLen (drop (2 * kKeyLen + kSaltLen) material);
          clientMaster = clientKey @ clientSalt;
          serverMaster = serverKey @ serverSalt
      in if role = Client then (clientMaster, serverMaster) else (serverMaster, clientMaster))"

definition deriveSrtpKeys :: "'e dtls_engine \<Rightarrow> 's srtp_lib \<Rightarrow> 'e \<Rightarrow> ('e, 's) dtls_srtp \<Rightarrow> bool \<times> ('e, 's) dtls_srtp" where
  "deriveSrtpKeys en lib e d = (case en_export en e of
     None \<Rightarrow> (False, d)
   | Some material \<Rightarrow>
       let (outKey, inKey) = master_keys (ds_role d) material in
       (case sl_create lib True outKey of
          None \<Rightarrow> (False, d)
        | Some so \<Rightarrow> let d = d\<lparr>ds_srtpOut := Some so\<rparr> in
            (case sl_create lib False inKey of
               None \<Rightarrow> (False, d)
             | Some si \<Rightarrow> (True, d\<lparr>ds_srtpIn := Some si\<rparr>))))"

text \<open>\<^verbatim>\<open>run\<close>: the new state, the records sent and the argument of the completion callback.\<close>

definition dtls_run :: "'e dtls_engine \<Rightarrow> 's srtp_lib \<Rightarrow> round list \<Rightarrow> ('e, 's) dtls_srtp
    \<Rightarrow> ('e, 's) dtls_srtp \<times> bytes list \<times> bool" where
  "dtls_run en lib rs d = (case ds_ssl d of
     None \<Rightarrow> (d, [], False)
   | Some e \<Rightarrow>
       let (fatal, e, out) = handshake_loop en rs e [];
           d = d\<lparr>ds_ssl := Some e, ds_running := False\<rparr>;
           (keyed, d) = (if \<not> fatal \<and> en_finished en e \<and> verifyPeerFingerprint en e (ds_remoteFp d)
                         then deriveSrtpKeys en lib e d else (False, d))
       in (if keyed then d\<lparr>ds_ready := True\<rparr> else d, out, keyed))"

section \<open>Packets\<close>

definition protect :: "'s srtp_lib \<Rightarrow> bytes \<Rightarrow> ('e, 's) dtls_srtp \<Rightarrow> bytes option \<times> ('e, 's) dtls_srtp" where
  "protect lib pkt d = (case ds_srtpOut d of
     None \<Rightarrow> (None, d)
   | Some s \<Rightarrow> let (r, s') = sl_protect lib s pkt in (r, d\<lparr>ds_srtpOut := Some s'\<rparr>))"

definition unprotect :: "'s srtp_lib \<Rightarrow> bytes \<Rightarrow> ('e, 's) dtls_srtp \<Rightarrow> bytes option \<times> ('e, 's) dtls_srtp" where
  "unprotect lib pkt d = (case ds_srtpIn d of
     None \<Rightarrow> (None, d)
   | Some s \<Rightarrow> let (r, s') = sl_unprotect lib s pkt in (r, d\<lparr>ds_srtpIn := Some s'\<rparr>))"

definition dtls_stop :: "('e, 's) dtls_srtp \<Rightarrow> ('e, 's) dtls_srtp" where
  "dtls_stop d = d\<lparr>ds_stop := True, ds_running := False, ds_srtpOut := None, ds_srtpIn := None, ds_ssl := None\<rparr>"

section \<open>The payload codec\<close>

lemma find_sub_none_tail: "find_sub pat (x # s) = None \<Longrightarrow> find_sub pat s = None"
  by (subst (asm) find_sub.simps) (auto split: if_splits)

lemma tag_boundary: "prefix fp_tag (c # s @ fp_tag @ t) \<Longrightarrow> prefix fp_tag (c # s)"
  by (cases s rule: list.exhaust; (cases "tl s" rule: list.exhaust; (cases "tl (tl s)" rule: list.exhaust;
      (cases "tl (tl (tl s))" rule: list.exhaust)?)?)?) (auto simp: fp_tag_def prefix_def)

lemma find_sub_append: "find_sub fp_tag s = None \<Longrightarrow> find_sub fp_tag (s @ fp_tag @ t) = Some (length s)"
proof (induction s)
  case Nil
  then show ?case by (subst find_sub.simps) simp
next
  case (Cons c s)
  then have "\<not> prefix fp_tag (c # s)" by (subst (asm) find_sub.simps) (auto split: if_splits)
  then have "\<not> prefix fp_tag (c # s @ fp_tag @ t)" using tag_boundary by blast
  then show ?case using Cons.IH [OF find_sub_none_tail [OF Cons.prems]] by (subst find_sub.simps) simp
qed

lemma unpack_pack: "find_sub fp_tag ice = None \<Longrightarrow> unpackDescription (packDescription ice fp) = (ice, fp)"
  by (simp add: unpackDescription_def packDescription_def find_sub_append) (simp add: fp_tag_def)

section \<open>Keys\<close>

lemma master_keys_agree:
  "fst (master_keys Client m) = snd (master_keys Server m)" "snd (master_keys Client m) = fst (master_keys Server m)"
  by (simp_all add: master_keys_def Let_def)

lemma length_master_keys:
  "length m = 60 \<Longrightarrow> length (fst (master_keys r m)) = 30 \<and> length (snd (master_keys r m)) = 30"
  by (simp add: master_keys_def Let_def kKeyLen_def kSaltLen_def)

text \<open>Every byte of the exported material is used in exactly one place.\<close>

lemma master_keys_split:
  assumes "length m = 60"
  shows "m = take 16 (fst (master_keys Client m)) @ take 16 (snd (master_keys Client m)) @
    drop 16 (fst (master_keys Client m)) @ drop 16 (snd (master_keys Client m))"
proof -
  have "m = take 16 m @ take 16 (drop 16 m) @ take 14 (drop 32 m) @ take 14 (drop 46 m)"
    using assms append_take_drop_id [of 16 m] append_take_drop_id [of 16 "drop 16 m"] append_take_drop_id [of 14 "drop 32 m"]
    by simp
  then show ?thesis using assms by (simp add: master_keys_def Let_def kKeyLen_def kSaltLen_def)
qed

text \<open>What a successful run has established: the handshake is finished, the peer's certificate has
  the announced fingerprint, and both sessions exist.\<close>

definition peer_verified :: "'e dtls_engine \<Rightarrow> ('e, 's) dtls_srtp \<Rightarrow> bool" where
  "peer_verified en d = (case ds_ssl d of None \<Rightarrow> False
     | Some e \<Rightarrow> en_finished en e \<and> verifyPeerFingerprint en e (ds_remoteFp d))"

lemma derive_fields:
  "deriveSrtpKeys en lib e d = (r, d') \<Longrightarrow> ds_ssl d' = ds_ssl d \<and> ds_remoteFp d' = ds_remoteFp d \<and>
    ds_ready d' = ds_ready d \<and> ds_running d' = ds_running d \<and> ds_role d' = ds_role d \<and>
    (r \<longrightarrow> ds_srtpOut d' \<noteq> None \<and> ds_srtpIn d' \<noteq> None)"
  by (auto simp: deriveSrtpKeys_def Let_def split: option.splits prod.splits)

lemma run_ready:
  assumes "dtls_run en lib rs d = (d', out, done)" "\<not> ds_ready d"
  shows "ds_ready d' = done" "done \<Longrightarrow> peer_verified en d' \<and> ds_srtpOut d' \<noteq> None \<and> ds_srtpIn d' \<noteq> None"
    "ds_remoteFp d' = ds_remoteFp d" "ds_ssl d \<noteq> None \<longleftrightarrow> ds_ssl d' \<noteq> None" "ds_role d' = ds_role d"
    "ds_srtpOut d = None \<Longrightarrow> ds_srtpOut d' \<noteq> None \<Longrightarrow> peer_verified en d'"
    "ds_srtpIn d = None \<Longrightarrow> ds_srtpIn d' \<noteq> None \<Longrightarrow> peer_verified en d'"
  using assms by (auto simp: dtls_run_def Let_def peer_verified_def split: option.splits prod.splits if_splits
      dest!: derive_fields)

end
