(* ===== verification/Transport.thy ===== *)
theory Transport
  imports Rtp Nat_Traversal Dtls_Srtp
begin

text \<open>
  The packet transport over one ICE connection, optionally secured: src/src/signaling/RtpTransport.cpp.
  Its operations compose those of the ICE wrapper, the DTLS layer and the RTP codec; the callbacks
  that libjuice and the DTLS thread make into it are operations of their own. Results list the
  datagrams handed to the network and the events delivered to the owner.
\<close>

section \<open>State and operations\<close>

record transport_callbacks =
  tc_onPacket :: bool
  tc_onLocalCandidate :: bool
  tc_onStateChanged :: bool
  tc_onGatheringDone :: bool

datatype transport_event = TPacket rtp_packet | TCandidate string | TState ice_state | TGatheringDone

record ('e, 's) rtp_transport =
  tr_nat :: nat_traversal
  tr_cbs :: transport_callbacks
  tr_dtls :: "('e, 's) dtls_srtp option"
  tr_secured :: bool
  tr_asClient :: bool
  tr_remoteFp :: string
  tr_iceConnected :: bool
  tr_handshakeStarted :: bool

definition new_rtp_transport :: "('e, 's) rtp_transport" where
  "new_rtp_transport = \<lparr>tr_nat = new_nat_traversal,
     tr_cbs = \<lparr>tc_onPacket = False, tc_onLocalCandidate = False, tc_onStateChanged = False, tc_onGatheringDone = False\<rparr>,
     tr_dtls = None, tr_secured = False, tr_asClient = True, tr_remoteFp = [], tr_iceConnected = False,
     tr_handshakeStarted = False\<rparr>"

definition tr_initialize :: "bool \<Rightarrow> nat_config \<Rightarrow> transport_callbacks \<Rightarrow> ('e, 's) rtp_transport \<Rightarrow> status \<times> ('e, 's) rtp_transport" where
  "tr_initialize created cfg cbs t =
     (let (s, n, jc) = nat_initialize created cfg
            \<lparr>nb_onLocalCandidate = True, nb_onGatheringDone = True, nb_onStateChanged = True, nb_onData = True\<rparr> (tr_nat t)
      in (s, t\<lparr>tr_cbs := cbs, tr_nat := n\<rparr>))"

definition enableSecurity :: "bool \<Rightarrow> ('e, 's) rtp_transport \<Rightarrow> ('e, 's) rtp_transport" where
  "enableSecurity asClient t = t\<lparr>tr_secured := True, tr_asClient := asClient, tr_dtls := Some new_dtls_srtp\<rparr>"

definition secureReady :: "('e, 's) rtp_transport \<Rightarrow> bool" where
  "secureReady t = (case tr_dtls t of Some d \<Rightarrow> ds_ready d | None \<Rightarrow> False)"

definition maybeStartHandshake :: "'e dtls_engine \<Rightarrow> ('e, 's) rtp_transport \<Rightarrow> ('e, 's) rtp_transport" where
  "maybeStartHandshake en t =
     (if \<not> tr_secured t \<or> tr_handshakeStarted t then t
      else case tr_dtls t of None \<Rightarrow> t
        | Some d \<Rightarrow>
            if \<not> tr_iceConnected t \<or> tr_remoteFp t = [] then t
            else let role = (if tr_asClient t then Client else Server);
                     (s, d) = dtls_start en role (tr_remoteFp t) d
                 in t\<lparr>tr_handshakeStarted := True, tr_dtls := Some d\<rparr>)"

definition setRemoteFingerprint :: "'e dtls_engine \<Rightarrow> string \<Rightarrow> ('e, 's) rtp_transport \<Rightarrow> ('e, 's) rtp_transport" where
  "setRemoteFingerprint en fp t = maybeStartHandshake en (t\<lparr>tr_remoteFp := fp\<rparr>)"

text \<open>The closures that \<^verbatim>\<open>initialize\<close> installs in the ICE wrapper.\<close>

definition tr_onStateChanged :: "'e dtls_engine \<Rightarrow> ice_state \<Rightarrow> ('e, 's) rtp_transport \<Rightarrow> ('e, 's) rtp_transport \<times> transport_event list" where
  "tr_onStateChanged en s t =
     (let t = (if s = IceConnected \<or> s = IceCompleted then maybeStartHandshake en (t\<lparr>tr_iceConnected := True\<rparr>) else t)
      in (t, if tc_onStateChanged (tr_cbs t) then [TState s] else []))"

definition packet_event :: "bytes \<Rightarrow> transport_event list" where
  "packet_event buf = (case parse buf of Inl _ \<Rightarrow> [] | Inr p \<Rightarrow> [TPacket p])"

definition tr_onData :: "'s srtp_lib \<Rightarrow> bytes \<Rightarrow> ('e, 's) rtp_transport \<Rightarrow> ('e, 's) rtp_transport \<times> transport_event list" where
  "tr_onData lib data t =
     (if data = [] then (t, [])
      else if tr_secured t then
        (let b = unat (data ! 0) in
         if 20 \<le> b \<and> b \<le> 63 then
           (case tr_dtls t of None \<Rightarrow> (t, []) | Some d \<Rightarrow> (t\<lparr>tr_dtls := Some (feedDtls data d)\<rparr>, []))
         else if 128 \<le> b \<and> b \<le> 191 then
           (case tr_dtls t of None \<Rightarrow> (t, [])
            | Some d \<Rightarrow> if \<not> ds_ready d \<or> \<not> tc_onPacket (tr_cbs t) then (t, [])
                else let (r, d) = unprotect lib data d; t = t\<lparr>tr_dtls := Some d\<rparr> in
                  (case r of None \<Rightarrow> (t, []) | Some buf \<Rightarrow> (t, packet_event buf)))
         else (t, []))
      else if \<not> tc_onPacket (tr_cbs t) then (t, [])
      else (t, packet_event data))"

text \<open>The events of the agent, through the wrapper.\<close>

fun tr_event :: "'e dtls_engine \<Rightarrow> 's srtp_lib \<Rightarrow> nat_event \<Rightarrow> ('e, 's) rtp_transport \<Rightarrow> ('e, 's) rtp_transport \<times> transport_event list" where
  "tr_event en lib (LocalCandidate c) t = (t, if tc_onLocalCandidate (tr_cbs t) then [TCandidate c] else [])"
| "tr_event en lib GatheringDone t = (t, if tc_onGatheringDone (tr_cbs t) then [TGatheringDone] else [])"
| "tr_event en lib (StateChanged s) t = tr_onStateChanged en s t"
| "tr_event en lib (Data d) t = tr_onData lib d t"

fun tr_events :: "'e dtls_engine \<Rightarrow> 's srtp_lib \<Rightarrow> nat_event list \<Rightarrow> ('e, 's) rtp_transport \<Rightarrow> ('e, 's) rtp_transport \<times> transport_event list" where
  "tr_events en lib [] t = (t, [])"
| "tr_events en lib (ev # evs) t =
     (let (t, out) = tr_event en lib ev t; (t, outs) = tr_events en lib evs t in (t, out @ outs))"

definition juice_state_changed :: "'e dtls_engine \<Rightarrow> 's srtp_lib \<Rightarrow> juice_state \<Rightarrow> ('e, 's) rtp_transport \<Rightarrow> ('e, 's) rtp_transport \<times> transport_event list" where
  "juice_state_changed en lib js t =
     (let (n, evs) = handleStateChanged js (tr_nat t) in tr_events en lib evs (t\<lparr>tr_nat := n\<rparr>))"

definition juice_recv :: "'e dtls_engine \<Rightarrow> 's srtp_lib \<Rightarrow> bytes \<Rightarrow> ('e, 's) rtp_transport \<Rightarrow> ('e, 's) rtp_transport \<times> transport_event list" where
  "juice_recv en lib data t = tr_events en lib (handleRecv data (tr_nat t)) t"

text \<open>The DTLS thread: its records go out through the wrapper.\<close>

definition tr_dtls_run :: "'e dtls_engine \<Rightarrow> 's srtp_lib \<Rightarrow> bool \<Rightarrow> round list \<Rightarrow> ('e, 's) rtp_transport \<Rightarrow> ('e, 's) rtp_transport \<times> bytes list" where
  "tr_dtls_run en lib juice_ok rs t = (case tr_dtls t of None \<Rightarrow> (t, [])
     | Some d \<Rightarrow> let (d, recs, done) = dtls_run en lib rs d in
         (t\<lparr>tr_dtls := Some d\<rparr>, concat (map (\<lambda>r. snd (nat_send juice_ok r (tr_nat t))) recs)))"

definition tr_send :: "'s srtp_lib \<Rightarrow> bool \<Rightarrow> rtp_packet \<Rightarrow> ('e, 's) rtp_transport \<Rightarrow> status \<times> bytes list \<times> ('e, 's) rtp_transport" where
  "tr_send lib juice_ok pkt t =
     (let bs = serialize pkt in
      if tr_secured t then
        (case tr_dtls t of None \<Rightarrow> (fail NotInitialized, [], t)
         | Some d \<Rightarrow>
             if \<not> ds_ready d then (fail NotInitialized, [], t)
             else let (r, d) = protect lib bs d; t = t\<lparr>tr_dtls := Some d\<rparr> in
               (case r of None \<Rightarrow> (fail Internal, [], t)
                | Some c \<Rightarrow> let (s, sent) = nat_send juice_ok c (tr_nat t) in (s, sent, t)))
      else let (s, sent) = nat_send juice_ok bs (tr_nat t) in (s, sent, t))"

section \<open>Reachable secured transports\<close>

text \<open>From a transport on which security was enabled first, as RtpTransport.h requires.\<close>

inductive tr_reachable :: "'e dtls_engine \<Rightarrow> 's srtp_lib \<Rightarrow> ('e, 's) rtp_transport \<Rightarrow> bool" for en lib where
  start: "tr_reachable en lib (enableSecurity asClient new_rtp_transport)"
| initialize: "tr_reachable en lib t \<Longrightarrow> tr_reachable en lib (snd (tr_initialize created cfg cbs t))"
| fingerprint: "tr_reachable en lib t \<Longrightarrow> tr_reachable en lib (setRemoteFingerprint en fp t)"
| state: "tr_reachable en lib t \<Longrightarrow> tr_reachable en lib (fst (juice_state_changed en lib js t))"
| data: "tr_reachable en lib t \<Longrightarrow> tr_reachable en lib (fst (juice_recv en lib d t))"
| handshake: "tr_reachable en lib t \<Longrightarrow> tr_dtls t = Some d \<Longrightarrow> ds_running d \<Longrightarrow> tr_reachable en lib (fst (tr_dtls_run en lib juice_ok rs t))"
| send: "tr_reachable en lib t \<Longrightarrow> tr_reachable en lib (snd (snd (tr_send lib juice_ok pkt t)))"

definition dtls_ok :: "'e dtls_engine \<Rightarrow> ('e, 's) rtp_transport \<Rightarrow> ('e, 's) dtls_srtp \<Rightarrow> bool" where
  "dtls_ok en t d \<longleftrightarrow> (ds_ssl d \<noteq> None \<longleftrightarrow> tr_handshakeStarted t) \<and>
     (ds_ssl d \<noteq> None \<longrightarrow> tr_iceConnected t \<and> ds_remoteFp d \<noteq> [] \<and> ds_role d = (if tr_asClient t then Client else Server)) \<and>
     (ds_running d \<longrightarrow> ds_ssl d \<noteq> None \<and> \<not> ds_ready d \<and> ds_srtpOut d = None \<and> ds_srtpIn d = None) \<and>
     (\<not> tr_handshakeStarted t \<longrightarrow> \<not> ds_running d \<and> \<not> ds_ready d \<and> ds_srtpOut d = None \<and> ds_srtpIn d = None) \<and>
     (ds_ready d \<longrightarrow> ds_srtpOut d \<noteq> None \<and> ds_srtpIn d \<noteq> None \<and> peer_verified en d)"

definition tr_ok :: "'e dtls_engine \<Rightarrow> ('e, 's) rtp_transport \<Rightarrow> bool" where
  "tr_ok en t \<longleftrightarrow> tr_secured t \<and> (tr_iceConnected t \<and> tr_remoteFp t \<noteq> [] \<longrightarrow> tr_handshakeStarted t) \<and>
     (\<exists>d. tr_dtls t = Some d \<and> dtls_ok en t d)"

lemma tr_ok_start: "tr_ok en (enableSecurity asClient new_rtp_transport)"
  by (simp add: tr_ok_def dtls_ok_def enableSecurity_def new_rtp_transport_def new_dtls_srtp_def)

text \<open>Setting the fingerprint or the connected flag and then trying to start keeps the invariant.\<close>

lemma maybeStart_ok:
  assumes "tr_secured t" "tr_dtls t = Some d" "dtls_ok en t d"
  shows "tr_ok en (maybeStartHandshake en t)"
  using assms by (auto simp: maybeStartHandshake_def tr_ok_def dtls_ok_def dtls_start_def Let_def)

lemma dtls_ok_dtls: "dtls_ok en (t\<lparr>tr_dtls := x\<rparr>) d = dtls_ok en t d"
  by (simp add: dtls_ok_def)

lemma dtls_ok_fp: "dtls_ok en (t\<lparr>tr_remoteFp := fp\<rparr>) d = dtls_ok en t d"
  by (simp add: dtls_ok_def)

lemma dtls_ok_ice: "dtls_ok en t d \<Longrightarrow> dtls_ok en (t\<lparr>tr_iceConnected := True\<rparr>) d"
  by (auto simp: dtls_ok_def)

lemma onStateChanged_ok: "tr_ok en t \<Longrightarrow> tr_ok en (fst (tr_onStateChanged en s t))"
proof -
  assume ok: "tr_ok en t"
  then obtain d where "tr_secured t" "tr_dtls t = Some d" "dtls_ok en t d" by (auto simp: tr_ok_def)
  then have "tr_ok en (maybeStartHandshake en (t\<lparr>tr_iceConnected := True\<rparr>))"
    by (intro maybeStart_ok [of _ d]) (simp_all add: dtls_ok_ice)
  then show ?thesis using ok by (simp add: tr_onStateChanged_def Let_def)
qed

lemma peer_verified_cong:
  "ds_ssl d' = ds_ssl d \<Longrightarrow> ds_remoteFp d' = ds_remoteFp d \<Longrightarrow> peer_verified en d' = peer_verified en d"
  by (simp add: peer_verified_def cong: option.case_cong)

lemma dtls_update_ok:
  assumes "tr_ok en t" "tr_dtls t = Some d" "ds_ssl d' = ds_ssl d" "ds_remoteFp d' = ds_remoteFp d"
    "ds_role d' = ds_role d" "ds_running d' = ds_running d" "ds_ready d' = ds_ready d"
    "ds_srtpOut d' = None \<longleftrightarrow> ds_srtpOut d = None" "ds_srtpIn d' = None \<longleftrightarrow> ds_srtpIn d = None"
  shows "tr_ok en (t\<lparr>tr_dtls := Some d'\<rparr>)"
  using assms peer_verified_cong [OF assms(3,4)] by (auto simp: tr_ok_def dtls_ok_def)

lemma unprotect_fields:
  "unprotect lib p d = (r, d') \<Longrightarrow> ds_ssl d' = ds_ssl d \<and> ds_remoteFp d' = ds_remoteFp d \<and> ds_role d' = ds_role d \<and>
    ds_running d' = ds_running d \<and> ds_ready d' = ds_ready d \<and> ds_srtpOut d' = ds_srtpOut d \<and>
    (ds_srtpIn d' = None \<longleftrightarrow> ds_srtpIn d = None)"
  by (auto simp: unprotect_def split: option.splits prod.splits)

lemma protect_fields:
  "protect lib p d = (r, d') \<Longrightarrow> ds_ssl d' = ds_ssl d \<and> ds_remoteFp d' = ds_remoteFp d \<and> ds_role d' = ds_role d \<and>
    ds_running d' = ds_running d \<and> ds_ready d' = ds_ready d \<and> ds_srtpIn d' = ds_srtpIn d \<and>
    (ds_srtpOut d' = None \<longleftrightarrow> ds_srtpOut d = None)"
  by (auto simp: protect_def split: option.splits prod.splits)

lemma onData_ok:
  assumes "tr_ok en t" shows "tr_ok en (fst (tr_onData lib data t))"
proof -
  obtain d where d: "tr_dtls t = Some d" using assms by (auto simp: tr_ok_def)
  have "tr_ok en (t\<lparr>tr_dtls := Some (feedDtls data d)\<rparr>)"
    by (rule dtls_update_ok [OF assms d]) (simp_all add: feedDtls_def)
  moreover have "tr_ok en (t\<lparr>tr_dtls := Some (snd (unprotect lib data d))\<rparr>)"
    using unprotect_fields [of lib data d] by (intro dtls_update_ok [OF assms d]) (metis prod.collapse)+
  ultimately show ?thesis using assms d by (simp add: tr_onData_def Let_def split_beta split: option.split)
qed

lemma tr_events_ok: "tr_ok en t \<Longrightarrow> tr_ok en (fst (tr_events en lib evs t))"
proof (induction evs arbitrary: t)
  case (Cons ev evs)
  have "tr_ok en (fst (tr_event en lib ev t))"
    using Cons.prems by (cases ev) (auto simp: onStateChanged_ok onData_ok)
  then show ?case using Cons.IH by (simp add: Let_def split_beta)
qed simp

lemma tr_ok_nat: "tr_ok en (t\<lparr>tr_nat := n\<rparr>) = tr_ok en t" "tr_ok en (t\<lparr>tr_cbs := c\<rparr>) = tr_ok en t"
  by (simp_all add: tr_ok_def dtls_ok_def)

lemma send_ok:
  assumes "tr_ok en t" shows "tr_ok en (snd (snd (tr_send lib juice_ok pkt t)))"
proof -
  obtain d where d: "tr_dtls t = Some d" using assms by (auto simp: tr_ok_def)
  have "tr_ok en (t\<lparr>tr_dtls := Some (snd (protect lib (serialize pkt) d))\<rparr>)"
    using protect_fields [of lib "serialize pkt" d] by (intro dtls_update_ok [OF assms d]) (metis prod.collapse)+
  then show ?thesis using assms d by (simp add: tr_send_def Let_def split_beta split: option.split)
qed

lemma dtls_run_ok:
  assumes "tr_ok en t" "tr_dtls t = Some d" "ds_running d"
  shows "tr_ok en (fst (tr_dtls_run en lib juice_ok rs t))"
proof -
  obtain d' out r where run: "dtls_run en lib rs d = (d', out, r)" by (cases "dtls_run en lib rs d")
  have "dtls_ok en t d" using assms(1,2) by (auto simp: tr_ok_def)
  then have ok: "ds_ssl d \<noteq> None" "\<not> ds_ready d" "tr_handshakeStarted t" "tr_iceConnected t" "ds_remoteFp d \<noteq> []"
    "ds_role d = (if tr_asClient t then Client else Server)"
    using assms(3) unfolding dtls_ok_def by blast+
  have stopped: "\<not> ds_running d'" using run ok(1)
    by (auto simp: dtls_run_def Let_def split: option.splits prod.splits if_splits dest!: derive_fields)
  note r = run_ready [OF run ok(2)]
  have "ds_ssl d' \<noteq> None" "ds_remoteFp d' \<noteq> []" using r(3,4) ok(1,5) by auto
  moreover have "ds_role d' = (if tr_asClient t then Client else Server)" using r(5) ok(6) by (rule trans)
  ultimately have "dtls_ok en t d'" unfolding dtls_ok_def using r(1,2) ok(3,4) stopped by blast
  then show ?thesis using assms(1,2) run by (simp add: tr_dtls_run_def tr_ok_def dtls_ok_dtls)
qed

lemma tr_reachable_ok: "tr_reachable en lib t \<Longrightarrow> tr_ok en t"
proof (induction rule: tr_reachable.induct)
  case (initialize t created cfg cbs)
  then show ?case by (simp add: tr_initialize_def Let_def tr_ok_nat split_beta)
next
  case (fingerprint t fp)
  then obtain d where "tr_secured t" "tr_dtls t = Some d" "dtls_ok en t d" by (auto simp: tr_ok_def)
  then show ?case unfolding setRemoteFingerprint_def by (intro maybeStart_ok [of _ d]) (simp_all add: dtls_ok_fp)
next
  case (state t js)
  then show ?case by (simp add: juice_state_changed_def split_beta tr_events_ok tr_ok_nat)
next
  case (data t d)
  then show ?case by (simp add: juice_recv_def tr_events_ok)
qed (simp_all add: tr_ok_start dtls_run_ok send_ok)

section \<open>What leaves and what is delivered\<close>


lemma ready_facts:
  assumes "tr_reachable en lib t" "tr_dtls t = Some d" "ds_ready d"
  shows "peer_verified en d" "tr_iceConnected t" "\<exists>so. ds_srtpOut d = Some so" "\<exists>si. ds_srtpIn d = Some si"
  using tr_reachable_ok [OF assms(1)] assms(2,3) by (auto simp: tr_ok_def dtls_ok_def peer_verified_def split: option.splits)

lemma send_protected:
  assumes "tr_reachable en lib t" "tr_send lib juice_ok pkt t = (s, sent, t')" "sent \<noteq> []"
  shows "\<exists>d so c. tr_dtls t = Some d \<and> peer_verified en d \<and> ds_srtpOut d = Some so \<and>
     fst (sl_protect lib so (serialize pkt)) = Some c \<and> sent = [c]"
proof -
  obtain d where d: "tr_dtls t = Some d" "tr_secured t" using tr_reachable_ok [OF assms(1)] by (auto simp: tr_ok_def)
  have ready: "ds_ready d" using assms(2,3) d by (auto simp: tr_send_def Let_def split: if_splits)
  note facts = ready_facts [OF assms(1) d(1) ready]
  obtain so where so: "ds_srtpOut d = Some so" using facts(3) by blast
  obtain c where "fst (sl_protect lib so (serialize pkt)) = Some c" "sent = [c]"
    using assms(2,3) d ready so by (auto simp: tr_send_def protect_def nat_send_def Let_def split_beta split: option.splits if_splits)
  then show ?thesis using facts(1) d(1) so by blast
qed

lemma recv_authenticated:
  assumes "tr_reachable en lib t" "juice_recv en lib data t = (t', evs)" "TPacket p \<in> set evs"
  shows "\<exists>d si buf. tr_dtls t = Some d \<and> peer_verified en d \<and> ds_srtpIn d = Some si \<and>
     fst (sl_unprotect lib si data) = Some buf \<and> parse buf = Inr p"
proof -
  obtain d where d: "tr_dtls t = Some d" "tr_secured t" using tr_reachable_ok [OF assms(1)] by (auto simp: tr_ok_def)
  have del: "TPacket p \<in> set (snd (tr_onData lib data t))"
    using assms(2,3) by (auto simp: juice_recv_def handleRecv_def Let_def split_beta split: if_splits)
  then have ready: "ds_ready d" using d by (auto simp: tr_onData_def Let_def split: if_splits)
  note facts = ready_facts [OF assms(1) d(1) ready]
  obtain si where si: "ds_srtpIn d = Some si" using facts(4) by blast
  obtain buf where "fst (sl_unprotect lib si data) = Some buf" "TPacket p \<in> set (packet_event buf)"
    using del d ready si by (auto simp: tr_onData_def unprotect_def Let_def split_beta split: option.splits if_splits)
  then show ?thesis using facts(1) d(1) si by (auto simp: packet_event_def split: sum.splits)
qed

text \<open>C3. No media in the clear and none from a stranger: from a reachable secured transport, every
  datagram of \<^verbatim>\<open>send\<close> is the SRTP protection of the packet, and every packet delivered is the
  parse of a datagram that SRTP authenticated; in both cases the DTLS peer's certificate matches the
  fingerprint announced through signaling.\<close>

theorem secured_media:
  assumes "tr_reachable en lib t"
  shows "(sent \<noteq> [] \<and> tr_send lib juice_ok pkt t = (s, sent, t') \<longrightarrow>
      (\<exists>d so c. tr_dtls t = Some d \<and> peer_verified en d \<and> ds_srtpOut d = Some so \<and>
         fst (sl_protect lib so (serialize pkt)) = Some c \<and> sent = [c])) \<and>
    (TPacket p \<in> set evs \<and> juice_recv en lib data t = (t'', evs) \<longrightarrow>
      (\<exists>d si buf. tr_dtls t = Some d \<and> peer_verified en d \<and> ds_srtpIn d = Some si \<and>
         fst (sl_unprotect lib si data) = Some buf \<and> parse buf = Inr p))"
  using send_protected [OF assms, of juice_ok pkt s sent t'] recv_authenticated [OF assms, of data t'' evs p] by blast

section \<open>Delivery between two transports\<close>

text \<open>Packets sent one after the other, and datagrams received one after the other.\<close>

fun send_all :: "'s srtp_lib \<Rightarrow> rtp_packet list \<Rightarrow> ('e, 's) rtp_transport \<Rightarrow> bytes list" where
  "send_all lib [] t = []"
| "send_all lib (p # ps) t = (let (s, sent, t) = tr_send lib True p t in sent @ send_all lib ps t)"

fun recv_all :: "'e dtls_engine \<Rightarrow> 's srtp_lib \<Rightarrow> bytes list \<Rightarrow> ('e, 's) rtp_transport \<Rightarrow> transport_event list" where
  "recv_all en lib [] t = []"
| "recv_all en lib (d # ds) t = (let (t, evs) = juice_recv en lib d t in evs @ recv_all en lib ds t)"

definition keyed_out :: "('e, 's) rtp_transport \<Rightarrow> 's \<Rightarrow> bool" where
  "keyed_out t so \<longleftrightarrow> nt_agent (tr_nat t) \<and> tr_secured t \<and>
     (\<exists>d. tr_dtls t = Some d \<and> ds_ready d \<and> ds_srtpOut d = Some so)"

definition keyed_in :: "('e, 's) rtp_transport \<Rightarrow> 's \<Rightarrow> bool" where
  "keyed_in t si \<longleftrightarrow> nb_onData (nt_cbs (tr_nat t)) \<and> tc_onPacket (tr_cbs t) \<and> tr_secured t \<and>
     (\<exists>d. tr_dtls t = Some d \<and> ds_ready d \<and> ds_srtpIn d = Some si)"

lemma plain_first_byte:
  assumes "plain_packet p" shows "serialize p \<noteq> []" "128 \<le> unat (hd (serialize p))" "unat (hd (serialize p)) \<le> 191"
proof -
  let ?b = "push_bit 6 (2 AND 3) OR (of_nat (length (csrcs p)) AND 0x0F) :: u8"
  have b: "hd (serialize p) = ?b" by (simp add: plain_serialize [OF assms])
  show "serialize p \<noteq> []" by (simp add: plain_serialize [OF assms])
  have "?b AND 0x80 = 0x80" by (rule u8_eqI) (simp_all add: bit_simps)
  then have "(0x80 :: u8) \<le> ?b" by (metis word_and_le1 word_and_le2)
  then show "128 \<le> unat (hd (serialize p))" unfolding b by (simp add: word_le_nat_alt)
  have "?b AND 0xBF = ?b" by (rule u8_eqI) (simp_all add: bit_simps)
  then have "?b \<le> 0xBF" by (metis word_and_le1 word_and_le2)
  then show "unat (hd (serialize p)) \<le> 191" unfolding b by (simp add: word_le_nat_alt)
qed


section \<open>A concrete session\<close>

text \<open>An engine that finishes with its first call and whose peer has the one-byte digest \<open>AB\<close>, and
  a protection that appends one byte and checks it.\<close>

definition demo_engine :: "bool dtls_engine" where
  "demo_engine = \<lparr>en_init = (\<lambda>_. False), en_handshake = (\<lambda>_. (True, [[22]])), en_error = (\<lambda>_. WantRead),
     en_finished = id, en_hasTimeout = (\<lambda>_. False), en_input = (\<lambda>_ e. e), en_timeout = id,
     en_peerDigest = (\<lambda>_. Some (Some [0xAB])), en_export = (\<lambda>_. Some (replicate 60 1))\<rparr>"

definition demo_lib :: "nat srtp_lib" where
  "demo_lib = \<lparr>sl_create = (\<lambda>_ _. Some 0), sl_protect = (\<lambda>n p. (Some (p @ [0xEE]), n + 1)),
     sl_unprotect = (\<lambda>n c. if c \<noteq> [] \<and> last c = 0xEE then (Some (butlast c), n + 1) else (None, n))\<rparr>"

definition demo_fp :: string where
  "demo_fp = '' sha-256 ab ''"

definition all_callbacks :: transport_callbacks where
  "all_callbacks = \<lparr>tc_onPacket = True, tc_onLocalCandidate = True, tc_onStateChanged = True, tc_onGatheringDone = True\<rparr>"

definition demo_transport1 :: "(bool, nat) rtp_transport" where
  "demo_transport1 = fst (juice_state_changed demo_engine demo_lib JUICE_CONNECTED
     (setRemoteFingerprint demo_engine demo_fp
       (snd (tr_initialize True default_nat_config all_callbacks (enableSecurity True new_rtp_transport)))))"

definition demo_transport :: "(bool, nat) rtp_transport" where
  "demo_transport = fst (tr_dtls_run demo_engine demo_lib True [\<lparr>ro_go = True, ro_datagram = [], ro_stopped = False\<rparr>] demo_transport1)"

lemmas session_defs = demo_transport_def demo_transport1_def juice_state_changed_def handleStateChanged_def
  tr_onStateChanged_def setRemoteFingerprint_def maybeStartHandshake_def tr_initialize_def nat_initialize_def
  enableSecurity_def new_rtp_transport_def new_dtls_srtp_def new_nat_traversal_def all_callbacks_def
  dtls_start_def demo_engine_def

lemma demo_fingerprint: "normalizeFp (fingerprintOf (Some [0xAB])) = normalizeFp demo_fp" "demo_fp \<noteq> []"
  by (simp_all add: normalizeFp_def fingerprintOf_def demo_fp_def to_upper_def is_space_def hex_digit_def char_of_def)
    (simp add: bit_iff_odd)

lemma demo_session1: "tr_reachable demo_engine demo_lib demo_transport1"
  unfolding demo_transport1_def
  by (intro tr_reachable.state tr_reachable.fingerprint tr_reachable.initialize tr_reachable.start)

lemma demo_dtls1: "\<exists>d. tr_dtls demo_transport1 = Some d \<and> ds_running d \<and> ds_ssl d = Some False \<and> ds_remoteFp d = demo_fp \<and> \<not> ds_ready d"
  using demo_fingerprint(2) by (simp add: session_defs)

lemma demo_session: "tr_reachable demo_engine demo_lib demo_transport"
  unfolding demo_transport_def using demo_dtls1 by (auto intro: tr_reachable.handshake demo_session1)

lemma demo_nat: "nt_agent (tr_nat demo_transport)" "nb_onData (nt_cbs (tr_nat demo_transport))"
  "tc_onPacket (tr_cbs demo_transport)" "tr_secured demo_transport"
  using demo_fingerprint(2) by (simp_all add: session_defs tr_dtls_run_def split_beta)

lemma demo_ready: "\<exists>d. tr_dtls demo_transport = Some d \<and> ds_ready d \<and> ds_srtpOut d = Some 0 \<and> ds_srtpIn d = Some 0"
proof -
  obtain d where d: "tr_dtls demo_transport1 = Some d" "ds_ssl d = Some False" "ds_remoteFp d = demo_fp" using demo_dtls1 by blast
  have loop: "handshake_loop demo_engine [\<lparr>ro_go = True, ro_datagram = [], ro_stopped = False\<rparr>] False [] = (False, True, [[22]])"
    by (simp add: demo_engine_def)
  have ver: "verifyPeerFingerprint demo_engine True demo_fp"
    using demo_fingerprint by (simp add: verifyPeerFingerprint_def demo_engine_def)
  have der: "deriveSrtpKeys demo_engine demo_lib True d' = (True, d'\<lparr>ds_srtpOut := Some 0, ds_srtpIn := Some 0\<rparr>)"
    for d' :: "(bool, nat) dtls_srtp"
    by (simp add: deriveSrtpKeys_def demo_engine_def demo_lib_def split_beta)
  have fin: "en_finished demo_engine True" by (simp add: demo_engine_def)
  show ?thesis using d ver fin
    by (simp add: demo_transport_def tr_dtls_run_def dtls_run_def loop der Let_def del: handshake_loop.simps)
qed

lemma demo_keyed: "keyed_out demo_transport 0" "keyed_in demo_transport 0"
  using demo_ready demo_nat by (auto simp: keyed_out_def keyed_in_def)


lemma secured_media_witness:
  "fst (snd (tr_send demo_lib True sample_packet demo_transport)) = [serialize sample_packet @ [0xEE]]"
proof -
  obtain d where d: "tr_dtls demo_transport = Some d" "ds_ready d" "ds_srtpOut d = Some 0" using demo_ready by blast
  obtain s sent t' where send: "tr_send demo_lib True sample_packet demo_transport = (s, sent, t')" by (cases "tr_send demo_lib True sample_packet demo_transport")
  then have "sent \<noteq> []" using d demo_nat
    by (auto simp: tr_send_def protect_def nat_send_def demo_lib_def)
  then obtain so c where "ds_srtpOut d = Some so" "fst (sl_protect demo_lib so (serialize sample_packet)) = Some c" "sent = [c]"
    using secured_media [OF demo_session, of sent True sample_packet s t', THEN conjunct1] send d(1) by auto
  then show ?thesis using send d by (simp add: demo_lib_def)
qed


end
