(* ===== verification/Codec.thy ===== *)
theory Codec
  imports Pool
begin

text \<open>
  The codec wrappers: src/src/codec/VideoEncoder.cpp, VideoDecoder.cpp, AudioEncoder.cpp and
  AudioDecoder.cpp with their headers. FFmpeg and libopus are parameters: a record of the library
  calls each wrapper makes, over an abstract codec state; every operation takes the record, so
  that the library may behave differently at every call. Pixel and sample memory is the byte
  storage of the pool a frame lies in.
\<close>

section \<open>VideoEncoder\<close>

record encoder_config =
  ec_width :: int
  ec_height :: int
  ec_fps :: int
  ec_bitrateKbps :: int

definition default_encoder_config :: encoder_config where
  "default_encoder_config = \<lparr>ec_width = 0, ec_height = 0, ec_fps = 30, ec_bitrateKbps = 2000\<rparr>"

text \<open>The public fields of the codec context that the wrapper writes, and the private options.\<close>

record avc_fields =
  avc_width :: int
  avc_height :: int
  avc_time_base :: "int \<times> int"
  avc_framerate :: "int \<times> int"
  avc_bit_rate :: int
  avc_rc_max_rate :: int
  avc_rc_buffer_size :: int
  avc_gop_size :: int
  avc_max_b_frames :: int
  avc_has_b_frames :: int
  avc_options :: "(string \<times> string) list"

text \<open>The fields of an input \<^verbatim>\<open>AVFrame\<close>; \<open>avf_pict_I\<close> is \<^verbatim>\<open>pict_type == AV_PICTURE_TYPE_I\<close>,
  \<open>avf_key\<close> the key flag.\<close>

record av_frame =
  avf_width :: int
  avf_height :: int
  avf_data :: "nat option list"
  avf_linesize :: "int list"
  avf_pts :: int
  avf_pict_I :: bool
  avf_key :: bool

datatype 'a av_result = Got 'a | Again | Eof | Failed

text \<open>A packet: its bytes and \<^verbatim>\<open>AV_PKT_FLAG_KEY\<close>.\<close>

type_synonym av_packet = "bytes \<times> bool"

record 'c av_encoder =
  ae_find :: bool
  ae_alloc :: "'c option"
  ae_open2 :: "avc_fields \<Rightarrow> 'c \<Rightarrow> 'c option"
  ae_frame_alloc :: "av_frame option"
  ae_packet_alloc :: bool
  ae_send_frame :: "avc_fields \<Rightarrow> bytes \<Rightarrow> av_frame \<Rightarrow> 'c \<Rightarrow> bool \<times> 'c"
  ae_receive_packet :: "'c \<Rightarrow> av_packet av_result \<times> 'c"

record 'c video_encoder =
  ve_ctx :: "(avc_fields \<times> 'c) option"
  ve_frame :: "av_frame option"
  ve_packet :: bool
  ve_config :: encoder_config
  ve_pts :: int
  ve_forceKeyframe :: bool

definition new_video_encoder :: "'c video_encoder" where
  "new_video_encoder = \<lparr>ve_ctx = None, ve_frame = None, ve_packet = False,
     ve_config = default_encoder_config, ve_pts = 0, ve_forceKeyframe = False\<rparr>"

text \<open>\<^verbatim>\<open>static_cast<int>\<close> of a 64-bit value keeps the low 32 bits.\<close>

definition to_int32 :: "int \<Rightarrow> int" where
  "to_int32 x = sint (of_int x :: i32)"

definition encoder_fields :: "encoder_config \<Rightarrow> avc_fields" where
  "encoder_fields c = (let bit_rate = ec_bitrateKbps c * 1000 in
     \<lparr>avc_width = ec_width c, avc_height = ec_height c, avc_time_base = (1, ec_fps c),
      avc_framerate = (ec_fps c, 1), avc_bit_rate = bit_rate, avc_rc_max_rate = bit_rate,
      avc_rc_buffer_size = to_int32 bit_rate, avc_gop_size = ec_fps c * 2, avc_max_b_frames = 0,
      avc_has_b_frames = 0,
      avc_options = [(''preset'', ''superfast''), (''tune'', ''zerolatency''), (''repeat-headers'', ''1'')]\<rparr>)"

definition ve_open :: "'c av_encoder \<Rightarrow> encoder_config \<Rightarrow> 'c video_encoder \<Rightarrow> status \<times> 'c video_encoder" where
  "ve_open lib c e =
    (if ec_width c \<le> 0 \<or> ec_height c \<le> 0 \<or> ec_fps c \<le> 0 \<or> ec_bitrateKbps c \<le> 0 then (fail InvalidArgument, e)
     else if odd (ec_width c) \<or> odd (ec_height c) then (fail InvalidArgument, e)
     else
       let e = e\<lparr>ve_ctx := None, ve_frame := None, ve_packet := False, ve_pts := 0, ve_forceKeyframe := False\<rparr> in
       if \<not> ae_find lib then (fail Unsupported, e)
       else case ae_alloc lib of
         None \<Rightarrow> (fail CodecError, e)
       | Some x \<Rightarrow>
           (case ae_open2 lib (encoder_fields c) x of
              None \<Rightarrow> (fail CodecError, e)
            | Some y \<Rightarrow>
                let e = e\<lparr>ve_frame := ae_frame_alloc lib, ve_packet := ae_packet_alloc lib\<rparr> in
                (case ae_frame_alloc lib of
                   None \<Rightarrow> (fail CodecError, e)
                 | Some f \<Rightarrow>
                     if \<not> ae_packet_alloc lib then (fail CodecError, e)
                     else (ok, e\<lparr>ve_ctx := Some (encoder_fields c, y),
                                  ve_frame := Some (f\<lparr>avf_width := ec_width c, avf_height := ec_height c\<rparr>),
                                  ve_config := c\<rparr>))))"

definition forceKeyframe :: "'c video_encoder \<Rightarrow> 'c video_encoder" where
  "forceKeyframe e = e\<lparr>ve_forceKeyframe := True\<rparr>"

definition setBitrate :: "int \<Rightarrow> 'c video_encoder \<Rightarrow> 'c video_encoder" where
  "setBitrate kbps e = (case ve_ctx e of None \<Rightarrow> e
     | Some (fs, x) \<Rightarrow>
         if kbps \<le> 0 then e
         else let bps = kbps * 1000 in
           e\<lparr>ve_ctx := Some (fs\<lparr>avc_bit_rate := bps, avc_rc_max_rate := bps, avc_rc_buffer_size := to_int32 bps\<rparr>, x),
             ve_config := (ve_config e)\<lparr>ec_bitrateKbps := kbps\<rparr>\<rparr>)"

definition ve_isOpen :: "'c video_encoder \<Rightarrow> bool" where
  "ve_isOpen e \<longleftrightarrow> ve_ctx e \<noteq> None"

text \<open>The \<^verbatim>\<open>AVFrame\<close> filled from the input frame.\<close>

definition fill_frame :: "'c video_encoder \<Rightarrow> video_frame \<Rightarrow> av_frame \<Rightarrow> av_frame" where
  "fill_frame e inp f = f\<lparr>avf_data := map pl_data (vf_planes inp), avf_linesize := map pl_stride (vf_planes inp),
     avf_pts := ve_pts e, avf_pict_I := ve_forceKeyframe e, avf_key := ve_forceKeyframe e\<rparr>"

definition encoded_of :: "video_frame \<Rightarrow> av_packet \<Rightarrow> encoded_frame" where
  "encoded_of inp pk = setPayload (fst pk) (new_encoded_frame\<lparr>ef_kind := Video, ef_videoCodec := H264,
     ef_keyframe := snd pk, ef_rtpTimestamp := vf_rtpTimestamp inp, ef_captureTime := vf_captureTime inp\<rparr>)"

definition ve_encode :: "'c av_encoder \<Rightarrow> bytes \<Rightarrow> video_frame \<Rightarrow> 'c video_encoder \<Rightarrow>
    encoded_frame result \<times> 'c video_encoder" where
  "ve_encode lib mem inp e = (case ve_ctx e of None \<Rightarrow> (fail NotInitialized, e)
     | Some (fs, x) \<Rightarrow>
         if \<not> vf_valid inp \<or> vf_format inp \<noteq> I420 then (fail InvalidArgument, e)
         else if vf_width inp \<noteq> ec_width (ve_config e) \<or> vf_height inp \<noteq> ec_height (ve_config e)
         then (fail InvalidArgument, e)
         else
           let f = fill_frame e inp (the (ve_frame e));
               e = e\<lparr>ve_frame := Some f, ve_pts := ve_pts e + 1, ve_forceKeyframe := False\<rparr>
           in case ae_send_frame lib fs mem f x of
                (False, y) \<Rightarrow> (fail CodecError, e\<lparr>ve_ctx := Some (fs, y)\<rparr>)
              | (True, y) \<Rightarrow>
                  (case ae_receive_packet lib y of
                     (Got pk, z) \<Rightarrow> (Inr (encoded_of inp pk), e\<lparr>ve_ctx := Some (fs, z)\<rparr>)
                   | (_, z) \<Rightarrow> (fail CodecError, e\<lparr>ve_ctx := Some (fs, z)\<rparr>)))"

section \<open>VideoDecoder\<close>

text \<open>A decoded picture: whether it is planar 4:2:0, its size, and the bytes and line size of its
  planes (the line sizes of an H.264 picture are not negative).\<close>

record av_picture =
  pic_yuv420p :: bool
  pic_width :: int
  pic_height :: int
  pic_data :: "bytes list"
  pic_linesize :: "nat list"

text \<open>\<open>ad_copy_plane dst off stride src linesize width height\<close> is \<^verbatim>\<open>av_image_copy_plane\<close> into the
  storage \<open>dst\<close> at \<open>off\<close>.\<close>

record 'd av_decoder =
  ad_find :: bool
  ad_alloc :: "'d option"
  ad_open2 :: "'d \<Rightarrow> 'd option"
  ad_frame_alloc :: bool
  ad_packet_alloc :: bool
  ad_send_packet :: "bytes \<Rightarrow> int \<Rightarrow> 'd \<Rightarrow> bool \<times> 'd"
  ad_receive_frame :: "'d \<Rightarrow> av_picture av_result \<times> 'd"
  ad_copy_plane :: "bytes \<Rightarrow> nat \<Rightarrow> nat \<Rightarrow> bytes \<Rightarrow> nat \<Rightarrow> nat \<Rightarrow> nat \<Rightarrow> bytes"

record 'd video_decoder =
  vd_ctx :: "'d option"
  vd_frame :: bool
  vd_packet :: bool
  vd_pool :: "pool_heap option"
  vd_mem :: bytes
  vd_poolW :: int
  vd_poolH :: int

definition new_video_decoder :: "'d video_decoder" where
  "new_video_decoder = \<lparr>vd_ctx = None, vd_frame = False, vd_packet = False, vd_pool = None,
     vd_mem = [], vd_poolW = 0, vd_poolH = 0\<rparr>"

definition kPoolDepth :: nat where
  "kPoolDepth = 8"

definition vd_open :: "'d av_decoder \<Rightarrow> 'd video_decoder \<Rightarrow> status \<times> 'd video_decoder" where
  "vd_open lib d0 =
    (let d = d0\<lparr>vd_ctx := None, vd_frame := False, vd_packet := False, vd_pool := None, vd_mem := [],
               vd_poolW := 0, vd_poolH := 0\<rparr> in
     if \<not> ad_find lib then (fail Unsupported, d)
     else case ad_alloc lib of
       None \<Rightarrow> (fail CodecError, d)
     | Some x \<Rightarrow>
         (case ad_open2 lib x of
            None \<Rightarrow> (fail CodecError, d)
          | Some y \<Rightarrow>
              let d = d\<lparr>vd_frame := ad_frame_alloc lib, vd_packet := ad_packet_alloc lib\<rparr> in
              if \<not> ad_frame_alloc lib \<or> \<not> ad_packet_alloc lib then (fail CodecError, d)
              else (ok, d\<lparr>vd_ctx := Some y\<rparr>)))"

text \<open>A new pool replaces the old one, whose storage lives on through the frames that point into
  it and is out of the decoder's reach.\<close>

definition ensurePool :: "int \<Rightarrow> int \<Rightarrow> 'd video_decoder \<Rightarrow> 'd video_decoder" where
  "ensurePool w h d =
    (if vd_pool d \<noteq> None \<and> w \<le> vd_poolW d \<and> h \<le> vd_poolH d then d
     else let pw = (if vd_poolW d < w then w else vd_poolW d);
              ph = (if vd_poolH d < h then h else vd_poolH d);
              sz = unat (i420Size pw ph)
          in d\<lparr>vd_pool := Some (new_pool_heap sz kPoolDepth), vd_mem := replicate (sz * kPoolDepth) 0,
               vd_poolW := pw, vd_poolH := ph\<rparr>)"

definition copy_planes :: "'d av_decoder \<Rightarrow> video_frame \<Rightarrow> av_picture \<Rightarrow> int \<Rightarrow> int \<Rightarrow> bytes \<Rightarrow> bytes" where
  "copy_planes lib out pic w h mem =
    (let cw = tdiv (w + 1) 2; ch = tdiv (h + 1) 2;
         plane = (\<lambda>i pw ph m. ad_copy_plane lib m (the (pl_data (vf_planes out ! i))) (nat (pl_stride (vf_planes out ! i)))
                     (pic_data pic ! i) (pic_linesize pic ! i) (nat pw) (nat ph))
     in plane 2 cw ch (plane 1 cw ch (plane 0 w h mem)))"

definition vd_decode :: "'d av_decoder \<Rightarrow> encoded_frame \<Rightarrow> 'd video_decoder \<Rightarrow> video_frame result \<times> 'd video_decoder" where
  "vd_decode lib inp d = (case vd_ctx d of None \<Rightarrow> (fail NotInitialized, d)
     | Some x \<Rightarrow>
         if ef_empty inp then (fail InvalidArgument, d)
         else case ad_send_packet lib (ef_data inp) (to_int32 (int (ef_size inp))) x of
           (False, y) \<Rightarrow> (fail CodecError, d\<lparr>vd_ctx := Some y\<rparr>)
         | (True, y) \<Rightarrow>
             (case ad_receive_frame lib y of
                (Got pic, z) \<Rightarrow>
                  let d = d\<lparr>vd_ctx := Some z\<rparr> in
                  if \<not> pic_yuv420p pic then (fail Unsupported, d)
                  else
                    let w = pic_width pic; h = pic_height pic; d = ensurePool w h d in
                    (case acquire_ptr (the (vd_pool d)) of
                       (None, hp) \<Rightarrow> (fail ResourceExhausted, d\<lparr>vd_pool := Some hp\<rparr>)
                     | (Some buf, hp) \<Rightarrow>
                         let out = makeI420 (Some buf) w h (ef_captureTime inp) in
                         if \<not> vf_valid out then (fail Internal, d\<lparr>vd_pool := Some (drop_ptr (fst buf) hp)\<rparr>)
                         else let out = out\<lparr>vf_rtpTimestamp := ef_rtpTimestamp inp\<rparr>
                              in (Inr out, d\<lparr>vd_pool := Some hp, vd_mem := copy_planes lib out pic w h (vd_mem d)\<rparr>))
              | (_, z) \<Rightarrow> (fail CodecError, d\<lparr>vd_ctx := Some z\<rparr>)))"

section \<open>AudioEncoder\<close>

definition kMaxPacket :: nat where
  "kMaxPacket = 4000"

definition isValidFrameSize :: "int \<Rightarrow> bool" where
  "isValidFrameSize samplesPerChannel \<longleftrightarrow> samplesPerChannel \<in> {120, 240, 480, 960, 1920, 2880}"

text \<open>\<open>oe_encode mem offset samples capacity\<close> gives the result code and the contents of the
  output buffer.\<close>

record 'o opus_encoder =
  oe_create :: "int \<Rightarrow> int \<Rightarrow> 'o option"
  oe_set_bitrate :: "int \<Rightarrow> 'o \<Rightarrow> 'o"
  oe_encode :: "bytes \<Rightarrow> nat \<Rightarrow> int \<Rightarrow> nat \<Rightarrow> 'o \<Rightarrow> int \<times> bytes \<times> 'o"

record 'o audio_encoder =
  aen_enc :: "'o option"
  aen_format :: audio_format
  aen_scratch :: bytes

definition new_audio_encoder :: "'o audio_encoder" where
  "new_audio_encoder = \<lparr>aen_enc = None, aen_format = default_audio_format, aen_scratch = []\<rparr>"

definition aen_open :: "'o opus_encoder \<Rightarrow> audio_format \<Rightarrow> int \<Rightarrow> 'o audio_encoder \<Rightarrow> status \<times> 'o audio_encoder" where
  "aen_open lib fmt bitrateBps e =
    (if sampleRateHz fmt \<noteq> 48000 then (fail Unsupported, e)
     else if channels fmt \<noteq> 1 \<and> channels fmt \<noteq> 2 then (fail InvalidArgument, e)
     else if bitrateBps \<le> 0 then (fail InvalidArgument, e)
     else case oe_create lib (sampleRateHz fmt) (channels fmt) of
       None \<Rightarrow> (fail CodecError, e\<lparr>aen_enc := None\<rparr>)
     | Some x \<Rightarrow> (ok, e\<lparr>aen_enc := Some (oe_set_bitrate lib bitrateBps x), aen_format := fmt,
          aen_scratch := take kMaxPacket (aen_scratch e) @ replicate (kMaxPacket - length (aen_scratch e)) 0\<rparr>))"

definition aen_encode :: "'o opus_encoder \<Rightarrow> bytes \<Rightarrow> audio_frame \<Rightarrow> 'o audio_encoder \<Rightarrow>
    encoded_frame result \<times> 'o audio_encoder" where
  "aen_encode lib mem inp e = (case aen_enc e of None \<Rightarrow> (fail NotInitialized, e)
     | Some x \<Rightarrow>
         if \<not> af_valid inp then (fail InvalidArgument, e)
         else if sampleRateHz (af_format inp) \<noteq> sampleRateHz (aen_format e) \<or>
                 channels (af_format inp) \<noteq> channels (aen_format e) then (fail InvalidArgument, e)
         else if \<not> isValidFrameSize (af_sampleCount inp) then (fail InvalidArgument, e)
         else case oe_encode lib mem (the (af_samples inp)) (af_sampleCount inp) (length (aen_scratch e)) x of
           (n, out, y) \<Rightarrow>
             let e = e\<lparr>aen_enc := Some y, aen_scratch := out\<rparr> in
             if n < 0 then (fail CodecError, e)
             else (Inr (setPayload (take (nat n) out) (new_encoded_frame\<lparr>ef_kind := Audio, ef_audioCodec := Opus,
                     ef_keyframe := False, ef_rtpTimestamp := af_rtpTimestamp inp,
                     ef_captureTime := af_captureTime inp\<rparr>)), e))"

section \<open>AudioDecoder\<close>

definition kMaxSamplesPerChannel :: int where
  "kMaxSamplesPerChannel = 5760"

text \<open>\<open>od_decode packet size mem offset maxSamples\<close> gives the samples per channel or a negative
  error, and the storage it wrote to.\<close>

record 'o opus_decoder =
  od_create :: "int \<Rightarrow> int \<Rightarrow> 'o option"
  od_decode :: "bytes \<Rightarrow> int \<Rightarrow> bytes \<Rightarrow> nat \<Rightarrow> int \<Rightarrow> 'o \<Rightarrow> int \<times> bytes \<times> 'o"

record 'o audio_decoder =
  adec_dec :: "'o option"
  adec_format :: audio_format
  adec_pool :: "pool_heap option"
  adec_mem :: bytes

definition new_audio_decoder :: "'o audio_decoder" where
  "new_audio_decoder = \<lparr>adec_dec = None, adec_format = default_audio_format, adec_pool = None, adec_mem = []\<rparr>"

definition adec_open :: "'o opus_decoder \<Rightarrow> audio_format \<Rightarrow> 'o audio_decoder \<Rightarrow> status \<times> 'o audio_decoder" where
  "adec_open lib fmt d =
    (if sampleRateHz fmt \<noteq> 48000 then (fail Unsupported, d)
     else if channels fmt \<noteq> 1 \<and> channels fmt \<noteq> 2 then (fail InvalidArgument, d)
     else
       let d = d\<lparr>adec_dec := None, adec_pool := None, adec_mem := []\<rparr> in
       case od_create lib (sampleRateHz fmt) (channels fmt) of
         None \<Rightarrow> (fail CodecError, d)
       | Some x \<Rightarrow>
           let maxBytes = nat kMaxSamplesPerChannel * nat (channels fmt) * 2
           in (ok, d\<lparr>adec_dec := Some x, adec_format := fmt, adec_pool := Some (new_pool_heap maxBytes kPoolDepth),
                     adec_mem := replicate (maxBytes * kPoolDepth) 0\<rparr>))"

definition adec_decode :: "'o opus_decoder \<Rightarrow> encoded_frame \<Rightarrow> 'o audio_decoder \<Rightarrow> audio_frame result \<times> 'o audio_decoder" where
  "adec_decode lib inp d = (case adec_dec d of None \<Rightarrow> (fail NotInitialized, d)
     | Some x \<Rightarrow>
         if ef_empty inp then (fail InvalidArgument, d)
         else case acquire_ptr (the (adec_pool d)) of
           (None, hp) \<Rightarrow> (fail ResourceExhausted, d\<lparr>adec_pool := Some hp\<rparr>)
         | (Some buf, hp) \<Rightarrow>
             (case od_decode lib (ef_data inp) (to_int32 (int (ef_size inp))) (adec_mem d) (pb_data (snd buf)) kMaxSamplesPerChannel x of
                (n, mem, y) \<Rightarrow>
                  let d = d\<lparr>adec_dec := Some y, adec_mem := mem\<rparr> in
                  if n < 0 then (fail CodecError, d\<lparr>adec_pool := Some (drop_ptr (fst buf) hp)\<rparr>)
                  else
                    let out = makePcm (Some buf) (adec_format d) n (ef_captureTime inp) in
                    if \<not> af_valid out then (fail Internal, d\<lparr>adec_pool := Some (drop_ptr (fst buf) hp)\<rparr>)
                    else (Inr (out\<lparr>af_rtpTimestamp := ef_rtpTimestamp inp\<rparr>), d\<lparr>adec_pool := Some hp\<rparr>)))"


section \<open>The encoder's settings\<close>

text \<open>An encoder after any calls, with any behaviour of the library at each of them.\<close>

inductive enc_reachable :: "'c video_encoder \<Rightarrow> bool" where
  enc_new: "enc_reachable new_video_encoder"
| enc_open: "enc_reachable e \<Longrightarrow> enc_reachable (snd (ve_open lib c e))"
| enc_force: "enc_reachable e \<Longrightarrow> enc_reachable (forceKeyframe e)"
| enc_bitrate: "enc_reachable e \<Longrightarrow> enc_reachable (setBitrate k e)"
| enc_encode: "enc_reachable e \<Longrightarrow> enc_reachable (snd (ve_encode lib mem inp e))"

definition enc_ok :: "'c video_encoder \<Rightarrow> bool" where
  "enc_ok e \<longleftrightarrow> (case ve_ctx e of None \<Rightarrow> True
     | Some (fs, x) \<Rightarrow> fs = encoder_fields (ve_config e) \<and> ve_frame e \<noteq> None \<and> ve_packet e \<and>
         0 < ec_width (ve_config e) \<and> even (ec_width (ve_config e)) \<and>
         0 < ec_height (ve_config e) \<and> even (ec_height (ve_config e)) \<and>
         0 < ec_fps (ve_config e) \<and> 0 < ec_bitrateKbps (ve_config e))"

lemma ve_open_ok: "enc_ok e \<Longrightarrow> enc_ok (snd (ve_open lib c e))"
  by (auto simp: enc_ok_def ve_open_def Let_def split: option.splits)

lemma forceKeyframe_ok: "enc_ok e \<Longrightarrow> enc_ok (forceKeyframe e)"
  by (auto simp: enc_ok_def forceKeyframe_def split: option.splits)

lemma setBitrate_ok: "enc_ok e \<Longrightarrow> enc_ok (setBitrate k e)"
  by (auto simp: enc_ok_def setBitrate_def encoder_fields_def Let_def split: option.splits)

lemma ve_encode_ok: "enc_ok e \<Longrightarrow> enc_ok (snd (ve_encode lib mem inp e))"
  by (auto simp: enc_ok_def ve_encode_def Let_def split: option.splits prod.splits bool.splits av_result.splits)

lemma enc_reachable_ok: "enc_reachable e \<Longrightarrow> enc_ok e"
  by (induction rule: enc_reachable.induct)
    (simp_all add: ve_open_ok forceKeyframe_ok setBitrate_ok ve_encode_ok, simp add: enc_ok_def new_video_encoder_def)

text \<open>An open encoder has its frame and packet (no call dereferences null), its dimensions are
  positive and even, and the context always carries the settings that the configuration asks
  for, bit rate changes included.\<close>

lemma encoder_settings:
  assumes "enc_reachable e" "ve_ctx e = Some (fs, x)"
  shows "ve_frame e \<noteq> None \<and> ve_packet e \<and> fs = encoder_fields (ve_config e) \<and>
    avc_bit_rate fs = ec_bitrateKbps (ve_config e) * 1000 \<and> avc_rc_max_rate fs = avc_bit_rate fs \<and>
    0 < avc_bit_rate fs \<and> even (avc_width fs) \<and> even (avc_height fs) \<and> avc_max_b_frames fs = 0"
  using enc_reachable_ok [OF assms(1)] assms(2) by (simp add: enc_ok_def encoder_fields_def Let_def)

text \<open>The calls on an open encoder between two \<^verbatim>\<open>open\<close>s, and the frames they submit to the codec.\<close>

datatype 'c enc_op = Force | Bitrate int | Encode "'c av_encoder" bytes video_frame

definition accepts :: "'c video_encoder \<Rightarrow> video_frame \<Rightarrow> bool" where
  "accepts e inp \<longleftrightarrow> vf_valid inp \<and> vf_format inp = I420 \<and> vf_width inp = ec_width (ve_config e) \<and>
     vf_height inp = ec_height (ve_config e)"

fun submissions :: "'c enc_op list \<Rightarrow> 'c video_encoder \<Rightarrow> av_frame list" where
  "submissions [] e = []"
| "submissions (Force # r) e = submissions r (forceKeyframe e)"
| "submissions (Bitrate k # r) e = submissions r (setBitrate k e)"
| "submissions (Encode lib mem inp # r) e =
     (let e' = snd (ve_encode lib mem inp e)
      in (if accepts e inp then [the (ve_frame e')] else []) @ submissions r e')"

text \<open>Which frames have to be keyframes: the first accepted frame after a request.\<close>

fun key_requests :: "'c enc_op list \<Rightarrow> 'c video_encoder \<Rightarrow> bool \<Rightarrow> bool list" where
  "key_requests [] e req = []"
| "key_requests (Force # r) e req = key_requests r e True"
| "key_requests (Bitrate k # r) e req = key_requests r e req"
| "key_requests (Encode lib mem inp # r) e req =
     (if accepts e inp then req # key_requests r e False else key_requests r e req)"

lemma key_requests_cong:
  "ec_width (ve_config e) = ec_width (ve_config e') \<Longrightarrow> ec_height (ve_config e) = ec_height (ve_config e') \<Longrightarrow>
   key_requests ops e req = key_requests ops e' req"
proof (induction ops arbitrary: req)
  case (Cons a ops)
  then show ?case by (cases a) (auto simp: accepts_def)
qed simp

lemma setBitrate_keeps [simp]:
  "ec_width (ve_config (setBitrate k e)) = ec_width (ve_config e)"
  "ec_height (ve_config (setBitrate k e)) = ec_height (ve_config e)"
  "ve_pts (setBitrate k e) = ve_pts e" "ve_forceKeyframe (setBitrate k e) = ve_forceKeyframe e"
  "ve_ctx (setBitrate k e) = None \<longleftrightarrow> ve_ctx e = None"
  by (auto simp: setBitrate_def Let_def split: option.splits)

lemma forceKeyframe_keeps [simp]:
  "ve_config (forceKeyframe e) = ve_config e" "ve_pts (forceKeyframe e) = ve_pts e"
  "ve_forceKeyframe (forceKeyframe e)" "ve_ctx (forceKeyframe e) = ve_ctx e"
  by (simp_all add: forceKeyframe_def)

lemma ve_encode_effect:
  assumes "ve_ctx e \<noteq> None"
  shows "ve_config (snd (ve_encode lib mem inp e)) = ve_config e \<and>
    ve_ctx (snd (ve_encode lib mem inp e)) \<noteq> None \<and>
    (if accepts e inp then ve_pts (snd (ve_encode lib mem inp e)) = ve_pts e + 1 \<and>
        \<not> ve_forceKeyframe (snd (ve_encode lib mem inp e)) \<and>
        avf_pts (the (ve_frame (snd (ve_encode lib mem inp e)))) = ve_pts e \<and>
        avf_pict_I (the (ve_frame (snd (ve_encode lib mem inp e)))) = ve_forceKeyframe e
     else ve_pts (snd (ve_encode lib mem inp e)) = ve_pts e \<and>
        ve_forceKeyframe (snd (ve_encode lib mem inp e)) = ve_forceKeyframe e)"
  using assms
  by (auto simp: ve_encode_def accepts_def fill_frame_def Let_def
      split: option.splits prod.splits bool.splits av_result.splits)

lemma encoder_submissions:
  assumes "ve_ctx e \<noteq> None"
  shows "map avf_pict_I (submissions ops e) = key_requests ops e (ve_forceKeyframe e) \<and>
    map avf_pts (submissions ops e) = map (\<lambda>i. ve_pts e + int i) [0..<length (submissions ops e)]"
  using assms
proof (induction ops e rule: submissions.induct)
  case (2 r e)
  then show ?case using key_requests_cong [of "forceKeyframe e" e r] by simp
next
  case (3 k r e)
  then show ?case using key_requests_cong [of "setBitrate k e" e r] by simp
next
  case (4 lib mem inp r e)
  define e' where "e' = snd (ve_encode lib mem inp e)"
  note eff = ve_encode_effect [OF 4(2), of lib mem inp, folded e'_def]
  have ih: "map avf_pict_I (submissions r e') = key_requests r e' (ve_forceKeyframe e')"
    "map avf_pts (submissions r e') = map (\<lambda>i. ve_pts e' + int i) [0..<length (submissions r e')]"
    using 4(1) [OF e'_def] eff by blast+
  have k: "key_requests r e' q = key_requests r e q" for q by (rule key_requests_cong) (use eff in auto)
  show ?case
  proof (cases "accepts e inp")
    case True
    have "map (\<lambda>i. ve_pts e + int i) [0..<Suc n] = ve_pts e # map (\<lambda>i. ve_pts e' + int i) [0..<n]" for n
      using eff True by (simp add: upt_conv_Cons map_Suc_upt [symmetric] del: upt_Suc)
    then show ?thesis using True eff ih k by (simp add: e'_def [symmetric] Let_def)
  qed (use eff ih k in \<open>simp add: e'_def [symmetric] Let_def\<close>)
qed simp

text \<open>What \<^verbatim>\<open>encode\<close> returns is the packet of the codec with the timing of the input.\<close>

lemma ve_encode_timing:
  assumes "fst (ve_encode lib mem inp e) = Inr g"
  shows "accepts e inp \<and> ef_kind g = Video \<and> ef_videoCodec g = H264 \<and> ef_rtpTimestamp g = vf_rtpTimestamp inp \<and>
    ef_captureTime g = vf_captureTime inp"
  using assms
  by (auto simp: ve_encode_def accepts_def encoded_of_def Let_def fail_def setPayload_def new_encoded_frame_def
      split: option.splits prod.splits bool.splits av_result.splits if_splits)

section \<open>The decoder's pool\<close>

lemma i420Size_le:
  assumes "0 < w" "w \<le> W" "W < 2 ^ 31 - 1" "0 < h" "h \<le> H" "H < 2 ^ 31 - 1"
  shows "unat (i420Size w h) \<le> unat (i420Size W H)"
proof -
  have "w < 2 ^ 31 - 1" "h < 2 ^ 31 - 1" "0 < W" "0 < H" using assms by linarith+
  note parts = i420_parts(3) [OF assms(1) this(1) assms(4) this(2)] i420_parts(3) [OF this(3) assms(3) this(4) assms(6)]
  have "w * h \<le> W * H" "(w + 1) div 2 * ((h + 1) div 2) \<le> (W + 1) div 2 * ((H + 1) div 2)"
    using assms by (auto intro!: mult_mono)
  then show ?thesis unfolding parts by (intro add_mono mult_left_mono nat_mono) auto
qed

text \<open>A decoder after any calls, the consumers copying and dropping the frames it gave out. Pictures
  of H.264 stay below the sizes of \<^verbatim>\<open>int\<close>.\<close>

definition pictures_fit :: "'d av_decoder \<Rightarrow> bool" where
  "pictures_fit lib \<longleftrightarrow> (\<forall>x pic y. ad_receive_frame lib x = (Got pic, y) \<longrightarrow>
     0 < pic_width pic \<and> pic_width pic < 2 ^ 31 - 1 \<and> 0 < pic_height pic \<and> pic_height pic < 2 ^ 31 - 1)"

text \<open>The contract of \<^verbatim>\<open>av_image_copy_plane\<close>: it copies \<open>h\<close> rows of \<open>w\<close> bytes and writes nothing
  outside the rows of the destination.\<close>

definition copies_plane :: "(bytes \<Rightarrow> nat \<Rightarrow> nat \<Rightarrow> bytes \<Rightarrow> nat \<Rightarrow> nat \<Rightarrow> nat \<Rightarrow> bytes) \<Rightarrow> bool" where
  "copies_plane cp \<longleftrightarrow> (\<forall>dst off stride src ls w h. w \<le> stride \<and> off + h * stride \<le> length dst \<longrightarrow>
     length (cp dst off stride src ls w h) = length dst \<and>
     (\<forall>y<h. \<forall>x<w. cp dst off stride src ls w h ! (off + y * stride + x) = src ! (y * ls + x)) \<and>
     (\<forall>i<length dst. i < off \<or> off + h * stride \<le> i \<longrightarrow> cp dst off stride src ls w h ! i = dst ! i))"

inductive dec_reachable :: "'d video_decoder \<Rightarrow> bool" where
  dec_new: "dec_reachable new_video_decoder"
| dec_open: "dec_reachable d \<Longrightarrow> dec_reachable (snd (vd_open lib d))"
| dec_decode: "dec_reachable d \<Longrightarrow> pictures_fit lib \<Longrightarrow> copies_plane (ad_copy_plane lib) \<Longrightarrow>
    dec_reachable (snd (vd_decode lib inp d))"
| dec_copy: "dec_reachable d \<Longrightarrow> dec_reachable (d\<lparr>vd_pool := map_option (copy_ptr a) (vd_pool d)\<rparr>)"
| dec_drop: "dec_reachable d \<Longrightarrow> dec_reachable (d\<lparr>vd_pool := map_option (drop_ptr a) (vd_pool d)\<rparr>)"

definition pool_fits :: "int \<Rightarrow> int \<Rightarrow> pool_heap \<Rightarrow> bytes \<Rightarrow> bool" where
  "pool_fits W H h mem \<longleftrightarrow> pool_ok (unat (i420Size W H)) kPoolDepth h \<and>
     length mem = unat (i420Size W H) * kPoolDepth"

definition dec_ok :: "'d video_decoder \<Rightarrow> bool" where
  "dec_ok d \<longleftrightarrow> (vd_ctx d \<noteq> None \<longrightarrow> vd_frame d \<and> vd_packet d) \<and>
     0 \<le> vd_poolW d \<and> vd_poolW d < 2 ^ 31 - 1 \<and> 0 \<le> vd_poolH d \<and> vd_poolH d < 2 ^ 31 - 1 \<and>
     (case vd_pool d of None \<Rightarrow> True | Some h \<Rightarrow> pool_fits (vd_poolW d) (vd_poolH d) h (vd_mem d))"

lemma ensurePool_ok:
  assumes "dec_ok d" "w < 2 ^ 31 - 1" "h < 2 ^ 31 - 1"
  shows "dec_ok (ensurePool w h d) \<and> vd_pool (ensurePool w h d) \<noteq> None \<and>
    w \<le> vd_poolW (ensurePool w h d) \<and> h \<le> vd_poolH (ensurePool w h d) \<and> vd_ctx (ensurePool w h d) = vd_ctx d"
  using assms by (auto simp: dec_ok_def ensurePool_def pool_fits_def pool_ok_new Let_def split: option.splits)

text \<open>The three copies of a frame that lies inside the storage.\<close>

definition plane_rows :: "bytes \<Rightarrow> nat \<Rightarrow> nat \<Rightarrow> nat \<Rightarrow> nat \<Rightarrow> bytes list" where
  "plane_rows mem off stride w h = map (\<lambda>y. map (\<lambda>x. mem ! (off + y * stride + x)) [0..<w]) [0..<h]"

lemma plane_rows_cong:
  assumes "\<And>i. off \<le> i \<Longrightarrow> i < off + h * w \<Longrightarrow> m ! i = m' ! i"
  shows "plane_rows m off w w h = plane_rows m' off w w h"
proof -
  have "off + y * w + x < off + h * w" if "y < h" "x < w" for y x
  proof -
    have "Suc y * w \<le> h * w" using that by (intro mult_le_mono1) simp
    then show ?thesis using that by simp
  qed
  then show ?thesis unfolding plane_rows_def by (intro map_cong refl assms) auto
qed

lemma copied_rows:
  assumes "copies_plane cp" "off + h * w \<le> length dst" "m = cp dst off w src ls w h"
  shows "length m = length dst" "plane_rows m off w w h = plane_rows src 0 ls w h"
    "\<And>i. i < length dst \<Longrightarrow> i < off \<or> off + h * w \<le> i \<Longrightarrow> m ! i = dst ! i"
  using assms(1) [unfolded copies_plane_def, rule_format, of w w off h dst src ls] assms(2,3)
  by (auto simp: plane_rows_def)

lemma copy_planes_rows:
  assumes "copies_plane (ad_copy_plane lib)" "0 < w" "w < 2 ^ 31 - 1" "0 < h" "h < 2 ^ 31 - 1"
    "f = makeI420 (Some (a, b)) w h t" "vf_valid f" "pb_data b + pb_capacity b \<le> length mem"
    "cw = nat ((w + 1) div 2)" "ch = nat ((h + 1) div 2)" "pic_data pic = [y, u, v]" "pic_linesize pic = [ly, lu, lv]"
    "m = copy_planes lib (f\<lparr>vf_rtpTimestamp := r\<rparr>) pic w h mem"
  shows "length m = length mem \<and>
    plane_rows m (pb_data b) (nat w) (nat w) (nat h) = plane_rows y 0 ly (nat w) (nat h) \<and>
    plane_rows m (pb_data b + nat (w * h)) cw cw ch = plane_rows u 0 lu cw ch \<and>
    plane_rows m (pb_data b + nat (w * h) + cw * ch) cw cw ch = plane_rows v 0 lv cw ch \<and>
    (\<forall>i<length mem. i < pb_data b \<or> pb_data b + pb_capacity b \<le> i \<longrightarrow> m ! i = mem ! i)"
proof -
  let ?cp = "ad_copy_plane lib"
  define o1 o2 where "o1 = pb_data b + nat w * nat h" and "o2 = o1 + cw * ch"
  have t: "nat (tdiv (w + 1) 2) = cw" "nat (tdiv (h + 1) 2) = ch"
    using assms(2,4,9,10) by (simp_all add: tdiv_nonneg)
  have n: "nat (w * h) = nat w * nat h" "nat ((w + 1) div 2 * ((h + 1) div 2)) = cw * ch"
    using assms(2,4,9,10) by (simp_all add: nat_mult_distrib)
  note lay = makeI420_planes [OF assms(3,5,6) refl refl, THEN conjunct2]
  then have l: "map pl_stride (vf_planes f) = [w, (w + 1) div 2, (w + 1) div 2]"
    "map pl_data (vf_planes f) = [Some (pb_data b), Some o1, Some o2]" "o2 + cw * ch \<le> pb_data b + pb_capacity b"
    using assms(7) n by (simp_all add: o1_def o2_def del: map_eq_Cons_conv)
  then obtain p0 p1 p2 where p: "vf_planes f = [p0, p1, p2]" by (auto simp: map_eq_Cons_conv)
  define m0 where "m0 = ?cp mem (pb_data b) (nat w) y ly (nat w) (nat h)"
  define m1 where "m1 = ?cp m0 o1 cw u lu cw ch"
  define m2 where "m2 = ?cp m1 o2 cw v lv cw ch"
  have m: "m = m2"
    using l p unfolding assms(13) copy_planes_def Let_def t
    by (simp add: assms(9,11,12) m0_def m1_def m2_def)
  have o: "o1 = pb_data b + nat h * nat w" "o2 = o1 + ch * cw" "o2 + ch * cw \<le> pb_data b + pb_capacity b"
    using l(3) by (simp_all add: o1_def o2_def mult.commute)
  have s0: "pb_data b + nat h * nat w \<le> length mem" using o assms(8) by simp
  note c0 = copied_rows [OF assms(1) s0 m0_def]
  have s1: "o1 + ch * cw \<le> length m0" using o assms(8) c0(1) by simp
  note c1 = copied_rows [OF assms(1) s1 m1_def]
  have s2: "o2 + ch * cw \<le> length m1" using o assms(8) c0(1) c1(1) by simp
  note c2 = copied_rows [OF assms(1) s2 m2_def]
  have "plane_rows m2 (pb_data b) (nat w) (nat w) (nat h) = plane_rows m0 (pb_data b) (nat w) (nat w) (nat h)"
    by (rule plane_rows_cong) (use c0(1) c1(1,3) c2(3) o assms(8) in auto)
  moreover have "plane_rows m2 o1 cw cw ch = plane_rows m1 o1 cw cw ch"
    by (rule plane_rows_cong) (use c0(1) c1(1) c2(3) o assms(8) in auto)
  moreover have "m2 ! i = mem ! i" if "i < length mem" "i < pb_data b \<or> pb_data b + pb_capacity b \<le> i" for i
    using that c0(1) c1(1) c0(3) [of i] c1(3) [of i] c2(3) [of i] o by auto
  ultimately show ?thesis
    using c0(1,2) c1(1,2) c2(1,2) unfolding m n(1) o1_def [symmetric] o2_def [symmetric] by auto
qed

section \<open>Decoding\<close>

lemma copy_planes_length:
  assumes "copies_plane (ad_copy_plane lib)" "0 < w" "w < 2 ^ 31 - 1" "0 < h" "h < 2 ^ 31 - 1"
    "f = makeI420 (Some (a, b)) w h t" "vf_valid f" "pb_data b + pb_capacity b \<le> length mem"
  shows "length (copy_planes lib (f\<lparr>vf_rtpTimestamp := r\<rparr>) pic w h mem) = length mem"
proof -
  have "copy_planes lib x pic w h mem =
      copy_planes lib x (pic\<lparr>pic_data := [pic_data pic ! 0, pic_data pic ! 1, pic_data pic ! 2],
        pic_linesize := [pic_linesize pic ! 0, pic_linesize pic ! 1, pic_linesize pic ! 2]\<rparr>) w h mem" for x
    by (simp add: copy_planes_def Let_def numeral_2_eq_2)
  then show ?thesis
    using copy_planes_rows [OF assms refl refl _ _ refl, THEN conjunct1] by simp
qed

text \<open>The outcome of a decode once the codec has produced a picture.\<close>

lemma decode_picture:
  assumes "dec_ok d" "vd_ctx d = Some x" "\<not> ef_empty inp"
    "ad_send_packet lib (ef_data inp) (to_int32 (int (ef_size inp))) x = (True, y)"
    "ad_receive_frame lib y = (Got pic, z)" "pic_yuv420p pic"
    "0 < pic_width pic" "pic_width pic < 2 ^ 31 - 1" "0 < pic_height pic" "pic_height pic < 2 ^ 31 - 1"
    "d1 = ensurePool (pic_width pic) (pic_height pic) d" "vd_pool d1 = Some h"
  shows "case acquire_ptr h of
      (None, h') \<Rightarrow> vd_decode lib inp d = (Inl ResourceExhausted, d1\<lparr>vd_ctx := Some z\<rparr>)
    | (Some (a, b), h') \<Rightarrow>
        vf_valid (makeI420 (Some (a, b)) (pic_width pic) (pic_height pic) (ef_captureTime inp)) \<and>
        pb_data b + pb_capacity b \<le> length (vd_mem d1) \<and>
        vd_decode lib inp d =
          (Inr ((makeI420 (Some (a, b)) (pic_width pic) (pic_height pic) (ef_captureTime inp))\<lparr>vf_rtpTimestamp := ef_rtpTimestamp inp\<rparr>),
           d1\<lparr>vd_ctx := Some z, vd_pool := Some h',
             vd_mem := copy_planes lib ((makeI420 (Some (a, b)) (pic_width pic) (pic_height pic)
               (ef_captureTime inp))\<lparr>vf_rtpTimestamp := ef_rtpTimestamp inp\<rparr>) pic (pic_width pic) (pic_height pic) (vd_mem d1)\<rparr>)"
proof -
  let ?w = "pic_width pic" and ?h = "pic_height pic"
  have e: "ensurePool ?w ?h (d\<lparr>vd_ctx := c\<rparr>) = (ensurePool ?w ?h d)\<lparr>vd_ctx := c\<rparr>" for c
    by (auto simp: ensurePool_def Let_def)
  have ok: "dec_ok d1" "?w \<le> vd_poolW d1" "?h \<le> vd_poolH d1"
    using ensurePool_ok [OF assms(1,8,10)] assms(11) by auto
  have fit: "pool_ok (unat (i420Size (vd_poolW d1) (vd_poolH d1))) kPoolDepth h"
    "length (vd_mem d1) = unat (i420Size (vd_poolW d1) (vd_poolH d1)) * kPoolDepth"
    using ok assms(12) by (auto simp: dec_ok_def pool_fits_def)
  have dims: "vd_poolW d1 < 2 ^ 31 - 1" "vd_poolH d1 < 2 ^ 31 - 1" using ok(1) unfolding dec_ok_def by blast+
  have same: "d1\<lparr>vd_ctx := c, vd_pool := Some h\<rparr> = d1\<lparr>vd_ctx := c\<rparr>" for c using assms(12) by simp
  note unfold = assms(2-6) e [of "Some z"] assms(11) [symmetric] assms(12)
  show ?thesis
  proof (cases "acquire_ptr h")
    case (Pair r h')
    show ?thesis
    proof (cases r)
      case None
      then show ?thesis
        using acquire_none_same [of h h'] Pair same assms(12) by (simp add: vd_decode_def fail_def Let_def unfold)
    next
      case (Some ab)
      obtain a b where ab: "ab = (a, b)" by force
      note fresh = acquire_fresh [OF fit(1) Pair [unfolded Some ab]]
      have cap: "pb_capacity b = unat (i420Size (vd_poolW d1) (vd_poolH d1))" using fresh(3) by (simp add: buffer_at_def)
      have "unat (i420Size ?w ?h) \<le> pb_capacity b"
        unfolding cap by (rule i420Size_le [OF assms(7) ok(2) dims(1) assms(9) ok(3) dims(2)])
      then have v: "vf_valid (makeI420 (Some (a, b)) ?w ?h (ef_captureTime inp))"
        using makeI420_planes [OF assms(8,10) refl refl refl, THEN conjunct1] assms(7,9) by blast
      have "pb_data b + pb_capacity b \<le> length (vd_mem d1)"
        using fresh(4) fit(2) by (simp add: cap mult.commute)
      then show ?thesis using v Pair assms(12) unfolding Some ab
        by (simp add: vd_decode_def Let_def unfold)
    qed
  qed
qed

lemma vd_open_ok: "dec_ok d \<Longrightarrow> dec_ok (snd (vd_open lib d))"
  by (auto simp: dec_ok_def vd_open_def Let_def split: option.splits)

lemma dec_ok_ctx: "dec_ok d \<Longrightarrow> vd_ctx d = Some x \<Longrightarrow> dec_ok (d\<lparr>vd_ctx := Some y\<rparr>)"
  by (auto simp: dec_ok_def split: option.splits)

lemma vd_decode_ok:
  assumes "dec_ok d" "pictures_fit lib" "copies_plane (ad_copy_plane lib)"
  shows "dec_ok (snd (vd_decode lib inp d))"
proof (cases "\<exists>x y pic z. vd_ctx d = Some x \<and> \<not> ef_empty inp \<and>
    ad_send_packet lib (ef_data inp) (to_int32 (int (ef_size inp))) x = (True, y) \<and>
    ad_receive_frame lib y = (Got pic, z) \<and> pic_yuv420p pic")
  case True
  then obtain x y pic z where c: "vd_ctx d = Some x" "\<not> ef_empty inp"
    "ad_send_packet lib (ef_data inp) (to_int32 (int (ef_size inp))) x = (True, y)"
    "ad_receive_frame lib y = (Got pic, z)" "pic_yuv420p pic" by blast
  have p: "0 < pic_width pic" "pic_width pic < 2 ^ 31 - 1" "0 < pic_height pic" "pic_height pic < 2 ^ 31 - 1"
    using assms(2) c(4) unfolding pictures_fit_def by blast+
  define d1 where "d1 = ensurePool (pic_width pic) (pic_height pic) d"
  obtain h where h: "vd_pool d1 = Some h" using ensurePool_ok [OF assms(1) p(2,4)] unfolding d1_def by auto
  have ok: "dec_ok d1" "vd_ctx d1 = Some x" using ensurePool_ok [OF assms(1) p(2,4)] c(1) unfolding d1_def by auto
  note out = decode_picture [OF assms(1) c p d1_def h]
  show ?thesis
  proof (cases "acquire_ptr h")
    case (Pair r h')
    show ?thesis
    proof (cases r)
      case None
      then show ?thesis using out Pair dec_ok_ctx [OF ok, of z] by simp
    next
      case (Some ab)
      obtain a b where ab: "ab = (a, b)" by force
      let ?f = "makeI420 (Some (a, b)) (pic_width pic) (pic_height pic) (ef_captureTime inp)"
      have o: "vf_valid ?f" "pb_data b + pb_capacity b \<le> length (vd_mem d1)"
        "snd (vd_decode lib inp d) = d1\<lparr>vd_ctx := Some z, vd_pool := Some h',
             vd_mem := copy_planes lib (?f\<lparr>vf_rtpTimestamp := ef_rtpTimestamp inp\<rparr>) pic (pic_width pic) (pic_height pic) (vd_mem d1)\<rparr>"
        using out unfolding Pair Some ab by simp_all
      have "pool_ok (unat (i420Size (vd_poolW d1) (vd_poolH d1))) kPoolDepth h"
        using ok(1) h by (simp add: dec_ok_def pool_fits_def)
      note ok' = acquire_fresh(1) [OF this Pair [unfolded Some ab]]
      show ?thesis
        using ok ok' h copy_planes_length [OF assms(3) p refl o(1,2)] unfolding o(3)
        by (simp add: dec_ok_def pool_fits_def)
    qed
  qed
next
  case False
  have "snd (vd_decode lib inp d) = d \<or> (\<exists>x y. vd_ctx d = Some x \<and> snd (vd_decode lib inp d) = d\<lparr>vd_ctx := Some y\<rparr>)"
    using False by (auto simp: vd_decode_def Let_def split: option.splits prod.splits bool.splits av_result.splits)
  then show ?thesis using assms(1) by (auto intro: dec_ok_ctx)
qed

lemma dec_reachable_ok: "dec_reachable d \<Longrightarrow> dec_ok d"
proof (induction rule: dec_reachable.induct)
  case dec_new
  then show ?case by (simp add: dec_ok_def new_video_decoder_def)
next
  case (dec_copy d a)
  then show ?case by (auto simp: dec_ok_def pool_fits_def copy_ptr_ok split: option.splits)
next
  case (dec_drop d a)
  then show ?case by (auto simp: dec_ok_def pool_fits_def drop_ptr_ok split: option.splits)
qed (simp_all add: vd_open_ok vd_decode_ok)

text \<open>C16. The video decoder gives out exactly the picture of the codec. Whatever was decoded
  before and whichever frames the consumers still hold: when the codec produces a picture, the
  decode fails only if all eight buffers of the pool are held by consumers; otherwise the frame has
  the picture's size and the input's timestamps, each plane's rows are the rows of the picture
  without their padding, and no byte of a frame that a consumer still holds is changed.\<close>

theorem decode_exact:
  assumes "dec_reachable d" "vd_ctx d = Some x" "\<not> ef_empty inp"
    "ad_send_packet lib (ef_data inp) (to_int32 (int (ef_size inp))) x = (True, y)"
    "ad_receive_frame lib y = (Got pic, z)" "pic_yuv420p pic"
    "w = pic_width pic" "ht = pic_height pic" "pictures_fit lib" "copies_plane (ad_copy_plane lib)"
    "cw = nat ((w + 1) div 2)" "ch = nat ((ht + 1) div 2)"
    "pic_data pic = [py, pu, pv]" "pic_linesize pic = [ly, lu, lv]"
    "d1 = ensurePool w ht d" "h = the (vd_pool d1)" "vd_decode lib inp d = (res, d')"
  shows "if length (live_buffers h) = 8 then res = Inl ResourceExhausted
    else \<exists>f a b. res = Inr f \<and> vf_valid f \<and> vf_buffer f = Some (a, b) \<and> vf_format f = I420 \<and>
      vf_rtpTimestamp f = ef_rtpTimestamp inp \<and> vf_captureTime f = ef_captureTime inp \<and>
      map pl_data (vf_planes f) = [Some (pb_data b), Some (pb_data b + nat (w * ht)), Some (pb_data b + nat (w * ht) + cw * ch)] \<and>
      plane_rows (vd_mem d') (pb_data b) (nat w) (nat w) (nat ht) = plane_rows py 0 ly (nat w) (nat ht) \<and>
      plane_rows (vd_mem d') (pb_data b + nat (w * ht)) cw cw ch = plane_rows pu 0 lu cw ch \<and>
      plane_rows (vd_mem d') (pb_data b + nat (w * ht) + cw * ch) cw cw ch = plane_rows pv 0 lv cw ch \<and>
      list_all (\<lambda>c. cut (pb_data c) (pb_data c + pb_capacity c) (vd_mem d') =
                    cut (pb_data c) (pb_data c + pb_capacity c) (vd_mem d1)) (live_buffers h)"
proof -
  have p: "0 < w" "w < 2 ^ 31 - 1" "0 < ht" "ht < 2 ^ 31 - 1"
    using assms(5,7-9) unfolding pictures_fit_def by blast+
  have ok: "dec_ok d" using dec_reachable_ok [OF assms(1)] .
  have h: "vd_pool d1 = Some h" "dec_ok d1" using ensurePool_ok [OF ok p(2,4)] assms(15,16) by auto
  have fit: "pool_ok (unat (i420Size (vd_poolW d1) (vd_poolH d1))) kPoolDepth h"
    "length (vd_mem d1) = unat (i420Size (vd_poolW d1) (vd_poolH d1)) * kPoolDepth"
    using h by (auto simp: dec_ok_def pool_fits_def)
  note out = decode_picture [OF ok assms(2-6), folded assms(7,8), OF p assms(15) h(1)]
  show ?thesis
  proof (cases "acquire_ptr h")
    case (Pair r h')
    show ?thesis
    proof (cases r)
      case None
      then show ?thesis using out Pair acquire_none_iff [OF fit(1)] assms(17) by (simp add: kPoolDepth_def)
    next
      case (Some ab)
      obtain a b where ab: "ab = (a, b)" by force
      let ?f = "makeI420 (Some (a, b)) w ht (ef_captureTime inp)"
      let ?m = "copy_planes lib (?f\<lparr>vf_rtpTimestamp := ef_rtpTimestamp inp\<rparr>) pic w ht (vd_mem d1)"
      have o: "vf_valid ?f" "pb_data b + pb_capacity b \<le> length (vd_mem d1)"
        "res = Inr (?f\<lparr>vf_rtpTimestamp := ef_rtpTimestamp inp\<rparr>)" "vd_mem d' = ?m"
        using out assms(17) unfolding Pair Some ab by auto
      note rows = copy_planes_rows [OF assms(10) p refl o(1,2) assms(11-14) refl, of "ef_rtpTimestamp inp"]
      note fresh = acquire_fresh [OF fit(1) Pair [unfolded Some ab]]
      have keep: "cut (pb_data c) (pb_data c + pb_capacity c) ?m = cut (pb_data c) (pb_data c + pb_capacity c) (vd_mem d1)"
        if "c \<in> set (live_buffers h)" for c
      proof (rule cut_outside)
        show "pb_data c + pb_capacity c \<le> pb_data b \<or> pb_data b + pb_capacity b \<le> pb_data c"
          using fresh(5) that by (auto simp: list_all_iff disjoint_buffers_def)
      qed (use rows in blast)+
      have "length (live_buffers h) \<noteq> 8" using acquire_none_iff [OF fit(1)] Pair Some by (simp add: kPoolDepth_def)
      moreover have v: "vf_format ?f = I420 \<and> vf_buffer ?f = Some (a, b) \<and> vf_captureTime ?f = ef_captureTime inp \<and>
          map pl_data (vf_planes ?f) = [Some (pb_data b), Some (pb_data b + nat (w * ht)), Some (pb_data b + nat (w * ht) + cw * ch)]"
        using makeI420_planes [OF p(2,4) refl refl refl, THEN conjunct2, of a b "ef_captureTime inp"] o(1) p(1,3) assms(11,12)
        by (simp add: nat_mult_distrib)
      moreover have "vf_valid (?f\<lparr>vf_rtpTimestamp := q\<rparr>)" for q using o(1) by (simp add: vf_valid_def)
      ultimately show ?thesis using o(3,4) rows keep by (simp add: list_all_iff)
    qed
  qed
qed

definition copy_rows :: "bytes \<Rightarrow> nat \<Rightarrow> nat \<Rightarrow> bytes \<Rightarrow> nat \<Rightarrow> nat \<Rightarrow> nat \<Rightarrow> bytes" where
  "copy_rows dst off stride src ls w h = map (\<lambda>i. if off \<le> i \<and> i < off + h * stride \<and> (i - off) mod stride < w
     then src ! ((i - off) div stride * ls + (i - off) mod stride) else dst ! i) [0..<length dst]"

lemma copies_plane_copy_rows: "copies_plane copy_rows"
  unfolding copies_plane_def
proof (intro allI impI conjI, goal_cases)
  case (2 dst off stride src ls w h y x)
  have "y * stride + x < h * stride"
  proof -
    have "Suc y * stride \<le> h * stride" using 2 by (intro mult_le_mono1) simp
    then show ?thesis using 2 by simp
  qed
  moreover have "(y * stride + x) div stride = y" "(y * stride + x) mod stride = x" using 2 by auto
  ultimately show ?case using 2 by (auto simp: copy_rows_def add.assoc)
next
  case (3 dst off stride src ls w h i)
  then show ?case by (auto simp: copy_rows_def)
qed (simp add: copy_rows_def)

definition demo_picture :: av_picture where
  "demo_picture = \<lparr>pic_yuv420p = True, pic_width = 2, pic_height = 2,
     pic_data = [[1, 2, 0, 3, 4, 0], [5, 0], [6, 0]], pic_linesize = [3, 2, 2]\<rparr>"

definition demo_codec :: "nat av_decoder" where
  "demo_codec = \<lparr>ad_find = True, ad_alloc = Some 0, ad_open2 = Some, ad_frame_alloc = True,
     ad_packet_alloc = True, ad_send_packet = (\<lambda>bs n x. (True, x + 1)),
     ad_receive_frame = (\<lambda>x. (Got demo_picture, x)), ad_copy_plane = copy_rows\<rparr>"

definition demo_encoded :: encoded_frame where
  "demo_encoded = setPayload [0, 0, 1, 5] (new_encoded_frame\<lparr>ef_rtpTimestamp := 90\<rparr>)"

lemma decode_exact_witness:
  "dec_reachable (snd (vd_open demo_codec new_video_decoder)) \<and>
   (\<exists>f (b :: pool_buffer). fst (vd_decode demo_codec demo_encoded (snd (vd_open demo_codec new_video_decoder))) = Inr f \<and>
      vf_rtpTimestamp f = 90 \<and>
      plane_rows (vd_mem (snd (vd_decode demo_codec demo_encoded (snd (vd_open demo_codec new_video_decoder)))))
        (pb_data b) 2 2 2 = [[1, 2], [3, 4]])"
proof -
  define d where "d = snd (vd_open demo_codec new_video_decoder)"
  have r: "dec_reachable d" unfolding d_def by (intro dec_open dec_new)
  have d: "vd_ctx d = Some 0" "vd_pool d = None" "vd_poolW d = 0" "vd_poolH d = 0"
    by (simp_all add: d_def vd_open_def demo_codec_def new_video_decoder_def Let_def ok_def)
  have lib: "ad_send_packet demo_codec p n (0::nat) = (True, 1)" "ad_receive_frame demo_codec (1::nat) = (Got demo_picture, 1)"
    "ad_copy_plane demo_codec = copy_rows" for p n by (simp_all add: demo_codec_def)
  have fits: "pictures_fit demo_codec" by (auto simp: pictures_fit_def demo_codec_def demo_picture_def)
  have cp: "copies_plane (ad_copy_plane demo_codec)" by (simp add: lib copies_plane_copy_rows)
  have pic: "pic_yuv420p demo_picture" "(2::int) = pic_width demo_picture" "(2::int) = pic_height demo_picture"
    "pic_data demo_picture = [[1, 2, 0, 3, 4, 0], [5, 0], [6, 0]]" "pic_linesize demo_picture = [3, 2, 2]"
    "(1::nat) = nat ((2 + 1) div 2)" by (simp_all add: demo_picture_def)
  have ne: "\<not> ef_empty demo_encoded" "ef_rtpTimestamp demo_encoded = 90"
    by (simp_all add: demo_encoded_def ef_empty_iff)
  define h where "h = the (vd_pool (ensurePool 2 2 d))"
  have h: "length (live_buffers h) \<noteq> 8"
    by (simp add: h_def ensurePool_def d Let_def new_pool_heap_def live_buffers_def)
  obtain res d' where e: "vd_decode demo_codec demo_encoded d = (res, d')" by force
  have "plane_rows [1, 2, 0, 3, 4, 0] 0 3 2 2 = [[1, 2], [3, 4 :: u8]]" by (simp add: plane_rows_def upt_rec)
  then show ?thesis
    using decode_exact [OF r d(1) ne(1) lib(1) lib(2) pic(1-3) fits cp pic(6) pic(6) pic(4,5) refl h_def e] h r e ne(2)
    unfolding d_def [symmetric] by auto
qed

section \<open>The audio decoder\<close>

text \<open>The contract of \<^verbatim>\<open>opus_decode\<close>: at most the room given, at least one sample unless an error.\<close>

definition opus_fits :: "'o opus_decoder \<Rightarrow> bool" where
  "opus_fits lib \<longleftrightarrow> (\<forall>pk k mem off x. fst (od_decode lib pk k mem off kMaxSamplesPerChannel x) \<noteq> 0 \<and>
     fst (od_decode lib pk k mem off kMaxSamplesPerChannel x) \<le> kMaxSamplesPerChannel)"

inductive adec_reachable :: "'o audio_decoder \<Rightarrow> bool" where
  adec_new: "adec_reachable new_audio_decoder"
| adec_open_step: "adec_reachable d \<Longrightarrow> adec_reachable (snd (adec_open lib fmt d))"
| adec_decode_step: "adec_reachable d \<Longrightarrow> adec_reachable (snd (adec_decode lib inp d))"
| adec_copy: "adec_reachable d \<Longrightarrow> adec_reachable (d\<lparr>adec_pool := map_option (copy_ptr a) (adec_pool d)\<rparr>)"
| adec_drop: "adec_reachable d \<Longrightarrow> adec_reachable (d\<lparr>adec_pool := map_option (drop_ptr a) (adec_pool d)\<rparr>)"

definition pcm_bytes :: "audio_format \<Rightarrow> nat" where
  "pcm_bytes fmt = 5760 * nat (channels fmt) * 2"

definition adec_ok :: "'o audio_decoder \<Rightarrow> bool" where
  "adec_ok d \<longleftrightarrow> (adec_dec d \<noteq> None \<longrightarrow> channels (adec_format d) \<in> {1, 2} \<and>
     (\<exists>h. adec_pool d = Some h \<and> pool_ok (pcm_bytes (adec_format d)) kPoolDepth h))"

lemma adec_open_ok: "adec_ok d \<Longrightarrow> adec_ok (snd (adec_open lib fmt d))"
  by (auto simp: adec_ok_def adec_open_def Let_def pcm_bytes_def kMaxSamplesPerChannel_def pool_ok_new
      split: option.splits)

lemma adec_decode_ok: "adec_ok d \<Longrightarrow> adec_ok (snd (adec_decode lib inp d))"
  using acquire_ptr_ok [of "pcm_bytes (adec_format d)" kPoolDepth "the (adec_pool d)"]
  by (auto simp: adec_ok_def adec_decode_def Let_def drop_ptr_ok split: option.splits prod.splits)

lemma adec_reachable_ok: "adec_reachable d \<Longrightarrow> adec_ok d"
proof (induction rule: adec_reachable.induct)
  case adec_new
  then show ?case by (simp add: adec_ok_def new_audio_decoder_def)
next
  case (adec_copy d a)
  then show ?case by (auto simp: adec_ok_def copy_ptr_ok)
next
  case (adec_drop d a)
  then show ?case by (auto simp: adec_ok_def drop_ptr_ok)
qed (simp_all add: adec_open_ok adec_decode_ok)

lemma audio_block_valid:
  assumes "channels fmt \<in> {1, 2}" "0 < n" "n \<le> 5760" "pb_capacity b = pcm_bytes fmt"
  shows "af_valid (makePcm (Some (a, b)) fmt n t)"
proof -
  have "unat (of_int n * of_int (channels fmt) * 2 :: u64) = nat n * nat (channels fmt) * 2"
    using assms(1-3) of_int_size [of "n * channels fmt * 2"] by (auto simp: nat_mult_distrib)
  moreover have "nat n * nat (channels fmt) * 2 \<le> pcm_bytes fmt"
    using assms(1,3) by (auto simp: pcm_bytes_def)
  ultimately show ?thesis using assms by (auto simp: makePcm_def af_valid_def Let_def new_audio_frame_def)
qed

text \<open>The audio decoder's errors cost nothing: in any state it can be in, a decode fails for want
  of a buffer exactly when all eight are held; a packet that Opus rejects is reported as such and
  gives its buffer back; and otherwise the block is returned, lies inside its buffer, and carries
  the timestamps of the packet (the internal error of the source cannot occur).\<close>

theorem audio_decode_outcome:
  assumes "adec_reachable d" "adec_dec d = Some x" "\<not> ef_empty inp" "opus_fits lib"
    "h = the (adec_pool d)" "adec_decode lib inp d = (res, d')"
  shows "if length (live_buffers h) = 8 then res = Inl ResourceExhausted \<and> d' = d
    else (\<exists>h'. adec_pool d' = Some h' \<and>
      (if available (ph_pool h') = available (ph_pool h) then res = Inl CodecError \<and> ph_blocks h' = ph_blocks h
       else \<exists>a b f. res = Inr f \<and> live_buffers h' = b # live_buffers h \<and> af_buffer f = Some (a, b) \<and>
         af_samples f = Some (pb_data b) \<and> 0 < af_sampleCount f \<and>
         nat (af_sampleCount f) * nat (channels (af_format f)) * 2 \<le> pb_capacity b \<and>
         af_rtpTimestamp f = ef_rtpTimestamp inp \<and> af_captureTime f = ef_captureTime inp))"
proof -
  have ok: "channels (adec_format d) \<in> {1, 2}" "adec_pool d = Some h" "pool_ok (pcm_bytes (adec_format d)) kPoolDepth h"
    using adec_reachable_ok [OF assms(1)] assms(2,5) by (auto simp: adec_ok_def)
  show ?thesis
  proof (cases "acquire_ptr h")
    case (Pair r h')
    show ?thesis
    proof (cases r)
      case None
      moreover have "d\<lparr>adec_pool := Some h\<rparr> = d" using ok(2) by simp
      ultimately show ?thesis
        using acquire_none_same [of h h'] acquire_none_iff [OF ok(3)] Pair assms(2,3,5,6)
        by (auto simp: adec_decode_def fail_def kPoolDepth_def)
    next
      case (Some ab)
      obtain a b where ab: "ab = (a, b)" by force
      note acq = Pair [unfolded Some ab]
      note fresh = acquire_fresh [OF ok(3) acq]
      have cap: "pb_capacity b = pcm_bytes (adec_format d)" using fresh(3) by (simp add: buffer_at_def)
      have free: "length (live_buffers h) \<noteq> 8" using acquire_none_iff [OF ok(3)] acq by (simp add: kPoolDepth_def)
      have less: "available (ph_pool h') \<noteq> available (ph_pool h)"
        using pool_ok_slots(3) [OF ok(3)] pool_ok_slots(3) [OF fresh(1)] fresh(2) by simp
      obtain n mem y where o: "od_decode lib (ef_data inp) (to_int32 (int (ef_size inp))) (adec_mem d) (pb_data b) kMaxSamplesPerChannel x = (n, mem, y)"
        by (rule prod_cases3)
      have n: "n \<noteq> 0" "n \<le> 5760"
        using assms(4) [unfolded opus_fits_def, rule_format, of "ef_data inp" "to_int32 (int (ef_size inp))" "adec_mem d" "pb_data b" x]
        unfolding o by (simp_all add: kMaxSamplesPerChannel_def)
      note dec = assms(6) [unfolded adec_decode_def assms(2) option.case assms(5) [symmetric] acq prod.case snd_conv o Let_def, symmetric]
      show ?thesis
      proof (cases "n < 0")
        case True
        then show ?thesis using dec free acquire_drop [OF ok(3) acq] assms(3) by (simp add: fail_def)
      next
        case False
        let ?f = "makePcm (Some (a, b)) (adec_format d) n (ef_captureTime inp)"
        have v: "af_valid ?f" using audio_block_valid [OF ok(1) _ n(2) cap] False n(1) by simp
        have f: "af_buffer ?f = Some (a, b) \<and> af_sampleCount ?f = n \<and> af_format ?f = adec_format d \<and> af_captureTime ?f = ef_captureTime inp"
          using v by (auto simp: makePcm_def af_valid_def new_audio_frame_def Let_def split: if_splits)
        have s: "nat n * nat (channels (adec_format d)) * 2 \<le> pb_capacity b" "af_samples ?f = Some (pb_data b)"
          using makePcm_fits [OF _ _ v] n ok(1) by auto
        show ?thesis using dec assms(3) False v f s n(1) free less fresh(2) by (simp add: af_valid_def)
      qed
    qed
  qed
qed

definition demo_opus :: "nat opus_decoder" where
  "demo_opus = \<lparr>od_create = (\<lambda>r c. Some 0), od_decode = (\<lambda>pk k mem off m x. (if pk = [0] then -4 else 1, mem, x))\<rparr>"


lemma audio_decode_outcome_witness:
  "adec_reachable (snd (adec_open demo_opus default_audio_format new_audio_decoder)) \<and>
   (\<exists>f d'. adec_decode demo_opus demo_encoded (snd (adec_open demo_opus default_audio_format new_audio_decoder)) = (Inr f, d') \<and>
      af_rtpTimestamp f = 90 \<and> 0 < af_sampleCount f)"
proof -
  define d where "d = snd (adec_open demo_opus default_audio_format new_audio_decoder)"
  have r: "adec_reachable d" unfolding d_def by (intro adec_open_step adec_new)
  have d: "adec_dec d = Some 0" "adec_pool d = Some (new_pool_heap 11520 8)"
    by (simp_all add: d_def adec_open_def demo_opus_def default_audio_format_def Let_def kPoolDepth_def
        kMaxSamplesPerChannel_def)
  have ne: "\<not> ef_empty demo_encoded" "ef_rtpTimestamp demo_encoded = 90" "ef_data demo_encoded = [0, 0, 1, 5]"
    by (simp_all add: demo_encoded_def ef_empty_iff)
  have fits: "opus_fits demo_opus"
    by (simp add: opus_fits_def demo_opus_def kMaxSamplesPerChannel_def)
  define h where "h = the (adec_pool d)"
  have free: "length (live_buffers h) \<noteq> 8" by (simp add: h_def d new_pool_heap_def live_buffers_def)
  obtain res d' where e: "adec_decode demo_opus demo_encoded d = (res, d')" by force
  have res: "res \<noteq> Inl CodecError"
    using e d ne by (auto simp: adec_decode_def demo_opus_def fail_def Let_def split: option.splits prod.splits if_splits)
  show ?thesis
    using audio_decode_outcome [OF r d(1) ne(1) fits h_def e] free res r e ne(2)
    unfolding d_def [symmetric] by (auto split: if_splits)
qed

end
