(* ===== verification/Pipeline.thy ===== *)
theory Pipeline
  imports Codec Jitter
begin

text \<open>
  The media pipelines (src/src/media/MediaPipeline.h, MediaPipeline.cpp): capture frames through
  encoder and packetizer to the packet sink, and packets through jitter buffer and decoder to the
  frame sinks. Callbacks are the events a call returns, in their order; the encoders and decoders
  the pipelines point to are part of their state. The callback of a frame sink may copy and drop
  frame pointers, which is a parameter.
\<close>

section \<open>SendPipeline\<close>

record send_config =
  sc_videoPayloadType :: u8
  sc_videoSsrc :: u32
  sc_audioPayloadType :: u8
  sc_audioSsrc :: u32

definition default_send_config :: send_config where
  "default_send_config = \<lparr>sc_videoPayloadType = 96, sc_videoSsrc = 0, sc_audioPayloadType = 111, sc_audioSsrc = 0\<rparr>"

datatype send_event = Tap encoded_frame | Sink rtp_packet

record ('c, 'o) send_pipeline =
  sp_videoEncoder :: "'c video_encoder option"
  sp_audioEncoder :: "'o audio_encoder option"
  sp_sink :: bool
  sp_config :: send_config
  sp_encodedTap :: bool
  sp_videoRtp :: rtp_handler
  sp_audioRtp :: "rtp_handler option"

definition new_send_pipeline :: "'c video_encoder option \<Rightarrow> 'o audio_encoder option \<Rightarrow> bool \<Rightarrow> send_config \<Rightarrow>
    ('c, 'o) send_pipeline" where
  "new_send_pipeline venc aenc sink c =
     \<lparr>sp_videoEncoder = venc, sp_audioEncoder = aenc, sp_sink = sink, sp_config = c, sp_encodedTap = False,
      sp_videoRtp = new_rtp_handler (sc_videoPayloadType c) (sc_videoSsrc c) kVideoRtpClockHz kDefaultMaxRtpPayload,
      sp_audioRtp = (case aenc of None \<Rightarrow> None
        | Some _ \<Rightarrow> Some (new_rtp_handler (sc_audioPayloadType c) (sc_audioSsrc c) kAudioRtpClockHz kDefaultMaxRtpPayload))\<rparr>"

definition setEncodedTap :: "bool \<Rightarrow> ('c, 'o) send_pipeline \<Rightarrow> ('c, 'o) send_pipeline" where
  "setEncodedTap tap s = s\<lparr>sp_encodedTap := tap\<rparr>"

definition tap_events :: "bool \<Rightarrow> encoded_frame \<Rightarrow> send_event list" where
  "tap_events tap ef = (if tap then [Tap ef] else [])"

definition sink_events :: "bool \<Rightarrow> rtp_packet list \<Rightarrow> send_event list" where
  "sink_events sink ps = (if sink then map Sink ps else [])"

definition pushVideoFrame :: "'c av_encoder \<Rightarrow> bytes \<Rightarrow> video_frame \<Rightarrow> ('c, 'o) send_pipeline \<Rightarrow>
    status \<times> send_event list \<times> ('c, 'o) send_pipeline" where
  "pushVideoFrame lib mem frame s = (case sp_videoEncoder s of
     None \<Rightarrow> (fail NotInitialized, [], s)
   | Some enc \<Rightarrow>
       (case ve_encode lib mem frame enc of
          (Inl e, enc') \<Rightarrow> (fail e, [], s\<lparr>sp_videoEncoder := Some enc'\<rparr>)
        | (Inr ef, enc') \<Rightarrow>
            let s = s\<lparr>sp_videoEncoder := Some enc'\<rparr> in
            if ef_empty ef then (ok, [], s)
            else case packetize (sp_videoRtp s) ef of
              (Inl e, h) \<Rightarrow> (fail e, tap_events (sp_encodedTap s) ef, s\<lparr>sp_videoRtp := h\<rparr>)
            | (Inr ps, h) \<Rightarrow> (ok, tap_events (sp_encodedTap s) ef @ sink_events (sp_sink s) ps, s\<lparr>sp_videoRtp := h\<rparr>)))"

definition pushAudioFrame :: "'o opus_encoder \<Rightarrow> bytes \<Rightarrow> audio_frame \<Rightarrow> ('c, 'o) send_pipeline \<Rightarrow>
    status \<times> send_event list \<times> ('c, 'o) send_pipeline" where
  "pushAudioFrame lib mem frame s = (case (sp_audioEncoder s, sp_audioRtp s) of
     (Some enc, Some rtp) \<Rightarrow>
       (case aen_encode lib mem frame enc of
          (Inl e, enc') \<Rightarrow> (fail e, [], s\<lparr>sp_audioEncoder := Some enc'\<rparr>)
        | (Inr ef, enc') \<Rightarrow>
            let s = s\<lparr>sp_audioEncoder := Some enc'\<rparr> in
            if ef_empty ef then (ok, [], s)
            else case packetize rtp ef of
              (Inl e, h) \<Rightarrow> (fail e, tap_events (sp_encodedTap s) ef, s\<lparr>sp_audioRtp := Some h\<rparr>)
            | (Inr ps, h) \<Rightarrow> (ok, tap_events (sp_encodedTap s) ef @ sink_events (sp_sink s) ps, s\<lparr>sp_audioRtp := Some h\<rparr>))
   | _ \<Rightarrow> (fail NotInitialized, [], s))"

definition sp_forceKeyframe :: "('c, 'o) send_pipeline \<Rightarrow> ('c, 'o) send_pipeline" where
  "sp_forceKeyframe s = s\<lparr>sp_videoEncoder := map_option forceKeyframe (sp_videoEncoder s)\<rparr>"

definition setVideoBitrate :: "int \<Rightarrow> ('c, 'o) send_pipeline \<Rightarrow> ('c, 'o) send_pipeline" where
  "setVideoBitrate kbps s = s\<lparr>sp_videoEncoder := map_option (setBitrate kbps) (sp_videoEncoder s)\<rparr>"

text \<open>The capture callback: the status is dropped.\<close>

definition makeCaptureSink :: "'c av_encoder \<Rightarrow> bytes \<Rightarrow> ('c, 'o) send_pipeline \<Rightarrow> video_frame \<Rightarrow>
    send_event list \<times> ('c, 'o) send_pipeline" where
  "makeCaptureSink lib mem s frame = snd (pushVideoFrame lib mem frame s)"

section \<open>ReceivePipeline\<close>

record receive_config =
  rc_videoSsrc :: u32
  rc_audioSsrc :: u32
  rc_targetDelay :: int

definition default_receive_config :: receive_config where
  "default_receive_config = \<lparr>rc_videoSsrc = 0, rc_audioSsrc = 0, rc_targetDelay = 50 * 1000000\<rparr>"

definition videoJbConfig :: "int \<Rightarrow> jitter_config" where
  "videoJbConfig delay = default_jitter_config\<lparr>targetDelay := delay, jc_kind := Video, jc_videoCodec := H264\<rparr>"

definition audioJbConfig :: "int \<Rightarrow> jitter_config" where
  "audioJbConfig delay = default_jitter_config\<lparr>targetDelay := delay, jc_kind := Audio, jc_audioCodec := Opus\<rparr>"

text \<open>What a sink does to the pointers of the decoder's pool while it runs; \<open>None\<close> is an empty
  callback.\<close>

type_synonym 'f frame_sink = "('f \<Rightarrow> pool_heap \<Rightarrow> pool_heap) option"

record ('d, 'o) receive_pipeline =
  rp_videoDecoder :: "'d video_decoder option"
  rp_audioDecoder :: "'o audio_decoder option"
  rp_config :: receive_config
  rp_videoJitter :: jitter_buffer
  rp_audioJitter :: "jitter_buffer option"

definition new_receive_pipeline :: "'d video_decoder option \<Rightarrow> 'o audio_decoder option \<Rightarrow> receive_config \<Rightarrow>
    ('d, 'o) receive_pipeline" where
  "new_receive_pipeline vdec adec c =
     \<lparr>rp_videoDecoder = vdec, rp_audioDecoder = adec, rp_config = c,
      rp_videoJitter = new_jitter_buffer (videoJbConfig (rc_targetDelay c)),
      rp_audioJitter = (if adec \<noteq> None \<and> rc_audioSsrc c \<noteq> 0
        then Some (new_jitter_buffer (audioJbConfig (rc_targetDelay c))) else None)\<rparr>"

definition rp_pushPacket :: "rtp_packet \<Rightarrow> steady_time \<Rightarrow> ('d, 'o) receive_pipeline \<Rightarrow> ('d, 'o) receive_pipeline" where
  "rp_pushPacket pkt arrival r = (case rp_audioJitter r of
     Some jb \<Rightarrow> if ssrc pkt = rc_audioSsrc (rp_config r) then r\<lparr>rp_audioJitter := Some (snd (push jb pkt arrival))\<rparr>
                else r\<lparr>rp_videoJitter := snd (push (rp_videoJitter r) pkt arrival)\<rparr>
   | None \<Rightarrow> r\<lparr>rp_videoJitter := snd (push (rp_videoJitter r) pkt arrival)\<rparr>)"

datatype frame_event = VideoOut video_frame | AudioOut audio_frame

text \<open>Decode and hand to the sink; the local frame then drops its pointer.\<close>

definition show_video :: "'d av_decoder \<Rightarrow> video_frame frame_sink \<Rightarrow> encoded_frame \<Rightarrow> 'd video_decoder \<Rightarrow>
    frame_event list \<times> 'd video_decoder" where
  "show_video lib sink ef dec = (case vd_decode lib ef dec of
     (Inl e, d) \<Rightarrow> ([], d)
   | (Inr f, d) \<Rightarrow> (case sink of
        None \<Rightarrow> ([], d\<lparr>vd_pool := map_option (drop_frame (vf_buffer f)) (vd_pool d)\<rparr>)
      | Some k \<Rightarrow> ([VideoOut f], d\<lparr>vd_pool := map_option (drop_frame (vf_buffer f) \<circ> k f) (vd_pool d)\<rparr>)))"

definition play_audio :: "'o opus_decoder \<Rightarrow> audio_frame frame_sink \<Rightarrow> encoded_frame \<Rightarrow> 'o audio_decoder \<Rightarrow>
    frame_event list \<times> 'o audio_decoder" where
  "play_audio lib sink ef dec = (case adec_decode lib ef dec of
     (Inl e, d) \<Rightarrow> ([], d)
   | (Inr f, d) \<Rightarrow> (case sink of
        None \<Rightarrow> ([], d\<lparr>adec_pool := map_option (drop_frame (af_buffer f)) (adec_pool d)\<rparr>)
      | Some k \<Rightarrow> ([AudioOut f], d\<lparr>adec_pool := map_option (drop_frame (af_buffer f) \<circ> k f) (adec_pool d)\<rparr>)))"

text \<open>The loops of \<^verbatim>\<open>tick\<close>: one frame is popped and shown before the next is popped.\<close>

function tick_loop :: "(encoded_frame \<Rightarrow> 's \<Rightarrow> frame_event list \<times> 's) \<Rightarrow> steady_time \<Rightarrow> jitter_buffer \<Rightarrow> 's \<Rightarrow>
    frame_event list \<times> jitter_buffer \<times> 's" where
  "tick_loop out now b dec = (case pop b now of
     (None, b') \<Rightarrow> ([], b', dec)
   | (Some ef, b') \<Rightarrow>
       let (evs, dec') = out ef dec; (evs', b'', dec'') = tick_loop out now b' dec' in (evs @ evs', b'', dec''))"
  by pat_completeness auto
termination
  by (relation "measure (\<lambda>(out, now, b, dec). length (jb_frames b))") (auto dest!: sym [THEN pop_shrinks])

declare tick_loop.simps [simp del]

definition rp_tick :: "'d av_decoder \<Rightarrow> 'o opus_decoder \<Rightarrow> video_frame frame_sink \<Rightarrow> audio_frame frame_sink \<Rightarrow>
    steady_time \<Rightarrow> ('d, 'o) receive_pipeline \<Rightarrow> frame_event list \<times> ('d, 'o) receive_pipeline" where
  "rp_tick vlib alib vsink asink now r =
    (let (evs, r) = (case rp_videoDecoder r of
           None \<Rightarrow> ([], r)
         | Some dec \<Rightarrow>
             let (evs, jb, dec') = tick_loop (show_video vlib vsink) now (rp_videoJitter r) dec
             in (evs, r\<lparr>rp_videoDecoder := Some dec', rp_videoJitter := jb\<rparr>));
         (evs', r) = (case (rp_audioJitter r, rp_audioDecoder r) of
           (Some jb, Some dec) \<Rightarrow>
             let (evs, jb', dec') = tick_loop (play_audio alib asink) now jb dec
             in (evs, r\<lparr>rp_audioDecoder := Some dec', rp_audioJitter := Some jb'\<rparr>)
         | _ \<Rightarrow> ([], r))
     in (evs @ evs', r))"

section \<open>Draining\<close>

text \<open>The frames a loop of \<^verbatim>\<open>pop\<close> yields (the loop of \<^verbatim>\<open>ReceiveRouter::tick\<close>).\<close>

function drain :: "jitter_buffer \<Rightarrow> steady_time \<Rightarrow> encoded_frame list \<times> jitter_buffer" where
  "drain b now = (case pop b now of
     (None, b') \<Rightarrow> ([], b')
   | (Some g, b') \<Rightarrow> let (gs, b'') = drain b' now in (g # gs, b''))"
  by pat_completeness auto
termination
  by (relation "measure (\<lambda>(b, now). length (jb_frames b))") (auto dest!: sym [THEN pop_shrinks])

declare drain.simps [simp del]

fun show_all :: "(encoded_frame \<Rightarrow> 's \<Rightarrow> frame_event list \<times> 's) \<Rightarrow> encoded_frame list \<Rightarrow> 's \<Rightarrow> frame_event list \<times> 's" where
  "show_all out [] dec = ([], dec)"
| "show_all out (g # gs) dec =
     (let (evs, dec') = out g dec; (evs', dec'') = show_all out gs dec' in (evs @ evs', dec''))"

lemma tick_loop_drain:
  "tick_loop out now b dec =
     (let (gs, b') = drain b now; (evs, dec') = show_all out gs dec in (evs, b', dec'))"
proof (induction out now b dec rule: tick_loop.induct)
  case (1 out now b dec)
  then show ?case
    by (subst tick_loop.simps, subst drain.simps)
      (auto simp: Let_def split: option.splits prod.splits)
qed

lemma drain_done:
  "drain b now = (gs, b') \<Longrightarrow> pop b' now = (None, b') \<and> jb_config b' = jb_config b \<and>
     length gs + length (jb_frames b') \<le> length (jb_frames b)"
proof (induction b now arbitrary: gs b' rule: drain.induct)
  case (1 b now)
  show ?case
  proof (cases "pop b now")
    case (Pair r b1)
    note p = pop_shrinks [OF Pair]
    show ?thesis
    proof (cases r)
      case None
      then show ?thesis using 1(2) Pair p pop_None_stable [of b now b1] by (simp add: drain.simps [of b])
    next
      case (Some g)
      obtain hs b2 where d: "drain b1 now = (hs, b2)" by force
      have "gs = g # hs" "b' = b2" using 1(2) Pair Some d by (auto simp: drain.simps [of b])
      then show ?thesis using 1(1) [OF Pair [symmetric] Some d] p Some by simp
    qed
  qed
qed

text \<open>What \<^verbatim>\<open>drain\<close> hands out is one run of playout calls.\<close>

lemma drain_play:
  "drain b now = (gs, b') \<Longrightarrow> \<exists>n. play b (replicate n (Playout now)) = (gs, b')"
proof (induction b now arbitrary: gs b' rule: drain.induct)
  case (1 b now)
  show ?case
  proof (cases "pop b now")
    case (Pair r b1)
    show ?thesis
    proof (cases r)
      case None
      then have "play b (replicate 1 (Playout now)) = (gs, b')" using 1(2) Pair by (simp add: drain.simps [of b])
      then show ?thesis by blast
    next
      case (Some g)
      obtain hs b2 where d: "drain b1 now = (hs, b2)" by force
      obtain n where n: "play b1 (replicate n (Playout now)) = (hs, b2)" using 1(1) [OF Pair [symmetric] Some d] ..
      have "play b (replicate (Suc n) (Playout now)) = (gs, b')"
        using 1(2) Pair Some d n by (auto simp: drain.simps [of b])
      then show ?thesis by blast
    qed
  qed
qed


section \<open>End to end\<close>

fun sent_packets :: "send_event list \<Rightarrow> rtp_packet list" where
  "sent_packets [] = []"
| "sent_packets (Sink p # evs) = p # sent_packets evs"
| "sent_packets (Tap f # evs) = sent_packets evs"

fun shown_frames :: "frame_event list \<Rightarrow> video_frame list" where
  "shown_frames [] = []"
| "shown_frames (VideoOut f # evs) = f # shown_frames evs"
| "shown_frames (AudioOut f # evs) = shown_frames evs"

lemma sent_packets_append [simp]: "sent_packets (es @ es') = sent_packets es @ sent_packets es'"
  by (induction es rule: sent_packets.induct) auto

lemma shown_frames_append [simp]: "shown_frames (es @ es') = shown_frames es @ shown_frames es'"
  by (induction es rule: shown_frames.induct) auto

lemma sent_map [simp]: "sent_packets (map Sink ps) = ps"
  by (induction ps) auto

definition rp_receive :: "(rtp_packet \<times> steady_time) list \<Rightarrow> ('d, 'o) receive_pipeline \<Rightarrow> ('d, 'o) receive_pipeline" where
  "rp_receive qs r = fold (\<lambda>(p, t). rp_pushPacket p t) qs r"

lemma rp_receive_video:
  assumes "\<forall>(p, t)\<in>set qs. rp_audioJitter r = None \<or> ssrc p \<noteq> rc_audioSsrc (rp_config r)"
  shows "rp_receive qs r = r\<lparr>rp_videoJitter := receive (rp_videoJitter r) qs\<rparr>"
  using assms
proof (induction qs arbitrary: r)
  case (Cons q qs)
  obtain p t where q: "q = (p, t)" by force
  have "rp_pushPacket p t r = r\<lparr>rp_videoJitter := snd (push (rp_videoJitter r) p t)\<rparr>"
    using Cons.prems q by (auto simp: rp_pushPacket_def split: option.splits)
  then show ?case using Cons q by (simp add: rp_receive_def)
qed (simp add: rp_receive_def)

lemma drain_one:
  assumes "length (jb_frames b) = 1"
  shows "fst (drain b now) = (case fst (pop b now) of None \<Rightarrow> [] | Some g \<Rightarrow> [g])"
proof (cases "pop b now")
  case (Pair r b1)
  have "pop b' now = (None, b')" if "jb_frames b' = []" for b' using that by (simp add: pop.simps [of b'])
  then have "fst (drain b' now) = []" if "jb_frames b' = []" for b' using that by (simp add: drain.simps [of b'])
  then show ?thesis using pop_shrinks [OF Pair] Pair assms
    by (auto simp: drain.simps [of b] split: option.splits prod.splits) (metis fst_conv)
qed

lemma show_audio_none: "shown_frames (fst (play_audio lib sink ef dec)) = []"
  by (auto simp: play_audio_def split: prod.splits sum.splits option.splits)

lemma show_all_audio: "shown_frames (fst (show_all (play_audio lib sink) gs dec)) = []"
proof (induction gs arbitrary: dec)
  case (Cons g gs)
  then show ?case using show_audio_none [of lib sink g dec] by (auto split: prod.splits) (metis fst_conv)
qed simp

lemma tick_shown:
  assumes "rp_videoDecoder r = Some dec" "drain (rp_videoJitter r) now = (gs, b')"
  shows "shown_frames (fst (rp_tick vlib alib vsink asink now r)) = shown_frames (fst (show_all (show_video vlib vsink) gs dec))"
  using assms show_all_audio [of alib asink]
  by (auto simp: rp_tick_def tick_loop_drain Let_def split: option.splits prod.splits) (metis fst_conv)+

text \<open>C1. From camera to screen: a video frame that the sender pushes, its packets arriving at
  a fresh receiver in any order and with any repetitions, is handed to the decoder by the first tick
  at least the target delay after the first arrival, as the access unit that the encoder
  produced, with the timestamp of the captured frame; the sink gets exactly what the decoder makes of
  it. Before that no tick shows anything.\<close>

theorem pipeline_end_to_end:
  assumes "sp_videoEncoder s = Some enc" "ve_encode lib mem vf enc = (Inr ef, enc')" "sp_sink s"
    "pushVideoFrame lib mem vf s = (Inr (), evs, s')" "\<not> ef_empty ef" "handler_ok (sp_videoRtp s)"
    "length (sent_packets evs) \<le> 0x8000" "\<forall>n\<in>set (nals_of (ef_data ef)). sendable (rh_maxPayload (sp_videoRtp s)) n"
    "r = new_receive_pipeline (Some dec) adec c" "rc_audioSsrc c \<noteq> rh_ssrc (sp_videoRtp s)"
    "fst ` set qs = set (sent_packets evs)"
  shows "if now - snd (hd qs) < rc_targetDelay c
    then shown_frames (fst (rp_tick vlib alib (Some k) asink now (rp_receive qs r))) = []
    else \<exists>g. ef_data g = annexb (nals_of (ef_data ef)) \<and> ef_rtpTimestamp g = vf_rtpTimestamp vf \<and>
      shown_frames (fst (rp_tick vlib alib (Some k) asink now (rp_receive qs r))) =
        (case fst (vd_decode vlib g dec) of Inl e \<Rightarrow> [] | Inr f \<Rightarrow> [f])"
proof -
  let ?h = "sp_videoRtp s" and ?b = "rp_videoJitter r"
  obtain ps h' where pk: "packetize ?h ef = (Inr ps, h')" "sent_packets evs = ps"
    using assms(1-5) by (auto simp: pushVideoFrame_def Let_def fail_def tap_events_def sink_events_def
        split: prod.splits sum.splits if_splits)
  have ef: "ef_kind ef = Video" "ef_rtpTimestamp ef = vf_rtpTimestamp vf"
    using ve_encode_timing [of lib mem vf enc ef] assms(2) by auto
  have len: "length ps \<le> 0x8000" "fst ` set qs = set ps" using assms(7,11) pk(2) by auto
  have b: "jb_frames ?b = []" "\<not> is_late ?b ts" "jc_kind (jb_config ?b) = Video" "targetDelay (jb_config ?b) = rc_targetDelay c"
    "rp_videoDecoder r = Some dec" for ts
    by (simp_all add: assms(9) new_receive_pipeline_def new_jitter_buffer_def videoJbConfig_def default_jitter_config_def is_late_def)
  note wire = packetize_wire_all [OF pk(1) assms(6)]
  have "ssrc p = rh_ssrc ?h" if "p \<in> set ps" for p using wire that by (metis in_set_conv_nth)
  then have "\<forall>(p, t)\<in>set qs. rp_audioJitter r = None \<or> ssrc p \<noteq> rc_audioSsrc (rp_config r)"
    using len(2) assms(10) by (force simp: assms(9) new_receive_pipeline_def)
  note recv = rp_receive_video [OF this]
  have unit: "access_unit (rh_seq ?h) (ef_rtpTimestamp ef) ps" by (rule packetize_unit [OF pk(1) assms(6) len(1)])
  have ne: "qs \<noteq> []" using unit len(2) by (auto simp: access_unit_def)
  have one: "length (jb_frames (receive ?b qs)) = 1"
    using receive_all [OF unit _ ne b(1,2)] len(2) by (auto simp: pending_def)
  note popped = reassembled [OF pk(1) assms(6) ef(1) len(1) assms(8) len(2) b(1,2,3), of now]
  obtain gs b' where d: "drain (receive ?b qs) now = (gs, b')" by force
  have gs: "gs = (case fst (pop (receive ?b qs) now) of None \<Rightarrow> [] | Some g \<Rightarrow> [g])"
    using drain_one [OF one, of now] d by simp
  have shown: "shown_frames (fst (rp_tick vlib alib (Some k) asink now (rp_receive qs r))) =
      shown_frames (fst (show_all (show_video vlib (Some k)) gs dec))"
    by (rule tick_shown) (use d b(5) in \<open>simp_all add: recv\<close>)
  have single: "shown_frames (fst (show_all (show_video vlib (Some k)) [g] dec)) =
      (case fst (vd_decode vlib g dec) of Inl e \<Rightarrow> [] | Inr f \<Rightarrow> [f])" for g
    by (auto simp: show_video_def split: prod.splits sum.splits)
  show ?thesis
  proof (cases "fst (pop (receive ?b qs) now)")
    case None
    then show ?thesis using popped gs shown b(4) by simp
  next
    case (Some g)
    then have "gs = [g]" "\<not> now - snd (hd qs) < rc_targetDelay c" "ef_data g = annexb (nals_of (ef_data ef))"
      "ef_rtpTimestamp g = vf_rtpTimestamp vf"
      using popped gs b(4) ef(2) by auto
    then show ?thesis using shown single [of g] by auto
  qed
qed


definition demo_encoder_lib :: "nat av_encoder" where
  "demo_encoder_lib = \<lparr>ae_find = True, ae_alloc = Some 0, ae_open2 = (\<lambda>fs x. Some x),
     ae_frame_alloc = Some \<lparr>avf_width = 0, avf_height = 0, avf_data = [], avf_linesize = [], avf_pts = 0,
       avf_pict_I = False, avf_key = False\<rparr>, ae_packet_alloc = True,
     ae_send_frame = (\<lambda>fs mem f x. (True, x)), ae_receive_packet = (\<lambda>x. (Got (annexb sample_nals, False), x))\<rparr>"

definition demo_encoder :: "nat video_encoder" where
  "demo_encoder = snd (ve_open demo_encoder_lib \<lparr>ec_width = 2, ec_height = 2, ec_fps = 30, ec_bitrateKbps = 500\<rparr> new_video_encoder)"

definition demo_captured :: video_frame where
  "demo_captured = (makeI420 (Some (0, demo_buffer)) 2 2 0)\<lparr>vf_rtpTimestamp := 3000\<rparr>"

definition demo_sender :: "(nat, nat) send_pipeline" where
  "demo_sender = (new_send_pipeline (Some demo_encoder) None True default_send_config)\<lparr>sp_videoRtp := sample_handler\<rparr>"

definition demo_receiver :: "(nat, nat) receive_pipeline" where
  "demo_receiver = new_receive_pipeline (Some (snd (vd_open demo_codec new_video_decoder))) None default_receive_config"

lemma demo_encodes: "\<exists>e'. ve_encode demo_encoder_lib mem demo_captured demo_encoder = (Inr sample_frame, e')"
proof -
  have v: "vf_valid demo_captured \<and> vf_format demo_captured = I420 \<and> vf_width demo_captured = 2 \<and> vf_height demo_captured = 2 \<and>
      vf_captureTime demo_captured = 0 \<and> vf_rtpTimestamp demo_captured = 3000"
    by (simp add: demo_captured_def makeI420_def demo_buffer_def Let_def tdiv_nonneg vf_valid_def new_video_frame_def)
  then show ?thesis
    by (simp add: ve_encode_def demo_encoder_def ve_open_def demo_encoder_lib_def new_video_encoder_def Let_def ok_def
        encoded_of_def sample_frame_def new_encoded_frame_def)
qed

lemma demo_pushes: "\<exists>s'. pushVideoFrame demo_encoder_lib mem demo_captured demo_sender = (Inr (), map Sink sample_sent, s')"
proof -
  obtain e' where e: "ve_encode demo_encoder_lib mem demo_captured demo_encoder = (Inr sample_frame, e')"
    using demo_encodes [of mem] ..
  have "\<not> ef_empty sample_frame" by (simp add: ef_empty_iff sample_frame_def sample_nals_def kStartCode_def)
  then show ?thesis
    by (simp add: pushVideoFrame_def demo_sender_def new_send_pipeline_def e sample_run tap_events_def sink_events_def ok_def)
qed

lemma pipeline_end_to_end_witness:
  "\<exists>g. ef_data g = annexb (nals_of (annexb sample_nals)) \<and> ef_rtpTimestamp g = 3000 \<and>
     shown_frames (fst (rp_tick demo_codec demo_opus (Some (\<lambda>f h. h)) None 50000005 (rp_receive sample_arrivals demo_receiver))) =
       (case fst (vd_decode demo_codec g (snd (vd_open demo_codec new_video_decoder))) of Inl e \<Rightarrow> [] | Inr f \<Rightarrow> [f])"
proof -
  obtain e' where e: "ve_encode demo_encoder_lib [] demo_captured demo_encoder = (Inr sample_frame, e')"
    using demo_encodes [of "[]"] ..
  obtain s' where s: "pushVideoFrame demo_encoder_lib [] demo_captured demo_sender = (Inr (), map Sink sample_sent, s')"
    using demo_pushes [of "[]"] ..
  have h: "sp_videoRtp demo_sender = sample_handler" "sp_videoEncoder demo_sender = Some demo_encoder" "sp_sink demo_sender"
    by (simp_all add: demo_sender_def new_send_pipeline_def)
  have ne: "\<not> ef_empty sample_frame" "ef_data sample_frame = annexb sample_nals"
    by (simp_all add: ef_empty_iff sample_frame_def sample_nals_def kStartCode_def)
  have c: "rc_audioSsrc default_receive_config \<noteq> rh_ssrc sample_handler" "rc_targetDelay default_receive_config = 50000000"
    by (simp_all add: default_receive_config_def sample_handler_def new_rtp_handler_def)
  have t: "snd (hd sample_arrivals) = 5" "vf_rtpTimestamp demo_captured = 3000"
    by (simp_all add: sample_arrivals_def demo_captured_def)
  have l: "length (sent_packets (map Sink sample_sent)) \<le> 0x8000" "fst ` set sample_arrivals = set (sent_packets (map Sink sample_sent))"
    using sample_set by (simp_all add: sample_sent_len)
  show ?thesis
    using pipeline_end_to_end [OF h(2) e h(3) s ne(1) _ l(1) _ demo_receiver_def _ l(2),
        of 50000005 demo_codec demo_opus "\<lambda>f h. h" None] sample_handler_ok(1) sample_sendable c t ne(2)
    unfolding h(1) by simp
qed

end
