(* ===== verification/Router.thy ===== *)
theory Router
  imports Pipeline
begin

text \<open>
  The receive router (src/src/media/ReceiveRouter.h, ReceiveRouter.cpp): one jitter buffer and
  decoder per synchronisation source. \<open>std::map\<close> is an association list sorted by its keys.
  \<^verbatim>\<open>tick\<close> runs in three phases: the locked walk over the streams, then decoding and the
  callbacks of the ready streams, then the removals; only the first and \<^verbatim>\<open>pushPacket\<close> take the lock.
\<close>

section \<open>The ordered map\<close>

fun put_sorted :: "'k::linorder \<Rightarrow> 'v \<Rightarrow> ('k \<times> 'v) list \<Rightarrow> ('k \<times> 'v) list" where
  "put_sorted k v [] = [(k, v)]"
| "put_sorted k v ((k', v') # r) =
     (if k < k' then (k, v) # (k', v') # r else if k = k' then (k, v) # r else (k', v') # put_sorted k v r)"

lemma put_sorted_map [simp]: "sorted (map fst al) \<Longrightarrow> map_of (put_sorted k v al) k' = (if k' = k then Some v else map_of al k')"
  by (induction k v al rule: put_sorted.induct) auto

lemma put_sorted_keys: "set (map fst (put_sorted k v al)) = insert k (set (map fst al))"
  by (induction k v al rule: put_sorted.induct) auto

lemma put_sorted_sorted: "sorted_wrt (<) (map fst al) \<Longrightarrow> sorted_wrt (<) (map fst (put_sorted k v al))"
proof (induction k v al rule: put_sorted.induct)
  case (2 k v k' v' r)
  then show ?case using put_sorted_keys [of k v r] by (auto simp del: set_map)
qed simp

section \<open>The router\<close>

record router_config =
  rt_videoPayloadType :: u8
  rt_audioPayloadType :: u8
  rt_targetDelay :: int
  rt_streamTimeout :: int

definition default_router_config :: router_config where
  "default_router_config = \<lparr>rt_videoPayloadType = 96, rt_audioPayloadType = 111,
     rt_targetDelay = 50 * 1000000, rt_streamTimeout = 3000 * 1000000\<rparr>"

record ('d, 'o) stream =
  st_video :: bool
  st_jitter :: jitter_buffer
  st_vdec :: "'d video_decoder option"
  st_adec :: "'o audio_decoder option"
  st_announced :: bool
  st_lastPacket :: steady_time

text \<open>The flags say whether a playback device and the callbacks were given.\<close>

record ('d, 'o) router =
  rr_cfg :: router_config
  rr_playback :: bool
  rr_onVideoFrame :: bool
  rr_onVideoStreamAdded :: bool
  rr_onVideoStreamRemoved :: bool
  rr_streams :: "(u32 \<times> ('d, 'o) stream) list"

definition new_router :: "router_config \<Rightarrow> bool \<Rightarrow> bool \<Rightarrow> bool \<Rightarrow> bool \<Rightarrow> ('d, 'o) router" where
  "new_router c playback onFrame onAdded onRemoved = \<lparr>rr_cfg = c, rr_playback = playback, rr_onVideoFrame = onFrame,
     rr_onVideoStreamAdded = onAdded, rr_onVideoStreamRemoved = onRemoved, rr_streams = []\<rparr>"

definition makeJbConfig :: "bool \<Rightarrow> int \<Rightarrow> jitter_config" where
  "makeJbConfig video delay = \<lparr>targetDelay = delay, jc_kind = (if video then Video else Audio), jc_videoCodec = H264,
     jc_audioCodec = Opus\<rparr>"

definition make_stream :: "'d av_decoder \<Rightarrow> 'o opus_decoder \<Rightarrow> router_config \<Rightarrow> rtp_packet \<Rightarrow> ('d, 'o) stream" where
  "make_stream vlib alib c pkt =
    (let isAudio = (payloadType pkt = rt_audioPayloadType c)
     in \<lparr>st_video = \<not> isAudio, st_jitter = new_jitter_buffer (makeJbConfig (\<not> isAudio) (rt_targetDelay c)),
         st_vdec = (if isAudio then None else Some (snd (vd_open vlib new_video_decoder))),
         st_adec = (if isAudio then Some (snd (adec_open alib \<lparr>sampleRateHz = 48000, channels = 1\<rparr> new_audio_decoder)) else None),
         st_announced = False, st_lastPacket = 0\<rparr>)"

definition rr_pushPacket :: "'d av_decoder \<Rightarrow> 'o opus_decoder \<Rightarrow> rtp_packet \<Rightarrow> steady_time \<Rightarrow> ('d, 'o) router \<Rightarrow> ('d, 'o) router" where
  "rr_pushPacket vlib alib pkt arrival r =
    (let s = (case map_of (rr_streams r) (ssrc pkt) of Some s \<Rightarrow> s | None \<Rightarrow> make_stream vlib alib (rr_cfg r) pkt);
         s = s\<lparr>st_lastPacket := arrival, st_jitter := snd (push (st_jitter s) pkt arrival)\<rparr>
     in r\<lparr>rr_streams := put_sorted (ssrc pkt) s (rr_streams r)\<rparr>)"

section \<open>tick\<close>

datatype router_event = Added u32 | Frame u32 video_frame | Enqueued audio_frame | Removed u32

record ready =
  rd_ssrc :: u32
  rd_video :: bool
  rd_announce :: bool
  rd_frames :: "encoded_frame list"

text \<open>Phase 1: the streams that stay, the ready ones and the announced video streams that were
  reaped.\<close>

definition is_idle :: "router_config \<Rightarrow> steady_time \<Rightarrow> ('d, 'o) stream \<Rightarrow> bool" where
  "is_idle c now s \<longleftrightarrow> rt_streamTimeout c < now - st_lastPacket s"

fun collect :: "router_config \<Rightarrow> steady_time \<Rightarrow> (u32 \<times> ('d, 'o) stream) list \<Rightarrow>
    (u32 \<times> ('d, 'o) stream) list \<times> ready list \<times> u32 list" where
  "collect c now [] = ([], [], [])"
| "collect c now ((k, s) # rest) =
    (let (ss, rs, dead) = collect c now rest in
     if is_idle c now s then (ss, rs, (if st_video s \<and> st_announced s then k # dead else dead))
     else let (gs, jb) = drain (st_jitter s) now;
              announce = (st_video s \<and> \<not> st_announced s \<and> gs \<noteq> []);
              s = s\<lparr>st_jitter := jb, st_announced := st_announced s \<or> announce\<rparr>
          in ((k, s) # ss,
              (if gs = [] then rs
               else \<lparr>rd_ssrc = k, rd_video = st_video s, rd_announce = announce, rd_frames = gs\<rparr> # rs), dead))"

text \<open>Phase 2 for one ready stream. The callbacks may keep frames, as in the pipeline.\<close>

fun router_events :: "u32 \<Rightarrow> frame_event list \<Rightarrow> router_event list" where
  "router_events k [] = []"
| "router_events k (VideoOut f # evs) = Frame k f # router_events k evs"
| "router_events k (AudioOut a # evs) = Enqueued a # router_events k evs"

definition deliver_ready :: "'d av_decoder \<Rightarrow> 'o opus_decoder \<Rightarrow> (u32 \<Rightarrow> video_frame \<Rightarrow> pool_heap \<Rightarrow> pool_heap) \<Rightarrow>
    (audio_frame \<Rightarrow> pool_heap \<Rightarrow> pool_heap) \<Rightarrow> ready \<Rightarrow> ('d, 'o) router \<Rightarrow> router_event list \<times> ('d, 'o) router" where
  "deliver_ready vlib alib vsink asink rd r = (case map_of (rr_streams r) (rd_ssrc rd) of
     None \<Rightarrow> ([], r)
   | Some s \<Rightarrow>
       if rd_video rd then
         let (evs, dec) = show_all (show_video vlib (if rr_onVideoFrame r then Some (vsink (rd_ssrc rd)) else None))
                            (rd_frames rd) (the (st_vdec s))
         in ((if rd_announce rd \<and> rr_onVideoStreamAdded r then [Added (rd_ssrc rd)] else []) @ router_events (rd_ssrc rd) evs,
             r\<lparr>rr_streams := put_sorted (rd_ssrc rd) (s\<lparr>st_vdec := Some dec\<rparr>) (rr_streams r)\<rparr>)
       else
         let (evs, dec) = show_all (play_audio alib (if rr_playback r then Some asink else None))
                            (rd_frames rd) (the (st_adec s))
         in (router_events (rd_ssrc rd) evs,
             r\<lparr>rr_streams := put_sorted (rd_ssrc rd) (s\<lparr>st_adec := Some dec\<rparr>) (rr_streams r)\<rparr>))"

fun deliver_readies :: "'d av_decoder \<Rightarrow> 'o opus_decoder \<Rightarrow> (u32 \<Rightarrow> video_frame \<Rightarrow> pool_heap \<Rightarrow> pool_heap) \<Rightarrow>
    (audio_frame \<Rightarrow> pool_heap \<Rightarrow> pool_heap) \<Rightarrow> ready list \<Rightarrow> ('d, 'o) router \<Rightarrow> router_event list \<times> ('d, 'o) router" where
  "deliver_readies vlib alib vsink asink [] r = ([], r)"
| "deliver_readies vlib alib vsink asink (rd # rs) r =
     (let (evs, r) = deliver_ready vlib alib vsink asink rd r; (evs', r) = deliver_readies vlib alib vsink asink rs r
      in (evs @ evs', r))"

definition rr_tick :: "'d av_decoder \<Rightarrow> 'o opus_decoder \<Rightarrow> (u32 \<Rightarrow> video_frame \<Rightarrow> pool_heap \<Rightarrow> pool_heap) \<Rightarrow>
    (audio_frame \<Rightarrow> pool_heap \<Rightarrow> pool_heap) \<Rightarrow> steady_time \<Rightarrow> ('d, 'o) router \<Rightarrow> router_event list \<times> ('d, 'o) router" where
  "rr_tick vlib alib vsink asink now r =
    (let (ss, rs, dead) = collect (rr_cfg r) now (rr_streams r);
         (evs, r) = deliver_readies vlib alib vsink asink rs (r\<lparr>rr_streams := ss\<rparr>)
     in (evs @ (if rr_onVideoStreamRemoved r then map Removed dead else []), r))"

section \<open>The life of a stream\<close>

text \<open>A run of the router: arrivals on the transport thread and ticks of the render thread.\<close>

datatype router_step = RPush rtp_packet steady_time | RTick steady_time

fun router_run :: "'d av_decoder \<Rightarrow> 'o opus_decoder \<Rightarrow> (u32 \<Rightarrow> video_frame \<Rightarrow> pool_heap \<Rightarrow> pool_heap) \<Rightarrow>
    (audio_frame \<Rightarrow> pool_heap \<Rightarrow> pool_heap) \<Rightarrow> router_step list \<Rightarrow> ('d, 'o) router \<Rightarrow> router_event list \<times> ('d, 'o) router" where
  "router_run vlib alib vsink asink [] r = ([], r)"
| "router_run vlib alib vsink asink (RPush p t # steps) r =
     router_run vlib alib vsink asink steps (rr_pushPacket vlib alib p t r)"
| "router_run vlib alib vsink asink (RTick now # steps) r =
     (let (evs, r) = rr_tick vlib alib vsink asink now r; (evs', r) = router_run vlib alib vsink asink steps r
      in (evs @ evs', r))"

text \<open>What a listener expects of the callbacks for one source: announced before its frames, and
  removed only while announced; \<open>None\<close> is a violation.\<close>

fun life :: "u32 \<Rightarrow> bool \<Rightarrow> router_event list \<Rightarrow> bool option" where
  "life k live [] = Some live"
| "life k live (Added k' # evs) = (if k' = k then (if live then None else life k True evs) else life k live evs)"
| "life k live (Frame k' f # evs) = (if k' = k \<and> \<not> live then None else life k live evs)"
| "life k live (Removed k' # evs) = (if k' = k then (if live then life k False evs else None) else life k live evs)"
| "life k live (Enqueued a # evs) = life k live evs"

lemma life_append: "life k live (es @ es') = (case life k live es of None \<Rightarrow> None | Some l \<Rightarrow> life k l es')"
  by (induction k live es rule: life.induct) auto

definition announced :: "u32 \<Rightarrow> (u32 \<times> ('d, 'o) stream) list \<Rightarrow> bool" where
  "announced k ss \<longleftrightarrow> (case map_of ss k of None \<Rightarrow> False | Some s \<Rightarrow> st_announced s)"

definition stream_ok :: "('d, 'o) stream \<Rightarrow> bool" where
  "stream_ok s \<longleftrightarrow> (st_announced s \<longrightarrow> st_video s) \<and> (st_vdec s \<noteq> None \<longleftrightarrow> st_video s) \<and> (st_adec s \<noteq> None \<longleftrightarrow> \<not> st_video s)"

definition router_ok :: "('d, 'o) router \<Rightarrow> bool" where
  "router_ok r \<longleftrightarrow> sorted_wrt (<) (map fst (rr_streams r)) \<and>
     (\<forall>(k, s)\<in>set (rr_streams r). stream_ok s)"


text \<open>Everything of the streams but their decoders.\<close>

definition core :: "(u32 \<times> ('d, 'o) stream) list \<Rightarrow> (u32 \<times> bool \<times> bool \<times> jitter_buffer \<times> steady_time) list" where
  "core ss = map (\<lambda>(k, s). (k, st_video s, st_announced s, st_jitter s, st_lastPacket s)) ss"

lemma core_keys: "map fst (core ss) = map fst ss"
  by (auto simp: core_def)

lemma core_map: "map_of (core ss) k = map_option (\<lambda>s. (st_video s, st_announced s, st_jitter s, st_lastPacket s)) (map_of ss k)"
  by (induction ss) (auto simp: core_def)

lemma announced_core: "announced k ss \<longleftrightarrow> (case map_of (core ss) k of None \<Rightarrow> False | Some (v, a, j, t) \<Rightarrow> a)"
  by (auto simp: announced_def core_map split: option.splits)

lemma core_put:
  assumes "sorted_wrt (<) (map fst ss)" "map_of ss k = Some s" "st_video s' = st_video s" "st_announced s' = st_announced s"
    "st_jitter s' = st_jitter s" "st_lastPacket s' = st_lastPacket s"
  shows "core (put_sorted k s' ss) = core ss"
  using assms
proof (induction k s' ss rule: put_sorted.induct)
  case (2 k v k' v' r)
  have "k \<in> fst ` set r" if "k \<noteq> k'" using 2(3) that by (force dest: map_of_SomeD)
  then have "\<not> k < k'" using 2(2) by force
  then show ?case using 2 by (auto simp: core_def split: if_splits)
qed simp

lemma put_sorted_mem:
  "sorted_wrt (<) (map fst al) \<Longrightarrow> (k', v') \<in> set (put_sorted k v al) \<Longrightarrow> (k' = k \<and> v' = v) \<or> (k', v') \<in> set al"
  by (induction k v al rule: put_sorted.induct) (auto split: if_splits)

text \<open>Delivery changes decoders only.\<close>

definition serves :: "('d, 'o) router \<Rightarrow> ready \<Rightarrow> bool" where
  "serves r rd \<longleftrightarrow> (\<exists>s. map_of (rr_streams r) (rd_ssrc rd) = Some s \<and> st_video s = rd_video rd)"

lemma serves_core: "serves r rd \<longleftrightarrow> (\<exists>a j t. map_of (core (rr_streams r)) (rd_ssrc rd) = Some (rd_video rd, a, j, t))"
  by (auto simp: serves_def core_map)

lemma deliver_ready_core:
  assumes "router_ok r" "serves r rd" "deliver_ready vlib alib vsink asink rd r = (evs, r')"
  shows "core (rr_streams r') = core (rr_streams r) \<and> router_ok r' \<and> rr_cfg r' = rr_cfg r \<and>
    rr_onVideoStreamAdded r' = rr_onVideoStreamAdded r \<and> rr_onVideoStreamRemoved r' = rr_onVideoStreamRemoved r"
proof -
  obtain s where s: "map_of (rr_streams r) (rd_ssrc rd) = Some s" "st_video s = rd_video rd"
    using assms(2) by (auto simp: serves_def)
  have srt: "sorted_wrt (<) (map fst (rr_streams r))" using assms(1) by (simp add: router_ok_def)
  have in_s: "(rd_ssrc rd, s) \<in> set (rr_streams r)" using s(1) by (rule map_of_SomeD)
  obtain s' where s': "r' = r\<lparr>rr_streams := put_sorted (rd_ssrc rd) s' (rr_streams r)\<rparr>"
    "s' = s\<lparr>st_vdec := st_vdec s'\<rparr> \<and> rd_video rd \<and> st_vdec s' \<noteq> None \<or> s' = s\<lparr>st_adec := st_adec s'\<rparr> \<and> \<not> rd_video rd \<and> st_adec s' \<noteq> None"
    using assms(3) s(1) by (auto simp: deliver_ready_def Let_def split: if_splits prod.splits)
  have f: "st_video s' = st_video s" "st_announced s' = st_announced s" "st_jitter s' = st_jitter s" "st_lastPacket s' = st_lastPacket s"
    using s'(2) by (auto dest: arg_cong [of _ _ st_video] arg_cong [of _ _ st_announced] arg_cong [of _ _ st_jitter] arg_cong [of _ _ st_lastPacket])
  have d: "st_adec s' = st_adec s \<and> st_vdec s' \<noteq> None \<or> st_vdec s' = st_vdec s \<and> st_adec s' \<noteq> None"
    using s'(2) by (auto dest: arg_cong [of _ _ st_adec] arg_cong [of _ _ st_vdec])
  have "core (rr_streams r') = core (rr_streams r)" using core_put [OF srt s(1) f] s'(1) by simp
  moreover have "router_ok r'"
    unfolding router_ok_def
  proof (intro conjI ballI)
    show "sorted_wrt (<) (map fst (rr_streams r'))" using put_sorted_sorted [OF srt] s'(1) by simp
    have old: "stream_ok t" if "(k, t) \<in> set (rr_streams r)" for k t using assms(1) that by (auto simp: router_ok_def)
    have new: "stream_ok s'" using old [OF in_s] d f s' s(2) by (auto simp: stream_ok_def)
    show "case kt of (k, t) \<Rightarrow> stream_ok t" if "kt \<in> set (rr_streams r')" for kt
      using put_sorted_mem [OF srt, of "fst kt" "snd kt"] that s'(1) old new by (cases kt) auto
  qed
  ultimately show ?thesis using s'(1) by simp
qed

lemma deliver_readies_core:
  assumes "router_ok r" "\<forall>rd\<in>set rs. serves r rd" "deliver_readies vlib alib vsink asink rs r = (evs, r')"
  shows "core (rr_streams r') = core (rr_streams r) \<and> router_ok r' \<and> rr_cfg r' = rr_cfg r \<and>
    rr_onVideoStreamAdded r' = rr_onVideoStreamAdded r \<and> rr_onVideoStreamRemoved r' = rr_onVideoStreamRemoved r"
  using assms
proof (induction rs arbitrary: r evs)
  case (Cons rd rs)
  obtain e1 r1 where d: "deliver_ready vlib alib vsink asink rd r = (e1, r1)" by force
  obtain e2 where rest: "deliver_readies vlib alib vsink asink rs r1 = (e2, r')" using Cons.prems(3) d by (auto split: prod.splits)
  have srv: "serves r rd" using Cons.prems(2) by simp
  note c = deliver_ready_core [OF Cons.prems(1) srv d]
  then have "\<forall>rd\<in>set rs. serves r1 rd" using Cons.prems(2) by (simp add: serves_core)
  from Cons.IH [OF _ this rest] c show ?case by simp
qed simp

text \<open>Phase 1.\<close>

lemma collect_cases:
  assumes "collect c now ((k, s) # al) = (ss, rs, dead)" "collect c now al = (ss', rs', dead')"
  obtains (idle) "is_idle c now s" "ss = ss'" "rs = rs'" "dead = (if st_video s \<and> st_announced s then k # dead' else dead')"
  | (stays) s' gs where "\<not> is_idle c now s" "dead = dead'" "ss = (k, s') # ss'"
      "rs = (if gs = [] then rs' else \<lparr>rd_ssrc = k, rd_video = st_video s,
        rd_announce = st_video s \<and> \<not> st_announced s, rd_frames = gs\<rparr> # rs')"
      "gs = fst (drain (st_jitter s) now)" "pop (st_jitter s') now = (None, st_jitter s')"
      "st_video s' = st_video s" "st_announced s' \<longleftrightarrow> st_announced s \<or> st_video s \<and> gs \<noteq> []"
      "st_lastPacket s' = st_lastPacket s" "st_vdec s' = st_vdec s" "st_adec s' = st_adec s"
proof (cases "is_idle c now s")
  case True
  then show ?thesis using assms idle by (auto simp: Let_def)
next
  case False
  obtain gs jb where d: "drain (st_jitter s) now = (gs, jb)" by force
  show ?thesis
    by (rule stays [of "s\<lparr>st_jitter := jb, st_announced := st_announced s \<or> st_video s \<and> \<not> st_announced s \<and> gs \<noteq> []\<rparr>" gs])
      (use assms False d drain_done [OF d] in \<open>auto simp: Let_def\<close>)
qed

lemma collect_keys:
  assumes "collect c now al = (ss, rs, dead)"
  shows "fst ` set ss \<subseteq> fst ` set al \<and> set dead \<subseteq> fst ` set al \<and> rd_ssrc ` set rs \<subseteq> fst ` set ss"
  using assms
proof (induction al arbitrary: ss rs dead)
  case (Cons ks al)
  obtain k s where ks: "ks = (k, s)" by force
  obtain ss' rs' dead' where c: "collect c now al = (ss', rs', dead')" by (rule prod_cases3)
  note IH = Cons.IH [OF c]
  show ?case
    using Cons.prems [unfolded ks] c
  proof (cases rule: collect_cases)
    case idle
    then show ?thesis using IH ks by simp blast
  next
    case (stays s' gs)
    then show ?thesis using IH ks by simp blast
  qed
qed simp

lemma collect_ok:
  assumes "collect c now al = (ss, rs, dead)" "sorted_wrt (<) (map fst al)" "\<forall>(k, s)\<in>set al. stream_ok s"
  shows "sorted_wrt (<) (map fst ss) \<and>
    (\<forall>(k, s)\<in>set ss. stream_ok s \<and> pop (st_jitter s) now = (None, st_jitter s) \<and> \<not> is_idle c now s) \<and>
    (\<forall>rd\<in>set rs. \<exists>s. map_of ss (rd_ssrc rd) = Some s \<and> st_video s = rd_video rd) \<and>
    distinct (map rd_ssrc rs) \<and> distinct dead \<and> set dead \<inter> fst ` set ss = {}"
  using assms
proof (induction al arbitrary: ss rs dead)
  case (Cons ks al)
  obtain k s where ks: "ks = (k, s)" by force
  obtain ss' rs' dead' where c: "collect c now al = (ss', rs', dead')" by (rule prod_cases3)
  have IH: "sorted_wrt (<) (map fst ss')"
    "\<forall>(k, s)\<in>set ss'. stream_ok s \<and> pop (st_jitter s) now = (None, st_jitter s) \<and> \<not> is_idle c now s"
    "\<forall>rd\<in>set rs'. \<exists>s. map_of ss' (rd_ssrc rd) = Some s \<and> st_video s = rd_video rd"
    "distinct (map rd_ssrc rs')" "distinct dead'" "set dead' \<inter> fst ` set ss' = {}"
    using Cons.IH [OF c] Cons.prems(2,3) by auto
  note keys = collect_keys [OF c]
  have above: "\<forall>x\<in>fst ` set al. k < x" using Cons.prems(2) ks by auto
  then have k: "k \<notin> fst ` set ss'" "k \<notin> set dead'" "k \<notin> rd_ssrc ` set rs'" "\<forall>x\<in>fst ` set ss'. k < x"
    using keys by blast+
  show ?case
    using Cons.prems(1) [unfolded ks] c
  proof (cases rule: collect_cases)
    case idle
    then show ?thesis using IH k by auto
  next
    case (stays s' gs)
    have s': "stream_ok s'" "\<not> is_idle c now s'"
      using Cons.prems(3) stays by (auto simp: stream_ok_def is_idle_def ks)
    have m: "\<forall>rd\<in>set rs'. \<exists>s. map_of ((k, s') # ss') (rd_ssrc rd) = Some s \<and> st_video s = rd_video rd"
      using IH(3) k(3) by auto
    show ?thesis using IH k s' stays(6,7) m unfolding stays(2-4) by auto
  qed
qed simp


section \<open>Callbacks follow the life of the streams\<close>

lemma life_events_other: "k' \<noteq> k \<Longrightarrow> life k l (router_events k' evs) = Some l"
  by (induction evs rule: shown_frames.induct) auto

lemma life_events_live: "life k True (router_events k evs) = Some True"
  by (induction evs rule: shown_frames.induct) auto

lemma life_events_audio: "shown_frames evs = [] \<Longrightarrow> life k l (router_events k' evs) = Some l"
  by (induction evs rule: shown_frames.induct) auto

definition fits_life :: "u32 \<Rightarrow> bool \<Rightarrow> ready \<Rightarrow> bool" where
  "fits_life k l rd \<longleftrightarrow> rd_ssrc rd \<noteq> k \<or> (rd_announce rd \<longrightarrow> rd_video rd) \<and> (rd_video rd \<longrightarrow> (rd_announce rd \<longleftrightarrow> \<not> l))"

lemma deliver_ready_life:
  assumes "serves r rd" "rr_onVideoStreamAdded r" "fits_life k l rd"
  shows "life k l (fst (deliver_ready vlib alib vsink asink rd r)) = Some (l \<or> rd_ssrc rd = k \<and> rd_video rd)"
proof -
  obtain s where s: "map_of (rr_streams r) (rd_ssrc rd) = Some s" using assms(1) by (auto simp: serves_def)
  show ?thesis
  proof (cases "rd_video rd")
    case True
    then show ?thesis
      using s assms(2,3) life_events_live [of k] life_events_other [of "rd_ssrc rd" k]
      by (auto simp: deliver_ready_def Let_def fits_life_def life_append split: prod.splits)
  next
    case False
    obtain evs dec where e: "show_all (play_audio alib (if rr_playback r then Some asink else None)) (rd_frames rd) (the (st_adec s)) = (evs, dec)"
      by force
    then have "shown_frames evs = []" using show_all_audio by (metis fst_conv)
    then show ?thesis using False s e life_events_audio by (simp add: deliver_ready_def)
  qed
qed

lemma deliver_readies_life:
  assumes "router_ok r" "\<forall>rd\<in>set rs. serves r rd \<and> fits_life k l rd" "rr_onVideoStreamAdded r" "distinct (map rd_ssrc rs)"
  shows "life k l (fst (deliver_readies vlib alib vsink asink rs r)) = Some (l \<or> (\<exists>rd\<in>set rs. rd_ssrc rd = k \<and> rd_video rd))"
  using assms
proof (induction rs arbitrary: r l)
  case (Cons rd rs)
  obtain e1 r1 where d: "deliver_ready vlib alib vsink asink rd r = (e1, r1)" by force
  obtain e2 r2 where rest: "deliver_readies vlib alib vsink asink rs r1 = (e2, r2)" by force
  let ?l = "l \<or> rd_ssrc rd = k \<and> rd_video rd"
  have srv: "serves r rd" "fits_life k l rd" using Cons.prems(2) by simp_all
  note c = deliver_ready_core [OF Cons.prems(1) srv(1) d]
  have "fits_life k ?l x" if "x \<in> set rs" for x
  proof (cases "rd_ssrc rd = k")
    case True
    have "rd_ssrc rd \<notin> rd_ssrc ` set rs" using Cons.prems(4) by simp
    then have "rd_ssrc x \<noteq> k" using True that by blast
    then show ?thesis by (simp add: fits_life_def)
  qed (use that Cons.prems(2) in simp)
  moreover have "serves r1 x" if "x \<in> set rs" for x using that Cons.prems(2) c by (simp add: serves_core)
  ultimately have "life k ?l e2 = Some (?l \<or> (\<exists>rd\<in>set rs. rd_ssrc rd = k \<and> rd_video rd))"
    using Cons.IH [of r1 ?l] Cons.prems(3,4) c rest by simp
  then show ?case
    using deliver_ready_life [OF srv(1) Cons.prems(3) srv(2), of vlib alib vsink asink] d rest by (auto simp: life_append)
qed simp

lemma life_removed:
  "distinct dead \<Longrightarrow> (k \<in> set dead \<Longrightarrow> l) \<Longrightarrow> life k l (map Removed dead) = Some (l \<and> k \<notin> set dead)"
proof (induction dead arbitrary: l)
  case (Cons x dead)
  have "life k False (map Removed dead) = Some False" if "k \<notin> set dead"
    using that Cons.IH [of False] Cons.prems(1) by simp
  then show ?case using Cons by (cases "x = k") auto
qed simp

lemma announced_Cons: "announced k ((k', s) # ss) \<longleftrightarrow> (if k = k' then st_announced s else announced k ss)"
  by (simp add: announced_def)

lemma announced_absent: "k \<notin> fst ` set ss \<Longrightarrow> \<not> announced k ss"
  by (simp add: announced_def map_of_None_iff [symmetric])

lemma collect_life:
  assumes "collect c now al = (ss, rs, dead)" "sorted_wrt (<) (map fst al)" "\<forall>(k, s)\<in>set al. stream_ok s"
  shows "(\<forall>rd\<in>set rs. fits_life k (announced k al) rd) \<and> (k \<in> set dead \<longrightarrow> announced k al) \<and>
    (announced k ss \<longleftrightarrow> announced k al \<and> k \<notin> set dead \<or> (\<exists>rd\<in>set rs. rd_ssrc rd = k \<and> rd_video rd))"
  using assms
proof (induction al arbitrary: ss rs dead)
  case Nil
  then show ?case by (simp add: announced_def)
next
  case (Cons ks al)
  obtain k' s where ks: "ks = (k', s)" by force
  obtain ss' rs' dead' where c: "collect c now al = (ss', rs', dead')" by (rule prod_cases3)
  have IH: "\<forall>rd\<in>set rs'. fits_life k (announced k al) rd" "k \<in> set dead' \<longrightarrow> announced k al"
    "announced k ss' \<longleftrightarrow> announced k al \<and> k \<notin> set dead' \<or> (\<exists>rd\<in>set rs'. rd_ssrc rd = k \<and> rd_video rd)"
    using Cons.IH [OF c] Cons.prems(2,3) by auto
  note keys = collect_keys [OF c]
  have "k' \<notin> fst ` set al" using Cons.prems(2) ks by auto
  then have k': "k' \<notin> fst ` set al" "k' \<notin> set dead'" "k' \<notin> rd_ssrc ` set rs'" "k' \<notin> fst ` set ss'" using keys by blast+
  have other: "\<forall>rd\<in>set rs'. fits_life k l rd" "\<not> (\<exists>rd\<in>set rs'. rd_ssrc rd = k \<and> rd_video rd)" if "k = k'" for l
    using k'(3) that by (auto simp: fits_life_def image_iff)
  have sok: "st_announced s \<longrightarrow> st_video s" using Cons.prems(3) ks by (simp add: stream_ok_def)
  show ?case
    using Cons.prems(1) [unfolded ks] c
  proof (cases rule: collect_cases)
    case idle
    then show ?thesis
      using IH other k' sok announced_absent [of k' ss'] by (cases "k = k'") (auto simp: ks announced_Cons)
  next
    case (stays s' gs)
    have new: "fits_life k (st_announced s) \<lparr>rd_ssrc = k', rd_video = st_video s,
        rd_announce = st_video s \<and> \<not> st_announced s, rd_frames = gs\<rparr>"
      using sok by (auto simp: fits_life_def)
    show ?thesis
    proof (cases "k = k'")
      case True
      have a: "announced k (ks # al) = st_announced s" "announced k ss = st_announced s'" "k \<notin> set dead"
        using True k'(2) stays(2,3) by (simp_all add: ks announced_Cons)
      show ?thesis unfolding a(1,2) using a(3) other [OF True] new stays(8) sok True by (auto simp: stays(4))
    next
      case False
      have a: "announced k (ks # al) = announced k al" "announced k ss = announced k ss'" "dead = dead'"
        using False stays(2,3) by (simp_all add: ks announced_Cons)
      show ?thesis unfolding a using IH False by (auto simp: stays(4) fits_life_def)
    qed
  qed
qed

text \<open>One tick.\<close>

lemma tick_effect:
  assumes "router_ok r" "rr_onVideoStreamAdded r" "rr_onVideoStreamRemoved r" "rr_tick vlib alib vsink asink now r = (evs, r')"
  shows "life k (announced k (rr_streams r)) evs = Some (announced k (rr_streams r')) \<and> router_ok r' \<and>
    rr_onVideoStreamAdded r' \<and> rr_onVideoStreamRemoved r' \<and> rr_cfg r' = rr_cfg r \<and>
    list_all (\<lambda>(k, s). pop (st_jitter s) now = (None, st_jitter s) \<and> \<not> is_idle (rr_cfg r) now s) (rr_streams r')"
proof -
  obtain ss rs dead where c: "collect (rr_cfg r) now (rr_streams r) = (ss, rs, dead)" by (rule prod_cases3)
  have r: "sorted_wrt (<) (map fst (rr_streams r))" "\<forall>(k, s)\<in>set (rr_streams r). stream_ok s"
    using assms(1) by (auto simp: router_ok_def)
  note ok = collect_ok [OF c r] and lf = collect_life [OF c r, of k] and keys = collect_keys [OF c]
  let ?r = "r\<lparr>rr_streams := ss\<rparr>"
  obtain es r1 where d: "deliver_readies vlib alib vsink asink rs ?r = (es, r1)" by force
  have rok: "router_ok ?r" using ok by (auto simp: router_ok_def)
  have srv: "\<forall>rd\<in>set rs. serves ?r rd" using ok by (auto simp: serves_def)
  note core = deliver_readies_core [OF rok srv d]
  have e: "evs = es @ map Removed dead" "r' = r1" using assms(3,4) c d core by (auto simp: rr_tick_def)
  have l1: "life k (announced k (rr_streams r)) es =
      Some (announced k (rr_streams r) \<or> (\<exists>rd\<in>set rs. rd_ssrc rd = k \<and> rd_video rd))"
    using deliver_readies_life [OF rok, of rs k "announced k (rr_streams r)" vlib alib vsink asink] srv lf ok assms(2) d by simp
  have notboth: "\<not> (\<exists>rd\<in>set rs. rd_ssrc rd = k \<and> rd_video rd)" if "k \<in> set dead"
  proof -
    have "rd_ssrc ` set rs \<subseteq> fst ` set ss" "set dead \<inter> fst ` set ss = {}" using keys ok by simp_all
    then show ?thesis using that by blast
  qed
  have "life k (announced k (rr_streams r)) evs = Some (announced k ss)"
    unfolding e life_append l1 option.case using life_removed [of dead k] lf ok notboth by (cases "k \<in> set dead") auto
  moreover have "announced k (rr_streams r1) = announced k ss" using core by (simp add: announced_core)
  moreover have "list_all (\<lambda>(k, s). pop (st_jitter s) now = (None, st_jitter s) \<and> \<not> is_idle (rr_cfg r) now s) (rr_streams r1)"
  proof -
    have "list_all (\<lambda>(k, v, a, j, t). pop j now = (None, j) \<and> \<not> rt_streamTimeout (rr_cfg r) < now - t) (core ss)"
      using ok by (auto simp: list_all_iff core_def is_idle_def)
    then have "list_all (\<lambda>(k, v, a, j, t). pop j now = (None, j) \<and> \<not> rt_streamTimeout (rr_cfg r) < now - t) (core (rr_streams r1))"
      using core by simp
    then show ?thesis by (auto simp: list_all_iff core_def is_idle_def)
  qed
  ultimately show ?thesis using core assms(2,3) e by simp
qed

lemma vd_open_make: "stream_ok (make_stream vlib alib c pkt)"
  by (simp add: stream_ok_def make_stream_def Let_def)

lemma push_effect:
  assumes "router_ok r"
  shows "router_ok (rr_pushPacket vlib alib p t r) \<and>
    announced k (rr_streams (rr_pushPacket vlib alib p t r)) = announced k (rr_streams r) \<and>
    rr_onVideoStreamAdded (rr_pushPacket vlib alib p t r) = rr_onVideoStreamAdded r \<and>
    rr_onVideoStreamRemoved (rr_pushPacket vlib alib p t r) = rr_onVideoStreamRemoved r \<and>
    rr_cfg (rr_pushPacket vlib alib p t r) = rr_cfg r"
proof -
  define s where "s = (case map_of (rr_streams r) (ssrc p) of Some s \<Rightarrow> s | None \<Rightarrow> make_stream vlib alib (rr_cfg r) p)"
  define s' where "s' = s\<lparr>st_lastPacket := t, st_jitter := snd (push (st_jitter s) p t)\<rparr>"
  have p: "rr_pushPacket vlib alib p t r = r\<lparr>rr_streams := put_sorted (ssrc p) s' (rr_streams r)\<rparr>"
    by (simp add: rr_pushPacket_def s_def s'_def Let_def)
  have srt: "sorted_wrt (<) (map fst (rr_streams r))" "\<forall>(k, s)\<in>set (rr_streams r). stream_ok s"
    using assms by (auto simp: router_ok_def)
  have "stream_ok s" using srt(2) vd_open_make by (auto simp: s_def dest: map_of_SomeD split: option.splits)
  then have "stream_ok s'" "st_announced s' = st_announced s" by (simp_all add: s'_def stream_ok_def)
  moreover have "announced (ssrc p) (rr_streams r) = st_announced s"
    by (simp add: announced_def s_def make_stream_def Let_def split: option.splits)
  moreover have "stream_ok x" if "(k, x) \<in> set (put_sorted (ssrc p) s' (rr_streams r))" for k x
    using put_sorted_mem [OF srt(1) that] srt(2) \<open>stream_ok s'\<close> by auto
  ultimately show ?thesis
    unfolding p using put_sorted_sorted [OF srt(1)] srt
    by (auto simp: router_ok_def announced_def strict_sorted_imp_sorted)
qed

lemma run_effect:
  assumes "router_ok r" "rr_onVideoStreamAdded r" "rr_onVideoStreamRemoved r" "router_run vlib alib vsink asink steps r = (evs, r')"
  shows "life k (announced k (rr_streams r)) evs = Some (announced k (rr_streams r')) \<and> router_ok r' \<and>
    rr_onVideoStreamAdded r' \<and> rr_onVideoStreamRemoved r' \<and> rr_cfg r' = rr_cfg r"
  using assms
proof (induction vlib alib vsink asink steps r arbitrary: evs rule: router_run.induct)
  case (2 vlib alib vsink asink p t steps r)
  show ?case using 2(1) [of evs] push_effect [OF 2(2), of vlib alib p t] 2(3-5) by simp
next
  case (3 vlib alib vsink asink now steps r)
  obtain e1 r1 where t: "rr_tick vlib alib vsink asink now r = (e1, r1)" by force
  obtain e2 where rest: "router_run vlib alib vsink asink steps r1 = (e2, r')" "evs = e1 @ e2"
    using 3(5) t by (auto split: prod.splits)
  note eff = tick_effect [OF 3(2-4) t]
  show ?case using 3(1) [OF t [symmetric] refl, of e2] eff rest by (simp add: life_append)
qed simp

lemma new_router_ok: "router_ok (new_router c pb onF onA onR)" "\<not> announced k (rr_streams (new_router c pb onF onA onR))"
  by (simp_all add: router_ok_def new_router_def announced_def)

lemma new_router_flags: "rr_onVideoStreamAdded (new_router c pb onF True onR)" "rr_onVideoStreamRemoved (new_router c pb onF onA True)"
  "rr_cfg (new_router c pb onF onA onR) = c"
  by (simp_all add: new_router_def)

text \<open>C18. Stream callbacks follow a strict protocol: over any run of packet arrivals and ticks,
  whatever the packets, losses, codecs and timings, and for every source, the stream is announced
  before its first picture, never announced twice without a removal in between, pictures come only
  while it is announced, and a removal only ends an announced stream; at the end the listener
  considers alive exactly the streams the router holds as announced.\<close>

theorem stream_callbacks:
  "life k False (fst (router_run vlib alib vsink asink steps (new_router c playback onFrame True True))) =
     Some (announced k (rr_streams (snd (router_run vlib alib vsink asink steps (new_router c playback onFrame True True)))))"
proof -
  obtain evs r where r: "router_run vlib alib vsink asink steps (new_router c playback onFrame True True) = (evs, r)" by force
  show ?thesis
    using run_effect [OF new_router_ok(1) new_router_flags(1,2) r, of k] by (simp add: r new_router_ok(2))
qed

text \<open>C19. A tick ends and leaves nothing behind: after a tick at \<open>now\<close> in any run, no stream of
  the router has a frame that is due, and every stream that has been silent longer than the timeout is
  gone.\<close>

theorem tick_drains:
  "list_all (\<lambda>(k, s). fst (pop (st_jitter s) now) = None \<and> now - st_lastPacket s \<le> rt_streamTimeout c)
     (rr_streams (snd (rr_tick vlib alib vsink asink now (snd (router_run vlib alib vsink asink steps (new_router c playback onFrame True True))))))"
proof -
  obtain evs r where r: "router_run vlib alib vsink asink steps (new_router c playback onFrame True True) = (evs, r)" by force
  have e: "router_ok r" "rr_onVideoStreamAdded r" "rr_onVideoStreamRemoved r" "rr_cfg r = c"
    using run_effect [OF new_router_ok(1) new_router_flags(1,2) r, of 0] by (simp_all add: new_router_flags(3))
  obtain es r' where t: "rr_tick vlib alib vsink asink now r = (es, r')" by force
  show ?thesis using tick_effect [OF e(1-3) t, of 0] e(4) by (auto simp: r t list_all_iff is_idle_def)
qed

end
