(* ===== verification/Call_Window.thy ===== *)
theory Call_Window
  imports Codec Registry
begin

text \<open>
  The call window: the tile grid and the controls of src/src/ui/MainWindow.cpp.
  A widget is a number, a method of a Qt object the
  code calls is an entry of the returned list of calls, and a signal an event.
\<close>

section \<open>MainWindow\<close>

datatype layout_call = RemoveWidget nat | AddWidget nat nat nat | ColumnStretch nat nat | RowStretch nat nat

datatype window_signal = MicToggled bool | CameraToggled bool | LeaveRequested

record window =
  win_tiles :: "(string \<times> nat) list"
  win_nextWidget :: nat
  win_deleted :: "nat list"
  win_muteText :: string
  win_cameraText :: string
  win_muted :: bool
  win_cameraOff :: bool

definition kMaxTiles :: nat where
  "kMaxTiles = 8"

definition new_window :: window where
  "new_window = \<lparr>win_tiles = [], win_nextWidget = 0, win_deleted = [], win_muteText = ''Mute'',
     win_cameraText = ''Camera Off'', win_muted = False, win_cameraOff = False\<rparr>"

definition tile :: "string \<Rightarrow> window \<Rightarrow> nat option" where
  "tile i w = map_option snd (find (\<lambda>t. fst t = i) (win_tiles w))"

definition win_participantCount :: "window \<Rightarrow> nat" where
  "win_participantCount w = length (win_tiles w)"

text \<open>Rows and columns of \<^verbatim>\<open>relayout\<close> for \<open>n\<close> tiles.\<close>

definition grid_shape :: "nat \<Rightarrow> nat \<times> nat" where
  "grid_shape n = (if n \<le> 1 then (1, 1) else if n = 2 then (1, 2) else if n \<le> 4 then (2, 2)
     else if n \<le> 6 then (2, 3) else (2, 4))"

definition relayout :: "(string \<times> nat) list \<Rightarrow> layout_call list" where
  "relayout tiles =
    (let n = length tiles; (rows, cols) = grid_shape n in
     map (\<lambda>t. RemoveWidget (snd t)) tiles @
     map (\<lambda>c. ColumnStretch c 0) [0..<8] @ map (\<lambda>r. RowStretch r 0) [0..<8] @
     map (\<lambda>i. AddWidget (snd (tiles ! i)) (i div cols) (i mod cols)) [0..<n] @
     map (\<lambda>c. ColumnStretch c 1) [0..<cols] @ map (\<lambda>r. RowStretch r 1) [0..<rows])"

definition win_addParticipant :: "string \<Rightarrow> window \<Rightarrow> nat option \<times> layout_call list \<times> window" where
  "win_addParticipant i w = (case tile i w of
     Some existing \<Rightarrow> (Some existing, [], w)
   | None \<Rightarrow>
       if length (win_tiles w) \<ge> kMaxTiles then (None, [], w)
       else let widget = win_nextWidget w; tiles = win_tiles w @ [(i, widget)]
            in (Some widget, relayout tiles, w\<lparr>win_tiles := tiles, win_nextWidget := widget + 1\<rparr>))"

text \<open>\<^verbatim>\<open>erase\<close> removes the tile found, the first with the id.\<close>

fun remove_tile :: "string \<Rightarrow> (string \<times> nat) list \<Rightarrow> (string \<times> nat) list" where
  "remove_tile i [] = []"
| "remove_tile i (t # ts) = (if fst t = i then ts else t # remove_tile i ts)"

definition win_removeParticipant :: "string \<Rightarrow> window \<Rightarrow> layout_call list \<times> window" where
  "win_removeParticipant i w = (case tile i w of
     None \<Rightarrow> ([], w)
   | Some widget \<Rightarrow>
       let tiles = remove_tile i (win_tiles w)
       in (RemoveWidget widget # relayout tiles, w\<lparr>win_tiles := tiles, win_deleted := widget # win_deleted w\<rparr>))"

definition toggle_mute :: "bool \<Rightarrow> window \<Rightarrow> window_signal list \<times> window" where
  "toggle_mute checked w =
    ([MicToggled checked], w\<lparr>win_muted := checked, win_muteText := (if checked then ''Unmute'' else ''Mute'')\<rparr>)"

definition toggle_camera :: "bool \<Rightarrow> window \<Rightarrow> window_signal list \<times> window" where
  "toggle_camera checked w =
    ([CameraToggled checked], w\<lparr>win_cameraOff := checked, win_cameraText := (if checked then ''Camera On'' else ''Camera Off'')\<rparr>)"

definition click_leave :: "window \<Rightarrow> window_signal list \<times> window" where
  "click_leave w = ([LeaveRequested], w)"

section \<open>The tiles as a bounded registry\<close>

definition tile_ids :: "window \<Rightarrow> string list" where
  "tile_ids w = map fst (win_tiles w)"

definition win_admit :: "string \<Rightarrow> window \<Rightarrow> window option" where
  "win_admit i w = (if tile i w \<noteq> None then None
     else case win_addParticipant i w of (None, cs, w') \<Rightarrow> None | (Some x, cs, w') \<Rightarrow> Some w')"

definition win_expel :: "string \<Rightarrow> window \<Rightarrow> window" where
  "win_expel i w = snd (win_removeParticipant i w)"

lemma tile_map_of: "tile i w = map_of (win_tiles w) i"
proof -
  have "map_option snd (find (\<lambda>t. fst t = i) ts) = map_of ts i" for ts :: "(string \<times> nat) list"
    by (induction ts) auto
  then show ?thesis by (simp add: tile_def)
qed

lemma tile_None_iff: "tile i w = None \<longleftrightarrow> i \<notin> set (tile_ids w)"
  by (simp add: tile_map_of tile_ids_def map_of_None_iff)

lemma remove_tile_filter: "distinct (map fst ts) \<Longrightarrow> remove_tile i ts = filter (\<lambda>t. fst t \<noteq> i) ts"
proof (induction i ts rule: remove_tile.induct)
  case (2 i t ts)
  then show ?case by (auto simp: image_iff intro!: filter_True [symmetric])
qed simp

lemma filter_ids: "map fst (filter (\<lambda>t. fst t \<noteq> i) ts) = filter (\<lambda>x. x \<noteq> i) (map fst ts)"
  by (induction ts) auto

lemma expel_tiles: "distinct (tile_ids w) \<Longrightarrow> win_tiles (win_expel i w) = filter (\<lambda>t. fst t \<noteq> i) (win_tiles w)"
  using tile_None_iff [of i w]
  by (auto simp: win_expel_def win_removeParticipant_def Let_def remove_tile_filter tile_ids_def
      split: option.splits intro!: filter_True [symmetric])

interpretation call_tiles: member_registry tile_ids "\<lambda>w. kMaxTiles" win_admit win_expel
proof
  show "win_admit k r = None \<longleftrightarrow> k \<in> set (tile_ids r) \<or> kMaxTiles \<le> length (tile_ids r)" for k r
    using tile_None_iff [of k r]
    by (auto simp: win_admit_def win_addParticipant_def Let_def tile_ids_def split: option.splits)
  show "tile_ids r' = tile_ids r @ [k] \<and> kMaxTiles = kMaxTiles" if "win_admit k r = Some r'" for k r r'
    using that by (auto simp: win_admit_def win_addParticipant_def Let_def tile_ids_def split: option.splits if_splits)
  show "tile_ids (win_expel k r) = filter (\<lambda>x. x \<noteq> k) (tile_ids r) \<and> kMaxTiles = kMaxTiles"
    if "distinct (tile_ids r)" for k r
    using expel_tiles [OF that, of k] filter_ids by (simp add: tile_ids_def)
qed

section \<open>The grid\<close>

text \<open>The uses of a window, and what the calls on the layout leave in the grid: who is where.\<close>

datatype window_op = AddTile string | RemoveTile string | ToggleMute bool | ToggleCamera bool

fun window_step :: "window_op \<Rightarrow> window \<Rightarrow> layout_call list \<times> window" where
  "window_step (AddTile i) w = snd (win_addParticipant i w)"
| "window_step (RemoveTile i) w = win_removeParticipant i w"
| "window_step (ToggleMute b) w = ([], snd (toggle_mute b w))"
| "window_step (ToggleCamera b) w = ([], snd (toggle_camera b w))"

fun window_run :: "window_op list \<Rightarrow> window \<Rightarrow> layout_call list \<times> window" where
  "window_run [] w = ([], w)"
| "window_run (a # as) w = (let (cs, w) = window_step a w; (cs', w) = window_run as w in (cs @ cs', w))"

fun place :: "layout_call \<Rightarrow> (nat \<times> nat \<times> nat) list \<Rightarrow> (nat \<times> nat \<times> nat) list" where
  "place (RemoveWidget x) g = filter (\<lambda>e. fst e \<noteq> x) g"
| "place (AddWidget x r c) g = g @ [(x, r, c)]"
| "place (ColumnStretch c s) g = g"
| "place (RowStretch r s) g = g"

definition cells :: "(string \<times> nat) list \<Rightarrow> (nat \<times> nat \<times> nat) list" where
  "cells ts = (let cols = snd (grid_shape (length ts)) in map (\<lambda>i. (snd (ts ! i), i div cols, i mod cols)) [0..<length ts])"

lemma fold_place_remove: "fold place (map (\<lambda>t. RemoveWidget (snd t)) ts) g = filter (\<lambda>e. fst e \<notin> snd ` set ts) g"
  by (induction ts arbitrary: g) (auto intro: filter_cong)

lemma fold_place_add: "fold place (map (\<lambda>i. AddWidget (f i) (r i) (c i)) is) g = g @ map (\<lambda>i. (f i, r i, c i)) is"
  by (induction "is" arbitrary: g) auto

lemma fold_place_stretch: "fold place (map (\<lambda>c. ColumnStretch c (s c)) cs) g = g" "fold place (map (\<lambda>c. RowStretch c (s c)) cs) g = g"
  by (induction cs arbitrary: g) auto

lemma relayout_places:
  assumes "fst ` set g \<subseteq> snd ` set ts"
  shows "fold place (relayout ts) g = cells ts"
proof -
  have "filter (\<lambda>e. fst e \<notin> snd ` set ts) g = []" using assms by (auto simp: filter_empty_conv)
  then show ?thesis
    by (simp add: relayout_def cells_def Let_def split_beta fold_place_remove fold_place_add fold_place_stretch del: fold.simps map_eq_conv)
qed


definition window_ok :: "window \<Rightarrow> (nat \<times> nat \<times> nat) list \<Rightarrow> bool" where
  "window_ok w g \<longleftrightarrow> call_tiles.sound w \<and> g = cells (win_tiles w) \<and> distinct (map snd (win_tiles w) @ win_deleted w) \<and>
     (\<forall>x\<in>snd ` set (win_tiles w) \<union> set (win_deleted w). x < win_nextWidget w)"

lemma cells_widgets: "map fst (cells ts) = map snd ts"
  using arg_cong [OF map_nth [of ts], of "map snd"] by (simp add: cells_def Let_def comp_def)

lemma cells_fst: "fst ` set (cells ts) = snd ` set ts"
  using arg_cong [OF cells_widgets, of set ts] by simp

lemma filter_widgets: "distinct (map snd ts) \<Longrightarrow> (i, x) \<in> set ts \<Longrightarrow> distinct (map fst ts) \<Longrightarrow>
   map snd (filter (\<lambda>t. fst t \<noteq> i) ts) = filter (\<lambda>y. y \<noteq> x) (map snd ts)"
proof (induction ts)
  case (Cons t ts)
  show ?case
  proof (cases "fst t = i")
    case True
    then have "(i, x) \<notin> set ts" using Cons.prems(3) by (auto simp: image_iff)
    then have "x = snd t" using Cons.prems(2) by auto
    moreover have "filter (\<lambda>t. fst t \<noteq> i) ts = ts" using Cons.prems True by (auto simp: image_iff intro!: filter_True)
    moreover have "filter (\<lambda>y. y \<noteq> snd t) (map snd ts) = map snd ts"
      using Cons.prems(1) by (intro filter_True) (auto intro: rev_image_eqI)
    ultimately show ?thesis using True by simp
  next
    case False
    then have "(i, x) \<in> set ts" using Cons.prems(2) by auto
    moreover have "snd t \<noteq> x" using imageI [OF \<open>(i, x) \<in> set ts\<close>, of snd] Cons.prems(1) by auto
    ultimately show ?thesis using Cons False by simp
  qed
qed simp

lemma add_tile_ok:
  assumes "window_ok w g" "win_addParticipant i w = (r, cs, w')"
  shows "window_ok w' (fold place cs g)"
proof (cases "tile i w = None \<and> length (win_tiles w) < kMaxTiles")
  case True
  let ?ts = "win_tiles w @ [(i, win_nextWidget w)]"
  have w': "cs = relayout ?ts" "w' = w\<lparr>win_tiles := ?ts, win_nextWidget := win_nextWidget w + 1\<rparr>"
    using assms(2) True by (auto simp: win_addParticipant_def Let_def)
  have "win_admit i w = Some w'" using True w' by (auto simp: win_admit_def win_addParticipant_def Let_def)
  then have "call_tiles.sound w'" using assms(1) call_tiles.admit_sound by (auto simp: window_ok_def)
  moreover have "fold place cs g = cells ?ts"
    unfolding w'(1) by (rule relayout_places) (use assms(1) in \<open>auto simp: window_ok_def cells_fst\<close>)
  moreover have "distinct (map snd ?ts @ win_deleted w)"
    "\<forall>x\<in>snd ` set ?ts \<union> set (win_deleted w). x < win_nextWidget w + 1"
    using assms(1) by (auto simp: window_ok_def less_Suc_eq)
  ultimately show ?thesis unfolding window_ok_def w'(2) by simp
next
  case False
  then have "cs = []" "w' = w" using assms(2) by (auto simp: win_addParticipant_def split: option.splits if_splits)
  then show ?thesis using assms(1) by simp
qed

lemma remove_tile_ok:
  assumes "window_ok w g" "win_removeParticipant i w = (cs, w')"
  shows "window_ok w' (fold place cs g)"
proof (cases "tile i w")
  case None
  then have "cs = []" "w' = w" using assms(2) by (auto simp: win_removeParticipant_def)
  then show ?thesis using assms(1) by simp
next
  case (Some x)
  let ?ts = "filter (\<lambda>t. fst t \<noteq> i) (win_tiles w)"
  have d: "distinct (map fst (win_tiles w))" "distinct (map snd (win_tiles w) @ win_deleted w)"
    using assms(1) by (auto simp: window_ok_def call_tiles.sound_def tile_ids_def)
  have x: "(i, x) \<in> set (win_tiles w)" using Some by (simp add: tile_map_of map_of_SomeD)
  have w': "cs = RemoveWidget x # relayout ?ts" "w' = w\<lparr>win_tiles := ?ts, win_deleted := x # win_deleted w\<rparr>"
    using assms(2) Some remove_tile_filter [OF d(1)] by (auto simp: win_removeParticipant_def Let_def)
  have ids: "map snd ?ts = filter (\<lambda>y. y \<noteq> x) (map snd (win_tiles w))" by (rule filter_widgets) (use d x in auto)
  have "set (map snd ?ts) = {y \<in> set (map snd (win_tiles w)). y \<noteq> x}" unfolding ids by (simp only: set_filter)
  then have sub: "snd ` set ?ts = snd ` set (win_tiles w) - {x}" by (simp only: set_map) blast
  have "win_expel i w = w'" using assms(2) by (simp add: win_expel_def)
  then have "call_tiles.sound w'" using assms(1) call_tiles.expel_sound by (auto simp: window_ok_def)
  moreover have "fold place (relayout ?ts) (place (RemoveWidget x) g) = cells ?ts"
  proof (rule relayout_places)
    have "fst ` set g = snd ` set (win_tiles w)" using assms(1) by (simp add: window_ok_def cells_fst)
    then show "fst ` set (place (RemoveWidget x) g) \<subseteq> snd ` set ?ts" unfolding sub by auto
  qed
  moreover have "distinct (map snd ?ts @ x # win_deleted w)" using d(2) x unfolding ids by (auto intro: rev_image_eqI)
  moreover have "\<forall>y\<in>snd ` set ?ts \<union> set (x # win_deleted w). y < win_nextWidget w"
    using assms(1) imageI [OF x, of snd] unfolding sub window_ok_def by auto
  ultimately show ?thesis unfolding window_ok_def w' by simp
qed

lemma window_run_ok:
  "window_ok w g \<Longrightarrow> window_run ops w = (cs, w') \<Longrightarrow> window_ok w' (fold place cs g)"
proof (induction ops arbitrary: w g cs)
  case (Cons a ops)
  obtain c1 w1 where s: "window_step a w = (c1, w1)" by force
  obtain c2 where rest: "window_run ops w1 = (c2, w')" "cs = c1 @ c2"
    using Cons.prems(2) s by (auto split: prod.splits)
  have "window_ok w1 (fold place c1 g)"
  proof (cases a)
    case (AddTile i)
    then obtain r where "win_addParticipant i w = (r, c1, w1)" using s by (cases "win_addParticipant i w") auto
    then show ?thesis by (rule add_tile_ok [OF Cons.prems(1)])
  next
    case (RemoveTile i)
    then show ?thesis using remove_tile_ok [OF Cons.prems(1)] s by simp
  next
    case (ToggleMute b)
    then have "c1 = []" "w1 = snd (toggle_mute b w)" using s by simp_all
    then show ?thesis using Cons.prems(1) by (simp add: toggle_mute_def window_ok_def call_tiles.sound_def tile_ids_def)
  next
    case (ToggleCamera b)
    then have "c1 = []" "w1 = snd (toggle_camera b w)" using s by simp_all
    then show ?thesis using Cons.prems(1) by (simp add: toggle_camera_def window_ok_def call_tiles.sound_def tile_ids_def)
  qed
  from Cons.IH [OF this rest(1)] show ?case using rest(2) by simp
qed simp

lemma window_ok_new: "window_ok new_window []"
  by (simp add: window_ok_def new_window_def call_tiles.sound_def tile_ids_def cells_def)

lemma grid_shape_fits: "n \<le> 8 \<Longrightarrow> 0 < snd (grid_shape n) \<and> n \<le> fst (grid_shape n) * snd (grid_shape n)"
  by (auto simp: grid_shape_def)

lemma cells_distinct: "distinct (map snd (cells ts))"
proof -
  let ?c = "snd (grid_shape (length ts))"
  have "inj_on (\<lambda>i. (i div ?c, i mod ?c)) {0..<length ts}"
    by (intro inj_onI) (metis Pair_inject div_mult_mod_eq)
  then show ?thesis by (simp add: cells_def Let_def distinct_map comp_def)
qed

lemma cells_inside:
  assumes "length ts \<le> 8"
  shows "list_all (\<lambda>(x, r, c). r < fst (grid_shape (length ts)) \<and> c < snd (grid_shape (length ts))) (cells ts)"
  using grid_shape_fits [OF assms]
  by (auto simp: cells_def Let_def list_all_iff less_mult_imp_div_less intro: order.strict_trans2)

text \<open>C33. The grid always shows the participants: after any sequence of additions, removals and
  toggles, the calls the window made on the layout leave in the grid exactly the tiles of the present
  participants, one widget each in row-major order, no two in one cell and all inside the documented
  shape for their number; there are at most eight, with distinct ids, and no deleted widget is among them.\<close>

theorem grid_follows_tiles:
  "case window_run ops new_window of (cs, w) \<Rightarrow>
     fold place cs [] = cells (win_tiles w) \<and> map fst (cells (win_tiles w)) = map snd (win_tiles w) \<and>
     distinct (map snd (cells (win_tiles w))) \<and>
     list_all (\<lambda>(x, r, c). r < fst (grid_shape (win_participantCount w)) \<and> c < snd (grid_shape (win_participantCount w))) (cells (win_tiles w)) \<and>
     win_participantCount w \<le> 8 \<and> distinct (map fst (win_tiles w)) \<and>
     distinct (map snd (win_tiles w)) \<and> set (map snd (win_tiles w)) \<inter> set (win_deleted w) = {}"
proof -
  obtain cs w where r: "window_run ops new_window = (cs, w)" by force
  have ok: "window_ok w (fold place cs [])" by (rule window_run_ok [OF window_ok_new r])
  then have "length (win_tiles w) \<le> 8" unfolding window_ok_def call_tiles.sound_def tile_ids_def by (simp add: kMaxTiles_def)
  then show ?thesis
    using ok cells_inside [of "win_tiles w"] cells_distinct [of "win_tiles w"] cells_widgets [of "win_tiles w"]
    by (auto simp: r window_ok_def win_participantCount_def call_tiles.sound_def tile_ids_def)
qed

end
