(* ===== verification/Video_Widget.thy ===== *)
theory Video_Widget
  imports Pipeline Double
begin

text \<open>
  The tile that shows one participant: the frame mailbox and the texture upload of
  src/src/ui/VideoWidget.cpp with the placing of the picture in the window, and the tile as the sink of
  a video decoder. The calls on OpenGL are the returned list.
\<close>

section \<open>VideoWidget\<close>

datatype gl_call = ActiveTexture nat | BindTexture nat | UnpackAlignment int | UnpackRowLength int
  | TexImage int int "nat option" | ViewportAt int int int int | ClearColorBuffer | BindProgram | BindVao
  | DrawArrays nat nat | ReleaseVao | ReleaseProgram
  | SetUniform string int | CreateVao | GenBuffers nat | BindArrayBuffer nat | BufferData "int list"
  | EnableAttribute nat | AttributePointer nat nat nat nat | GenTextures "nat list" | TexFilterLinear nat | TexClampToEdge nat
  | MakeCurrent | DeleteBuffers nat | DestroyVao | DeleteTextures "nat list" | DoneCurrent

record video_widget =
  vw_program :: bool
  vw_textures :: "nat list"
  vw_vbo :: nat
  vw_pending :: video_frame
  vw_hasPending :: bool
  vw_hasEverRendered :: bool
  vw_texWidth :: int
  vw_texHeight :: int
  vw_glReady :: bool

definition new_video_widget :: video_widget where
  "new_video_widget = \<lparr>vw_program = False, vw_textures = [0, 0, 0], vw_vbo = 0, vw_pending = new_video_frame,
     vw_hasPending = False, vw_hasEverRendered = False, vw_texWidth = 0, vw_texHeight = 0, vw_glReady = False\<rparr>"

text \<open>The boolean says whether a repaint was requested.\<close>

definition setFrame :: "video_frame \<Rightarrow> video_widget \<Rightarrow> bool \<times> video_widget" where
  "setFrame f w = (if \<not> vf_valid f \<or> vf_format f \<noteq> I420 then (False, w)
     else (True, w\<lparr>vw_pending := f, vw_hasPending := True\<rparr>))"

definition hasFrame :: "video_widget \<Rightarrow> bool" where
  "hasFrame w = vw_hasEverRendered w"

text \<open>The quad of two triangles, four numbers per vertex: position and texture coordinate.\<close>

definition kQuad :: "int list" where
  "kQuad =
    [- 1, - 1, 0, 1,
     1, - 1, 1, 1,
     1, 1, 1, 0,
     - 1, - 1, 0, 1,
     1, 1, 1, 0,
     - 1, 1, 0, 0]"

text \<open>\<^verbatim>\<open>initializeGL\<close>, with the outcome of linking the shaders and the buffer and texture names OpenGL
  gives out. After a failed link the code resets the program and goes on to use it, a null
  dereference (\<open>None\<close>). The filter calls stand for the pair of axes they are made for.\<close>

definition setup_texture :: "nat \<Rightarrow> gl_call list" where
  "setup_texture t = [BindTexture t, TexFilterLinear t, TexClampToEdge t]"

definition initializeGL :: "bool \<Rightarrow> nat \<Rightarrow> nat list \<Rightarrow> video_widget \<Rightarrow> (gl_call list \<times> video_widget) option" where
  "initializeGL linked vbo names w =
    (let w = w\<lparr>vw_program := linked\<rparr> in
     if \<not> vw_program w then None
     else Some ([BindProgram, SetUniform ''yTex'' 0, SetUniform ''uTex'' 1, SetUniform ''vTex'' 2, ReleaseProgram,
         CreateVao, BindVao, GenBuffers vbo, BindArrayBuffer vbo, BufferData kQuad,
         EnableAttribute 0, AttributePointer 0 2 (4 * 4) 0, EnableAttribute 1, AttributePointer 1 2 (4 * 4) (2 * 4),
         ReleaseVao, BindArrayBuffer 0, GenTextures names] @ concat (map setup_texture names) @ [BindTexture 0],
       w\<lparr>vw_vbo := vbo, vw_textures := names, vw_glReady := True\<rparr>))"

text \<open>The destructor; without a context (a tile never shown) nothing was made.\<close>

definition destroyGL :: "bool \<Rightarrow> video_widget \<Rightarrow> gl_call list" where
  "destroyGL context w = (if \<not> context then []
     else [MakeCurrent] @ (if vw_vbo w \<noteq> 0 then [DeleteBuffers (vw_vbo w)] else []) @ [DestroyVao] @
       (if vw_textures w ! 0 \<noteq> 0 then [DeleteTextures (vw_textures w)] else []) @ [DoneCurrent])"

text \<open>The picture stands upright: at every vertex the texture coordinate is the position, from the left
  and from the top.\<close>

fun vertices :: "int list \<Rightarrow> (int \<times> int \<times> int \<times> int) list" where
  "vertices (x # y # u # v # vs) = (x, y, u, v) # vertices vs"
| "vertices _ = []"

lemma quad_upright: "list_all (\<lambda>(x, y, u, v). 2 * u = x + 1 \<and> 2 * v = 1 - y) (vertices kQuad) \<and> length (vertices kQuad) = 6"
  by (simp add: kQuad_def)

definition uploadPlane :: "nat \<Rightarrow> plane \<Rightarrow> int \<Rightarrow> int \<Rightarrow> gl_call list" where
  "uploadPlane texture p w h = [BindTexture texture, UnpackAlignment 1, UnpackRowLength (pl_stride p),
     TexImage w h (pl_data p), UnpackRowLength 0]"

text \<open>\<^verbatim>\<open>paintGL\<close> up to the placement of the picture.\<close>

definition paint_frame :: "video_widget \<Rightarrow> gl_call list \<times> video_widget" where
  "paint_frame w =
    (let haveNew = vw_hasPending w; frame = vw_pending w; w = w\<lparr>vw_hasPending := False\<rparr> in
     if haveNew \<and> vf_valid frame then
       let wd = vf_width frame; ht = vf_height frame; cw = tdiv (wd + 1) 2; ch = tdiv (ht + 1) 2
       in (ActiveTexture 0 # uploadPlane (vw_textures w ! 0) (vf_planes frame ! 0) wd ht @
           ActiveTexture 1 # uploadPlane (vw_textures w ! 1) (vf_planes frame ! 1) cw ch @
           ActiveTexture 2 # uploadPlane (vw_textures w ! 2) (vf_planes frame ! 2) cw ch,
           w\<lparr>vw_texWidth := wd, vw_texHeight := ht, vw_hasEverRendered := True\<rparr>)
     else ([], w))"

text \<open>The largest place with the aspect ratio of the picture inside the framebuffer, computed in
  doubles: its left and lower edge, width and height as they go to \<^verbatim>\<open>glViewport\<close>.\<close>

definition fitted_size :: "int \<Rightarrow> int \<Rightarrow> int \<Rightarrow> int \<Rightarrow> int \<times> int" where
  "fitted_size texWidth texHeight fbW fbH =
    (let srcAspect = ddiv (d_of_int texWidth) (d_of_int texHeight);
         dstAspect = ddiv (d_of_int fbW) (d_of_int (max 1 fbH))
     in if dstAspect > srcAspect then (d_to_int (dmul (d_of_int fbH) srcAspect), fbH)
        else (fbW, d_to_int (ddiv (d_of_int fbW) srcAspect)))"

definition letterbox :: "int \<Rightarrow> int \<Rightarrow> int \<Rightarrow> int \<Rightarrow> int \<times> int \<times> int \<times> int" where
  "letterbox texWidth texHeight fbW fbH =
    (let (vpW, vpH) = fitted_size texWidth texHeight fbW fbH
     in (tdiv (fbW - vpW) 2, tdiv (fbH - vpH) 2, max 1 vpW, max 1 vpH))"

text \<open>\<^verbatim>\<open>paintGL\<close>, with the size of the widget and the pixels per unit of its screen.\<close>

definition paintGL :: "int \<Rightarrow> int \<Rightarrow> rat \<Rightarrow> video_widget \<Rightarrow> gl_call list \<times> video_widget" where
  "paintGL width height dpr w =
    (let fbW = d_to_int (dmul (d_of_int width) dpr); fbH = d_to_int (dmul (d_of_int height) dpr);
         (uploads, w) = paint_frame w;
         calls = [ViewportAt 0 0 fbW fbH, ClearColorBuffer] @ uploads
     in if vw_texWidth w \<le> 0 \<or> vw_texHeight w \<le> 0 \<or> \<not> vw_program w then (calls, w)
        else let (vpX, vpY, vpW, vpH) = letterbox (vw_texWidth w) (vw_texHeight w) fbW fbH
          in (calls @ [ViewportAt vpX vpY vpW vpH, BindProgram, BindVao,
                ActiveTexture 0, BindTexture (vw_textures w ! 0), ActiveTexture 1, BindTexture (vw_textures w ! 1),
                ActiveTexture 2, BindTexture (vw_textures w ! 2), DrawArrays 0 6, ReleaseVao, ReleaseProgram], w))"

section \<open>The place of the picture\<close>

lemma aspect_pos:
  assumes "0 < a" "a < 2 ^ 31" "0 < b" "b < 2 ^ 31"
  shows "rnd (of_int a / of_int b) > 0"
  using round_pos_bounds(3) [of "of_int a / of_int b"] assms by (simp add: rnd_pos)

lemma floor_between: "0 \<le> y \<Longrightarrow> y \<le> of_int n \<Longrightarrow> 0 \<le> d_to_int y \<and> d_to_int y \<le> n"
  by (simp add: d_to_int_nonneg) (metis floor_mono floor_of_int)

text \<open>Two roundings in a row are off by less than two parts in \<open>2 ^ 52\<close>.\<close>

lemma rnd_twice:
  fixes r s e :: rat
  assumes "0 \<le> r" "0 \<le> s" "\<bar>s - r\<bar> \<le> r / 2 ^ 52" "r < 2 ^ 31 + 1"
  shows "\<bar>rnd s - r\<bar> < 1 / 2 ^ 19"
proof -
  have "\<bar>rnd s - s\<bar> \<le> s / 2 ^ 53" by (rule rnd_near [OF assms(2)])
  moreover have "s \<le> r + r / 2 ^ 52" using assms(3) by linarith
  ultimately have "\<bar>rnd s - r\<bar> \<le> (r + r / 2 ^ 52) / 2 ^ 53 + r / 2 ^ 52" proof -
    have "\<bar>rnd s - r\<bar> \<le> \<bar>rnd s - s\<bar> + \<bar>s - r\<bar>" by linarith
    moreover have "s / 2 ^ 53 \<le> (r + r / 2 ^ 52) / 2 ^ 53"
      using \<open>s \<le> r + r / 2 ^ 52\<close> by (rule divide_right_mono) simp
    ultimately show ?thesis using \<open>\<bar>rnd s - s\<bar> \<le> s / 2 ^ 53\<close> assms(3) by linarith
  qed
  also have "\<dots> < 1 / 2 ^ 19" using assms(4) by simp
  finally show ?thesis .
qed

lemma fitted_width:
  assumes "0 < tw" "tw < 2 ^ 31" "0 < th" "th < 2 ^ 31" "0 \<le> fbW" "fbW < 2 ^ 31" "0 \<le> fbH" "fbH < 2 ^ 31"
    "rnd (of_int tw / of_int th) < rnd (of_int fbW / of_int (max 1 fbH))"
  defines "y \<equiv> rnd (of_int fbH * rnd (of_int tw / of_int th))"
  shows "0 \<le> y \<and> y \<le> of_int fbW \<and> \<bar>y - of_int fbH * of_int tw / of_int th\<bar> < 1 / 2 ^ 19"
proof -
  let ?s = "rnd (of_int tw / of_int th) :: rat"
  have s0: "0 < ?s" using aspect_pos assms(1-4) by blast
  have "?s \<le> of_int fbW / of_int (max 1 fbH)"
    using rnd_less_imp [of ?s "of_int fbW / of_int (max 1 fbH)"] assms(9) by simp
  then have le: "of_int fbH * ?s \<le> of_int fbW"
    using assms(5,7) by (cases "fbH = 0") (simp_all add: field_simps max_def split: if_splits)
  have "0 \<le> of_int fbH * ?s" using s0 assms(7) by simp
  then have y: "0 \<le> y" "y \<le> of_int fbW"
    using rnd_nonneg rnd_le [OF rnd_of_int le] assms(5,6) by (simp_all add: y_def)
  let ?r = "of_int fbH * of_int tw / of_int th :: rat"
  have "\<bar>?s - of_int tw / of_int th\<bar> \<le> of_int tw / of_int th / 2 ^ 53" using assms(1,3) by (intro rnd_near) simp
  then have "of_int fbH * \<bar>?s - of_int tw / of_int th\<bar> \<le> of_int fbH * (of_int tw / of_int th / 2 ^ 53)"
    using assms(7) by (intro mult_left_mono) simp_all
  moreover have "of_int fbH * \<bar>?s - of_int tw / of_int th\<bar> = \<bar>of_int fbH * ?s - ?r\<bar>"
    using assms(7) by (simp add: abs_mult_pos' right_diff_distrib)
  ultimately have near: "\<bar>of_int fbH * ?s - ?r\<bar> \<le> ?r / 2 ^ 53" by simp
  have r0: "0 \<le> ?r" using assms(1,3,7) by simp
  have "?r < 2 ^ 31 + 1" proof -
    have "of_int fbH * ?s < 2 ^ 31" using le assms(6) by (metis of_int_less_iff of_int_numeral of_int_power le_less_trans)
    then show ?thesis using near r0 by (simp add: abs_le_iff)
  qed
  moreover have "\<bar>of_int fbH * ?s - ?r\<bar> \<le> ?r / 2 ^ 52" using near r0 by simp
  ultimately have "\<bar>y - ?r\<bar> < 1 / 2 ^ 19" unfolding y_def
    using r0 s0 assms(7) by (intro rnd_twice) simp_all
  with y show ?thesis by simp
qed

lemma quotient_near:
  fixes q s W :: rat
  assumes "0 < q" "\<bar>s - q\<bar> \<le> q / 2 ^ 53" "0 \<le> W"
  shows "0 < s" "\<bar>W / s - W / q\<bar> \<le> W / q / 2 ^ 52"
proof -
  have "\<bar>s - q\<bar> \<le> q / 9007199254740992" using assms(2) by simp
  then have s: "q / 2 \<le> s" using assms(1) by linarith
  then show pos: "0 < s" using assms(1) by linarith
  have "W / s - W / q = W * (q - s) / (s * q)" using pos assms(1) by (simp add: field_simps)
  then have "\<bar>W / s - W / q\<bar> = W * \<bar>q - s\<bar> / (s * q)" using pos assms(1,3) by (simp add: abs_mult)
  also have "\<dots> \<le> W * (q / 2 ^ 53) / (q / 2 * q)"
    using assms s pos by (intro frac_le mult_left_mono mult_right_mono mult_nonneg_nonneg) (simp_all add: abs_minus_commute)
  also have "\<dots> = W / q / 2 ^ 52" using assms(1) by simp
  finally show "\<bar>W / s - W / q\<bar> \<le> W / q / 2 ^ 52" .
qed

lemma swap_divisors: "0 < q \<Longrightarrow> 0 < (h :: rat) \<Longrightarrow> x / h * a \<le> q * b \<Longrightarrow> x / q * a \<le> h * b"
  by (simp add: field_simps)

lemma near_bound:
  assumes "x * (1 - 1 / 2 ^ 53) \<le> h * (1 + 1 / 2 ^ 53)" "0 < h" "h < (2 ^ 31 :: rat)"
  shows "x \<le> h + 1 / 2 ^ 19"
proof -
  have "x * 9007199254740991 \<le> h * 9007199254740993" "h < 2147483648" using assms by (simp_all add: field_simps)
  then have "x \<le> h + 1 / 524288" using assms(2) by linarith
  then show ?thesis by simp
qed

lemma fitted_height:
  assumes "0 < tw" "tw < 2 ^ 31" "0 < th" "th < 2 ^ 31" "0 \<le> fbW" "fbW < 2 ^ 31" "0 \<le> fbH" "fbH < 2 ^ 31"
    "rnd (of_int fbW / of_int (max 1 fbH)) \<le> rnd (of_int tw / of_int th)"
  defines "y \<equiv> rnd (of_int fbW / rnd (of_int tw / of_int th))"
  shows "0 \<le> y \<and> y < of_int (max 1 fbH) + 1 \<and> \<bar>y - of_int fbW * of_int th / of_int tw\<bar> < 1 / 2 ^ 19"
proof -
  let ?s = "rnd (of_int tw / of_int th) :: rat" and ?r = "of_int fbW * of_int th / of_int tw :: rat"
  let ?q = "of_int tw / of_int th :: rat" and ?H = "of_int (max 1 fbH) :: rat"
  have s0: "0 < ?s" using aspect_pos assms(1-4) by blast
  have q0: "0 < ?q" using assms(1,3) by simp
  have H: "0 < ?H" "?H < 2 ^ 31" using assms(8) by (simp_all add: max_def)
  have s: "\<bar>?s - ?q\<bar> \<le> ?q / 2 ^ 53" using q0 by (intro rnd_near) simp
  have d: "\<bar>rnd (of_int fbW / ?H) - of_int fbW / ?H\<bar> \<le> of_int fbW / ?H / 2 ^ 53"
    using assms(5) H by (intro rnd_near) simp
  have W: "(0 :: rat) \<le> of_int fbW" using assms(5) by simp
  have r: "?r = of_int fbW / ?q" by simp
  have "of_int fbW / ?H * (1 - 1 / 2 ^ 53) \<le> ?q * (1 + 1 / 2 ^ 53)"
    using s d assms(9) by (simp add: abs_le_iff right_diff_distrib distrib_left)
  then have rH: "?r * (1 - 1 / 2 ^ 53) \<le> ?H * (1 + 1 / 2 ^ 53)"
    unfolding r by (rule swap_divisors [OF q0 H(1)])
  have r0: "0 \<le> ?r" using assms(1,3,5) by simp
  have rle: "?r \<le> ?H + 1 / 2 ^ 19" by (rule near_bound [OF rH H])
  then have big: "?r < 2 ^ 31 + 1" using H(2) by simp
  have "\<bar>y - ?r\<bar> < 1 / 2 ^ 19"
    unfolding y_def using quotient_near(2) [OF q0 s W] s0 r0 big W unfolding r by (intro rnd_twice) simp_all
  moreover have "0 \<le> y" unfolding y_def using W s0 by (intro rnd_nonneg) simp
  moreover have "y - ?r \<le> \<bar>y - ?r\<bar>" by linarith
  ultimately have "y < ?H + 1 / 2 ^ 19 + 1 / 2 ^ 19" "0 \<le> y" "\<bar>y - ?r\<bar> < 1 / 2 ^ 19" using rle by linarith+
  then show ?thesis by simp
qed

lemma d_to_int_near: "0 \<le> y \<Longrightarrow> \<bar>y - r\<bar> < 1 / 2 ^ 19 \<Longrightarrow> \<bar>of_int (d_to_int y) - r\<bar> < 1 + 1 / 2 ^ 19"
proof -
  assume y: "0 \<le> y" "\<bar>y - r\<bar> < 1 / 2 ^ 19"
  have "\<bar>of_int \<lfloor>y\<rfloor> - y\<bar> < 1" using floor_correct [of y] by (simp add: abs_less_iff)
  moreover have "\<bar>of_int \<lfloor>y\<rfloor> - r\<bar> \<le> \<bar>of_int \<lfloor>y\<rfloor> - y\<bar> + \<bar>y - r\<bar>" by linarith
  ultimately show ?thesis using y by (simp only: d_to_int_nonneg)
qed

lemma centred: "0 \<le> n \<Longrightarrow> n \<le> m \<Longrightarrow> 0 \<le> tdiv (m - n) 2 \<and> (m - n) - 2 * tdiv (m - n) 2 \<in> {0, 1}"
  by (simp add: tdiv_nonneg) presburger

text \<open>C34. The picture is placed inside the window, centred to the pixel, as large as the window
  allows and without distortion: one side fills the framebuffer, the other is within
  little more than one pixel of what the aspect ratio of the picture asks for. This holds with the rounding of the
  doubles the code computes with, for all sizes an int can have.\<close>

theorem letterbox_fits:
  assumes "0 < tw" "tw < 2 ^ 31" "0 < th" "th < 2 ^ 31" "0 < fbW" "fbW < 2 ^ 31" "0 < fbH" "fbH < 2 ^ 31"
    "fitted_size tw th fbW fbH = (vw, vh)" "letterbox tw th fbW fbH = (x, y, w, h)"
  shows "0 \<le> vw \<and> vw \<le> fbW \<and> 0 \<le> vh \<and> vh \<le> fbH \<and> w = max 1 vw \<and> h = max 1 vh \<and>
    0 \<le> x \<and> 0 \<le> y \<and> fbW - vw - 2 * x \<in> {0, 1} \<and> fbH - vh - 2 * y \<in> {0, 1} \<and>
    (vh = fbH \<and> \<bar>of_int vw - of_int fbH * of_int tw / of_int th\<bar> < (1 + 1 / 2 ^ 19 :: rat) \<or>
     vw = fbW \<and> \<bar>of_int vh - of_int fbW * of_int th / of_int tw\<bar> < (1 + 1 / 2 ^ 19 :: rat))"
proof -
  have "d_of_int m = of_int m" if "0 < m" "m < 2 ^ 31" for m using that by simp
  note exact = this [OF assms(1,2)] this [OF assms(3,4)] this [OF assms(5,6)] this [OF assms(7,8)]
  have H: "max 1 fbH = fbH" using assms(7) by simp
  have sides: "0 \<le> vw \<and> vw \<le> fbW \<and> 0 \<le> vh \<and> vh \<le> fbH \<and>
    (vh = fbH \<and> \<bar>of_int vw - of_int fbH * of_int tw / of_int th\<bar> < (1 + 1 / 2 ^ 19 :: rat) \<or>
     vw = fbW \<and> \<bar>of_int vh - of_int fbW * of_int th / of_int tw\<bar> < (1 + 1 / 2 ^ 19 :: rat))"
  proof (cases "rnd (of_int tw / of_int th) < rnd (of_int fbW / of_int (max 1 fbH))")
    case True
    let ?y = "rnd (of_int fbH * rnd (of_int tw / of_int th))"
    have v: "vw = d_to_int ?y" "vh = fbH"
      using assms(9) True by (auto simp: fitted_size_def ddiv_def dmul_def exact H)
    have "0 \<le> ?y" "?y \<le> of_int fbW" "\<bar>?y - of_int fbH * of_int tw / of_int th\<bar> < 1 / 2 ^ 19"
      using fitted_width [OF assms(1-4) _ assms(6) _ assms(8) True] assms(5,7) by auto
    then show ?thesis using floor_between [of ?y fbW] d_to_int_near assms(7) unfolding v by auto
  next
    case False
    let ?y = "rnd (of_int fbW / rnd (of_int tw / of_int th))"
    have v: "vh = d_to_int ?y" "vw = fbW"
      using assms(9) False by (auto simp: fitted_size_def ddiv_def dmul_def exact H)
    have y: "0 \<le> ?y" "?y < of_int (max 1 fbH) + 1" "\<bar>?y - of_int fbW * of_int th / of_int tw\<bar> < 1 / 2 ^ 19"
      using fitted_height [OF assms(1-4) _ assms(6) _ assms(8)] False assms(5,7) by auto
    then have "\<lfloor>?y\<rfloor> \<le> fbH" using assms(7) by (simp add: floor_le_iff)
    then show ?thesis using y d_to_int_near assms(5) unfolding v by (auto simp: d_to_int_nonneg)
  qed
  have "x = tdiv (fbW - vw) 2" "y = tdiv (fbH - vh) 2" "w = max 1 vw" "h = max 1 vh"
    using assms(9,10) by (simp_all add: letterbox_def)
  then show ?thesis using sides centred [of vw fbW] centred [of vh fbH] by blast
qed

lemma letterbox_fits_witness:
  "letterbox 640 360 1000 1000 = (0, 219, 1000, 562) \<and> \<bar>562 - 1000 * 360 / 640\<bar> < (1 + 1 / 2 ^ 19 :: rat)"
proof -
  have f: "fitted_size 640 360 1000 1000 = (1000, 562)" by code_simp
  have "letterbox 640 360 1000 1000 = (0, 219, 1000, 562)" by (simp add: letterbox_def f tdiv_def)
  then show ?thesis using letterbox_fits [OF _ _ _ _ _ _ _ _ f] by simp
qed

section \<open>The mailbox\<close>

text \<open>Any interleaving of the thread that sets frames with the one that paints; the frames painted.\<close>

datatype widget_op = Set video_frame | Paint

fun painted :: "widget_op list \<Rightarrow> video_widget \<Rightarrow> video_frame option list" where
  "painted [] w = []"
| "painted (Set f # as) w = painted as (snd (setFrame f w))"
| "painted (Paint # as) w =
     (if fst (paint_frame w) = [] then None else Some (vw_pending w)) # painted as (snd (paint_frame w))"

fun latest :: "widget_op list \<Rightarrow> video_frame option \<Rightarrow> video_frame option list" where
  "latest [] m = []"
| "latest (Set f # as) m = latest as (if vf_valid f \<and> vf_format f = I420 then Some f else m)"
| "latest (Paint # as) m = m # latest as None"

definition mailbox :: "video_widget \<Rightarrow> video_frame option" where
  "mailbox w = (if vw_hasPending w then Some (vw_pending w) else None)"

definition mail_ok :: "video_widget \<Rightarrow> bool" where
  "mail_ok w \<longleftrightarrow> (vw_hasPending w \<longrightarrow> vf_valid (vw_pending w))"

lemma paint_latest: "mail_ok w \<Longrightarrow> painted as w = latest as (mailbox w)"
proof (induction as w rule: painted.induct)
  case (2 f as w)
  then show ?case by (auto simp: setFrame_def mailbox_def mail_ok_def)
next
  case (3 as w)
  then show ?case by (auto simp: paint_frame_def mailbox_def mail_ok_def Let_def)
qed simp

section \<open>A decoder that plays on a tile\<close>

text \<open>\<^verbatim>\<open>pendingFrame_ = frame\<close> on the pointers: the new buffer gains one, then the old frame drops
  its own, if that still points into this pool (\<open>cur\<close>; a decoder that saw a larger picture has a new
  pool, and the old frame keeps the old one alive).\<close>

definition copy_frame :: "pool_ptr option \<Rightarrow> pool_heap \<Rightarrow> pool_heap" where
  "copy_frame buf h = (case buf of None \<Rightarrow> h | Some (a, b) \<Rightarrow> copy_ptr a h)"

definition keep_frame :: "video_widget \<Rightarrow> bool \<Rightarrow> video_frame \<Rightarrow> pool_heap \<Rightarrow> pool_heap" where
  "keep_frame w cur f h = (if fst (setFrame f w)
     then drop_frame (if cur then vf_buffer (vw_pending w) else None) (copy_frame (vf_buffer f) h) else h)"

definition same_pool :: "'d video_decoder \<Rightarrow> 'd video_decoder \<Rightarrow> bool" where
  "same_pool d d' \<longleftrightarrow> vd_pool d \<noteq> None \<and> vd_poolW d' = vd_poolW d \<and> vd_poolH d' = vd_poolH d"

record 'd screen =
  scr_dec :: "'d video_decoder"
  scr_widget :: video_widget
  scr_cur :: bool

definition screen_show :: "'d av_decoder \<Rightarrow> encoded_frame \<Rightarrow> 'd screen \<Rightarrow> 'd screen" where
  "screen_show lib ef s =
    (let cur = (scr_cur s \<and> same_pool (scr_dec s) (snd (vd_decode lib ef (scr_dec s))));
         (evs, d) = show_video lib (Some (keep_frame (scr_widget s) cur)) ef (scr_dec s)
     in case evs of
          [VideoOut f] \<Rightarrow> s\<lparr>scr_dec := d, scr_widget := snd (setFrame f (scr_widget s)), scr_cur := (cur \<or> fst (setFrame f (scr_widget s)))\<rparr>
        | _ \<Rightarrow> s\<lparr>scr_dec := d, scr_cur := cur\<rparr>)"

fun screen_run :: "'d av_decoder \<Rightarrow> encoded_frame list \<Rightarrow> 'd screen \<Rightarrow> 'd screen" where
  "screen_run lib [] s = s"
| "screen_run lib (ef # efs) s = screen_run lib efs (screen_show lib ef s)"

definition new_screen :: "'d av_decoder \<Rightarrow> 'd screen" where
  "new_screen lib = \<lparr>scr_dec = snd (vd_open lib new_video_decoder), scr_widget = new_video_widget, scr_cur = False\<rparr>"

text \<open>Between frames the tile pins at most one buffer of the current pool, and nothing else does.\<close>

definition screen_ok :: "'d screen \<Rightarrow> bool" where
  "screen_ok s \<longleftrightarrow> dec_ok (scr_dec s) \<and> (case vd_pool (scr_dec s) of None \<Rightarrow> \<not> scr_cur s
     | Some h \<Rightarrow> ph_blocks h = (if scr_cur s then
         (case vf_buffer (vw_pending (scr_widget s)) of None \<Rightarrow> [] | Some (a, b) \<Rightarrow> [(a, b, 1)]) else []))"


lemma keep_blocks:
  assumes "pool_ok sz n h" "acquire_ptr h = (Some (a, b), h')"
    "ph_blocks h = (case old of None \<Rightarrow> [] | Some (a0, b0) \<Rightarrow> [(a0, b0, 1)])"
  shows "ph_blocks (drop_ptr a (drop_frame old (copy_ptr a h'))) = [(a, b, 1)]"
proof -
  have a: "a = ph_next h" "ph_blocks h' = (a, b, 1) # ph_blocks h"
    using assms(2) by (auto simp: acquire_ptr_def acquire_def Let_def split: if_splits)
  have fresh: "a \<notin> fst ` set (ph_blocks h)" using assms(1) a(1) by (auto simp: pool_ok_def)
  have c: "ph_blocks (copy_ptr a h') = (a, b, 2) # ph_blocks h" using a(2) by (simp add: copy_ptr_def)
  have "ph_blocks (drop_frame old (copy_ptr a h')) = [(a, b, 2)]"
  proof (cases old)
    case None
    then show ?thesis using c assms(3) by (simp add: drop_frame_def)
  next
    case (Some ab)
    obtain a0 b0 where ab: "ab = (a0, b0)" by force
    then have "a0 \<noteq> a" using fresh assms(3) Some by auto
    then show ?thesis using c assms(3) Some ab by (simp add: drop_frame_def drop_ptr_def)
  qed
  then show ?thesis by (simp add: drop_ptr_def)
qed

lemma vd_decode_error:
  "\<not> (\<exists>x y pic z. vd_ctx d = Some x \<and> \<not> ef_empty ef \<and>
    ad_send_packet lib (ef_data ef) (to_int32 (int (ef_size ef))) x = (True, y) \<and>
    ad_receive_frame lib y = (Got pic, z) \<and> pic_yuv420p pic) \<Longrightarrow>
   \<exists>e d'. vd_decode lib ef d = (Inl e, d') \<and> (d' = d \<or> (\<exists>x y. vd_ctx d = Some x \<and> d' = d\<lparr>vd_ctx := Some y\<rparr>))"
  by (auto simp: vd_decode_def fail_def Let_def split: option.splits prod.splits bool.splits av_result.splits)

lemma screen_error:
  assumes "screen_ok s" "vd_decode lib ef (scr_dec s) = (Inl e, d')"
    "d' = scr_dec s \<or> (\<exists>x y. vd_ctx (scr_dec s) = Some x \<and> d' = (scr_dec s)\<lparr>vd_ctx := Some y\<rparr>)"
  shows "screen_ok (screen_show lib ef s)"
proof -
  have "dec_ok d'" "vd_pool d' = vd_pool (scr_dec s)" "same_pool (scr_dec s) d' \<longleftrightarrow> vd_pool (scr_dec s) \<noteq> None"
    using assms(1,3) dec_ok_ctx by (auto simp: screen_ok_def same_pool_def)
  then show ?thesis
    using assms(1,2) by (auto simp: screen_show_def show_video_def screen_ok_def Let_def split: option.splits)
qed

lemma screen_picture:
  assumes "screen_ok s" "pictures_fit lib" "copies_plane (ad_copy_plane lib)"
    "vd_ctx (scr_dec s) = Some x" "\<not> ef_empty ef"
    "ad_send_packet lib (ef_data ef) (to_int32 (int (ef_size ef))) x = (True, y)"
    "ad_receive_frame lib y = (Got pic, z)" "pic_yuv420p pic"
  shows "screen_ok (screen_show lib ef s) \<and> (\<exists>f. fst (vd_decode lib ef (scr_dec s)) = Inr f \<and>
     vf_width f = pic_width pic \<and> vf_height f = pic_height pic \<and> vf_rtpTimestamp f = ef_rtpTimestamp ef \<and>
     vw_hasPending (scr_widget (screen_show lib ef s)) \<and> vw_pending (scr_widget (screen_show lib ef s)) = f)"
proof -
  let ?d = "scr_dec s" and ?w = "pic_width pic" and ?h = "pic_height pic"
  have p: "0 < ?w" "?w < 2 ^ 31 - 1" "0 < ?h" "?h < 2 ^ 31 - 1"
    using assms(2,7) unfolding pictures_fit_def by blast+
  have ok: "dec_ok ?d" using assms(1) by (simp add: screen_ok_def)
  define d1 where "d1 = ensurePool ?w ?h ?d"
  obtain h where h: "vd_pool d1 = Some h" using ensurePool_ok [OF ok p(2,4)] unfolding d1_def by auto
  have ok1: "dec_ok d1" using ensurePool_ok [OF ok p(2,4)] unfolding d1_def by auto
  then have pok: "pool_ok (unat (i420Size (vd_poolW d1) (vd_poolH d1))) kPoolDepth h"
    using h by (simp add: dec_ok_def pool_fits_def)
  define cur where "cur = (scr_cur s \<and> same_pool ?d d1)"
  define old where "old = (if cur then vf_buffer (vw_pending (scr_widget s)) else None)"
  have blocks: "ph_blocks h = (case old of None \<Rightarrow> [] | Some (a0, b0) \<Rightarrow> [(a0, b0, 1)])"
  proof (cases "same_pool ?d d1")
    case True
    then have "d1 = ?d" unfolding d1_def by (auto simp: same_pool_def ensurePool_def Let_def split: if_splits)
    then show ?thesis using assms(1) h True by (auto simp: screen_ok_def old_def cur_def)
  next
    case False
    then have "h = new_pool_heap (unat (i420Size (vd_poolW d1) (vd_poolH d1))) kPoolDepth"
      using h unfolding d1_def by (auto simp: same_pool_def ensurePool_def Let_def split: if_splits)
    then show ?thesis using False by (simp add: old_def cur_def new_pool_heap_def)
  qed
  then have "length (live_buffers h) \<noteq> kPoolDepth"
    by (auto simp: live_buffers_def kPoolDepth_def split: option.splits)
  then have "fst (acquire_ptr h) \<noteq> None" using acquire_none_iff [OF pok] by simp
  then obtain a b h' where acq: "acquire_ptr h = (Some (a, b), h')" by (metis not_None_eq prod.collapse)
  define f where "f = (makeI420 (Some (a, b)) ?w ?h (ef_captureTime ef))\<lparr>vf_rtpTimestamp := ef_rtpTimestamp ef\<rparr>"
  define d2 where "d2 = d1\<lparr>vd_ctx := Some z, vd_pool := Some h', vd_mem := copy_planes lib f pic ?w ?h (vd_mem d1)\<rparr>"
  have out: "vf_valid (makeI420 (Some (a, b)) ?w ?h (ef_captureTime ef))"
    "pb_data b + pb_capacity b \<le> length (vd_mem d1)" "vd_decode lib ef ?d = (Inr f, d2)"
    using decode_picture [OF ok assms(4-8) p d1_def h] acq by (simp_all add: f_def d2_def)
  have f: "vf_format f = I420" "vf_buffer f = Some (a, b)" "vf_valid f" "vf_width f = ?w" "vf_height f = ?h" "vf_rtpTimestamp f = ef_rtpTimestamp ef"
    using out(1) by (auto simp: f_def makeI420_def vf_valid_def new_video_frame_def Let_def split: if_splits)
  have set: "setFrame f w = (True, w\<lparr>vw_pending := f, vw_hasPending := True\<rparr>)" for w
    using f(1,3) by (simp add: setFrame_def)
  have same: "same_pool ?d d2 = same_pool ?d d1" by (simp add: same_pool_def d2_def)
  let ?h = "drop_ptr a (drop_frame old (copy_ptr a h'))"
  have "show_video lib (Some (keep_frame (scr_widget s) cur)) ef ?d = ([VideoOut f], d2\<lparr>vd_pool := Some ?h\<rparr>)"
    by (simp add: show_video_def out(3) keep_frame_def set f(2) drop_frame_def copy_frame_def old_def d2_def)
  then have step: "screen_show lib ef s = s\<lparr>scr_dec := d2\<lparr>vd_pool := Some ?h\<rparr>,
      scr_widget := (scr_widget s)\<lparr>vw_pending := f, vw_hasPending := True\<rparr>, scr_cur := True\<rparr>"
    by (simp add: screen_show_def out(3) same cur_def set)
  have "dec_ok d2" using vd_decode_ok [OF ok assms(2,3), of ef] out(3) by simp
  moreover have "pool_ok (unat (i420Size (vd_poolW d1) (vd_poolH d1))) kPoolDepth ?h"
    using acquire_fresh(1) [OF pok acq] copy_ptr_ok drop_frame_ok drop_ptr_ok by blast
  ultimately have "dec_ok (d2\<lparr>vd_pool := Some ?h\<rparr>)" by (simp add: dec_ok_def pool_fits_def d2_def)
  then show ?thesis
    using keep_blocks [OF pok acq blocks] f out(3) by (simp add: step screen_ok_def)
qed

lemma screen_show_ok:
  assumes "screen_ok s" "pictures_fit lib" "copies_plane (ad_copy_plane lib)"
  shows "screen_ok (screen_show lib ef s)"
proof (cases "\<exists>x y pic z. vd_ctx (scr_dec s) = Some x \<and> \<not> ef_empty ef \<and>
    ad_send_packet lib (ef_data ef) (to_int32 (int (ef_size ef))) x = (True, y) \<and>
    ad_receive_frame lib y = (Got pic, z) \<and> pic_yuv420p pic")
  case True
  then show ?thesis using screen_picture [OF assms] by blast
next
  case False
  then show ?thesis using vd_decode_error [OF False] screen_error [OF assms(1)] by blast
qed

lemma screen_run_ok:
  "screen_ok s \<Longrightarrow> pictures_fit lib \<Longrightarrow> copies_plane (ad_copy_plane lib) \<Longrightarrow> screen_ok (screen_run lib efs s)"
  by (induction efs arbitrary: s) (simp_all add: screen_show_ok)

lemma screen_ok_new: "screen_ok (new_screen lib)"
proof -
  have "dec_ok (snd (vd_open lib new_video_decoder))" by (rule vd_open_ok) (simp add: dec_ok_def new_video_decoder_def)
  moreover have "vd_pool (snd (vd_open lib new_video_decoder)) = None"
    by (auto simp: vd_open_def new_video_decoder_def Let_def split: option.splits)
  ultimately show ?thesis by (simp add: screen_ok_def new_screen_def)
qed

text \<open>C28. Playing on a tile never starves: after any sequence of access units, valid or not and
  with any changes of the picture size, a unit for which the codec produces a picture puts that picture on
  the tile, with the unit's timestamp. The pool cannot run out, because the tile holds one
  buffer at a time.\<close>

theorem screen_never_starves:
  assumes "pictures_fit lib" "copies_plane (ad_copy_plane lib)" "s = screen_run lib efs (new_screen lib)"
    "vd_ctx (scr_dec s) = Some x" "\<not> ef_empty ef"
    "ad_send_packet lib (ef_data ef) (to_int32 (int (ef_size ef))) x = (True, y)"
    "ad_receive_frame lib y = (Got pic, z)" "pic_yuv420p pic"
  shows "\<exists>f. fst (vd_decode lib ef (scr_dec s)) = Inr f \<and>
     vf_width f = pic_width pic \<and> vf_height f = pic_height pic \<and> vf_rtpTimestamp f = ef_rtpTimestamp ef \<and>
     mailbox (scr_widget (screen_show lib ef s)) = Some f"
proof -
  have "screen_ok s" unfolding assms(3) by (rule screen_run_ok [OF screen_ok_new assms(1,2)])
  from screen_picture [OF this assms(1,2,4-8)] show ?thesis by (auto simp: mailbox_def)
qed

lemma screen_never_starves_witness:
  "\<exists>f. fst (vd_decode demo_codec demo_encoded (scr_dec (screen_run demo_codec [demo_encoded, demo_encoded] (new_screen demo_codec)))) = Inr f \<and>
     vf_width f = 2 \<and> vf_rtpTimestamp f = 90"
proof -
  define s where "s = screen_run demo_codec [demo_encoded, demo_encoded] (new_screen demo_codec)"
  have fits: "pictures_fit demo_codec" by (auto simp: pictures_fit_def demo_codec_def demo_picture_def)
  have cp: "copies_plane (ad_copy_plane demo_codec)" by (simp add: demo_codec_def copies_plane_copy_rows)
  have ctx: "vd_ctx (snd (vd_decode demo_codec ef d)) \<noteq> None" if "vd_ctx d \<noteq> None" for ef d
    using that by (auto simp: vd_decode_def Let_def ensurePool_def split: option.splits prod.splits bool.splits av_result.splits)
  have keep: "vd_ctx (scr_dec (screen_show demo_codec ef t)) \<noteq> None" if "vd_ctx (scr_dec t) \<noteq> None" for ef t
    using ctx [OF that, of ef] by (auto simp: screen_show_def show_video_def Let_def split: prod.splits sum.splits option.splits)
  have "vd_ctx (scr_dec (new_screen demo_codec)) \<noteq> None"
    by (simp add: new_screen_def vd_open_def demo_codec_def new_video_decoder_def Let_def ok_def)
  then obtain x where x: "vd_ctx (scr_dec s) = Some x" unfolding s_def using keep by simp blast
  have lib: "ad_send_packet demo_codec p n x = (True, x + 1)" "ad_receive_frame demo_codec (x + 1) = (Got demo_picture, x + 1)" for p n
    by (simp_all add: demo_codec_def)
  have ne: "\<not> ef_empty demo_encoded" "ef_rtpTimestamp demo_encoded = 90" "pic_yuv420p demo_picture" "pic_width demo_picture = 2"
    by (simp_all add: demo_encoded_def ef_empty_iff demo_picture_def)
  show ?thesis
    using screen_never_starves [OF fits cp s_def x ne(1) lib(1) lib(2) ne(3)] ne(2,4) unfolding s_def by auto
qed

end
