(* ===== verification/Sfu_App.thy ===== *)
theory Sfu_App
  imports Sfu Rooms Transport
begin

text \<open>
  The integrated media server: sfu-server/main.cpp. Each client has one ICE connection to the
  server; packets it receives there go through the forwarding unit to the transports of the other
  members of the room. The loop thread runs the socket handlers and the deferred closures; the threads of
  libjuice and of the DTLS handshakes run the callbacks of the transports. Every callback, handler and deferred
  closure is one step.

  A \<^verbatim>\<open>ClientState\<close> object is identified by the number of its allocation and lives in the entry of the
  socket that owns it; a weak reference, and the raw pointer of a sink to the transport, are that
  number. Following a pointer to a destroyed object is the outcome \<open>None\<close> of a step, as is an
  exception that leaves a handler.
\<close>

section \<open>State\<close>

record ('e, 's) client_state =
  cl_id :: string
  cl_room :: string
  cl_transport :: "('e, 's) rtp_transport"
  cl_alive :: bool
  cl_joinedSfu :: bool

datatype deferred = DeferIce nat string | DeferJoin nat

record ('e, 's) sfu_app =
  ap_sfu :: "nat sfu_server"
  ap_nextId :: u32
  ap_sockets :: "(conn \<times> nat \<times> ('e, 's) client_state) list"
  ap_allocated :: nat
  ap_deferred :: "deferred list"

definition new_sfu_app :: "('e, 's) sfu_app" where
  "new_sfu_app = \<lparr>ap_sfu = new_sfu_server, ap_nextId = 1, ap_sockets = [], ap_allocated = 0, ap_deferred = []\<rparr>"

text \<open>What the process gets from outside: the libraries, the ICE configuration and the
  fingerprint of its certificate; and, for one step, the answers of libjuice.\<close>

record ('e, 's) app_env =
  ae_dtls :: "'e dtls_engine"
  ae_srtp :: "'s srtp_lib"
  ae_parse :: "string \<Rightarrow> json option"
  ae_config :: nat_config
  ae_fingerprint :: string

record juice_answers =
  jo_created :: bool
  jo_accepts :: "string \<Rightarrow> bool"
  jo_description :: "string option"

datatype app_out = ToClient conn json | EndConn conn

definition reply :: "string \<Rightarrow> string \<Rightarrow> string \<Rightarrow> json" where
  "reply type key value = JObject [(''type'', JString type), (key, JString value)]"

text \<open>The argument check of \<^verbatim>\<open>main\<close>: the port, or nothing when the program exits.\<close>

definition listen_port :: "string option \<Rightarrow> int option" where
  "listen_port arg = (case arg of None \<Rightarrow> Some 8080
     | Some s \<Rightarrow> let port = atoi s in if port \<le> 0 \<or> port > 65535 then None else Some port)"

section \<open>Objects\<close>

text \<open>\<^verbatim>\<open>weak.lock()\<close>, and writing to the object.\<close>

definition client :: "nat \<Rightarrow> ('e, 's) sfu_app \<Rightarrow> ('e, 's) client_state option" where
  "client k a = map_of (map snd (ap_sockets a)) k"

definition socket_of :: "nat \<Rightarrow> ('e, 's) sfu_app \<Rightarrow> conn option" where
  "socket_of k a = map_of (map (\<lambda>(ws, k, c). (k, ws)) (ap_sockets a)) k"

definition put_client :: "nat \<Rightarrow> ('e, 's) client_state \<Rightarrow> ('e, 's) sfu_app \<Rightarrow> ('e, 's) sfu_app" where
  "put_client k c a = a\<lparr>ap_sockets := map (\<lambda>(ws, k', c'). (ws, k', if k' = k then c else c')) (ap_sockets a)\<rparr>"

section \<open>Message handler\<close>

definition app_callbacks :: transport_callbacks where
  "app_callbacks = \<lparr>tc_onPacket = True, tc_onLocalCandidate = True, tc_onStateChanged = True, tc_onGatheringDone = False\<rparr>"

definition app_join :: "('e, 's) app_env \<Rightarrow> juice_answers \<Rightarrow> conn \<Rightarrow> (string \<times> json) list \<Rightarrow> ('e, 's) sfu_app
    \<Rightarrow> (('e, 's) sfu_app \<times> app_out list) option" where
  "app_join env jo ws obj a =
    (if map_of (ap_sockets a) ws \<noteq> None then Some (a, [])
     else let numId = ap_nextId a; a = a\<lparr>ap_nextId := numId + 1\<rparr> in
       case value_string ''room'' [] obj of
         None \<Rightarrow> None
       | Some room \<Rightarrow>
           if room = [] then Some (a, [ToClient ws (reply ''error'' ''reason'' ''missing room'')])
           else let (s, t) = tr_initialize (jo_created jo) (ae_config env) app_callbacks
                               (enableSecurity False new_rtp_transport) in
             if \<not> has_value s then Some (a, [ToClient ws (reply ''error'' ''reason'' ''ICE init failed'')])
             else let k = ap_allocated a;
                      st = \<lparr>cl_id = decimal (unat numId), cl_room = room, cl_transport = t, cl_alive = True,
                            cl_joinedSfu = False\<rparr>
                  in Some (a\<lparr>ap_sockets := (ws, k, st) # ap_sockets a, ap_allocated := k + 1\<rparr>,
                       [ToClient ws (JObject [(''type'', JString ''joined''), (''room'', JString room),
                                              (''id'', JInt (uint numId))])]))"

definition app_offer :: "('e, 's) app_env \<Rightarrow> juice_answers \<Rightarrow> conn \<Rightarrow> nat \<Rightarrow> ('e, 's) client_state \<Rightarrow> (string \<times> json) list
    \<Rightarrow> ('e, 's) sfu_app \<Rightarrow> (('e, 's) sfu_app \<times> app_out list) option" where
  "app_offer env jo ws k st obj a =
    (case value_string ''payload'' [] obj of
       None \<Rightarrow> None
     | Some text \<Rightarrow>
         let (ice, fp) = unpackDescription text in
         if \<not> has_value (setRemoteDescription (jo_accepts jo) ice (tr_nat (cl_transport st)))
         then Some (a, [ToClient ws (reply ''error'' ''reason'' ''bad offer'')])
         else let t = setRemoteFingerprint (ae_dtls env) fp (cl_transport st);
                  a = put_client k (st\<lparr>cl_transport := t\<rparr>) a
              in case localDescription (jo_description jo) (tr_nat t) of
                   Inl e \<Rightarrow> Some (a, [])
                 | Inr answer \<Rightarrow> Some (a, [ToClient ws (reply ''answer'' ''payload''
                     (packDescription answer (ae_fingerprint env)))]))"

text \<open>The status of \<^verbatim>\<open>addRemoteCandidate\<close> is discarded.\<close>

definition app_ice :: "juice_answers \<Rightarrow> ('e, 's) client_state \<Rightarrow> (string \<times> json) list \<Rightarrow> status option" where
  "app_ice jo st obj = map_option (\<lambda>cand. addRemoteCandidate (jo_accepts jo) cand (tr_nat (cl_transport st)))
     (value_string ''payload'' [] obj)"

definition app_message :: "('e, 's) app_env \<Rightarrow> juice_answers \<Rightarrow> conn \<Rightarrow> bool \<Rightarrow> string \<Rightarrow> ('e, 's) sfu_app
    \<Rightarrow> (('e, 's) sfu_app \<times> app_out list) option" where
  "app_message env jo ws isText msg a =
    (if \<not> isText then Some (a, [])
     else case ae_parse env msg of
         Some (JObject obj) \<Rightarrow>
           (case value_string ''type'' [] obj of
              None \<Rightarrow> None
            | Some type \<Rightarrow>
                if type = ''join'' then app_join env jo ws obj a
                else (case map_of (ap_sockets a) ws of
                  None \<Rightarrow> Some (a, [])
                | Some (k, st) \<Rightarrow>
                    if type = ''offer'' then app_offer env jo ws k st obj a
                    else if type = ''ice'' then map_option (\<lambda>s. (a, [])) (app_ice jo st obj)
                    else if type = ''leave'' then Some (a, [EndConn ws])
                    else Some (a, [])))
       | _ \<Rightarrow> Some (a, []))"

text \<open>Closing a socket clears the flag of its client, takes it out of the forwarding unit and destroys it.\<close>

definition app_close :: "conn \<Rightarrow> ('e, 's) sfu_app \<Rightarrow> ('e, 's) sfu_app" where
  "app_close ws a = (case map_of (ap_sockets a) ws of
     None \<Rightarrow> a
   | Some (k, st) \<Rightarrow>
       let (s, sfu) = removeParticipant (cl_room st) (cl_id st) (ap_sfu a)
       in a\<lparr>ap_sfu := sfu, ap_sockets := AList.delete ws (ap_sockets a)\<rparr>)"

section \<open>Deferred closures\<close>

definition app_deferred :: "('e, 's) sfu_app \<Rightarrow> ('e, 's) sfu_app \<times> app_out list" where
  "app_deferred a = (case ap_deferred a of
     [] \<Rightarrow> (a, [])
   | DeferIce k cand # ds \<Rightarrow>
       let a = a\<lparr>ap_deferred := ds\<rparr> in
       (case (client k a, socket_of k a) of
          (Some st, Some ws) \<Rightarrow> (a, if cl_alive st then [ToClient ws (reply ''ice'' ''payload'' cand)] else [])
        | _ \<Rightarrow> (a, []))
   | DeferJoin k # ds \<Rightarrow>
       let a = a\<lparr>ap_deferred := ds\<rparr> in
       (case client k a of
          None \<Rightarrow> (a, [])
        | Some st \<Rightarrow>
            if \<not> cl_alive st \<or> cl_joinedSfu st then (a, [])
            else let (res, asked, sfu) = addParticipant (cl_room st) (cl_id st) (Some k) (ap_sfu a)
                 in ((put_client k (st\<lparr>cl_joinedSfu := True\<rparr>) a)\<lparr>ap_sfu := sfu\<rparr>, [])))"

section \<open>Callbacks of the transports\<close>

text \<open>The sinks called by the forwarding unit, each \<^verbatim>\<open>send\<close> on the transport it points to. The result
  lists the datagrams with the client they go to.\<close>

fun app_sinks :: "('e, 's) app_env \<Rightarrow> bool \<Rightarrow> (nat \<times> rtp_packet) list \<Rightarrow> ('e, 's) sfu_app
    \<Rightarrow> (('e, 's) sfu_app \<times> (nat \<times> bytes) list) option" where
  "app_sinks env juice_ok [] a = Some (a, [])"
| "app_sinks env juice_ok ((k, pkt) # ds) a = (case client k a of
     None \<Rightarrow> None
   | Some st \<Rightarrow>
       let (s, sent, t) = tr_send (ae_srtp env) juice_ok pkt (cl_transport st)
       in (case app_sinks env juice_ok ds (put_client k (st\<lparr>cl_transport := t\<rparr>) a) of
             None \<Rightarrow> None | Some (a, out) \<Rightarrow> Some (a, map (Pair k) sent @ out)))"

definition app_route :: "('e, 's) app_env \<Rightarrow> bool \<Rightarrow> string \<Rightarrow> string \<Rightarrow> rtp_packet \<Rightarrow> ('e, 's) sfu_app
    \<Rightarrow> (('e, 's) sfu_app \<times> (nat \<times> bytes) list) option" where
  "app_route env juice_ok room i pkt a =
    (let (sfu, ds) = routePacket room i pkt (ap_sfu a) in app_sinks env juice_ok ds (a\<lparr>ap_sfu := sfu\<rparr>))"

text \<open>The events a transport of client \<open>k\<close> (of room and id as captured) delivers.\<close>

fun app_events :: "('e, 's) app_env \<Rightarrow> bool \<Rightarrow> nat \<Rightarrow> string \<Rightarrow> string \<Rightarrow> transport_event list \<Rightarrow> ('e, 's) sfu_app
    \<Rightarrow> (('e, 's) sfu_app \<times> (nat \<times> bytes) list) option" where
  "app_events env juice_ok k room i [] a = Some (a, [])"
| "app_events env juice_ok k room i (TCandidate c # evs) a =
     app_events env juice_ok k room i evs (a\<lparr>ap_deferred := ap_deferred a @ [DeferIce k c]\<rparr>)"
| "app_events env juice_ok k room i (TState s # evs) a =
     app_events env juice_ok k room i evs
       (if s \<noteq> IceConnected \<and> s \<noteq> IceCompleted then a else a\<lparr>ap_deferred := ap_deferred a @ [DeferJoin k]\<rparr>)"
| "app_events env juice_ok k room i (TPacket p # evs) a = (case app_route env juice_ok room i p a of
     None \<Rightarrow> None
   | Some (a, out) \<Rightarrow> (case app_events env juice_ok k room i evs a of
        None \<Rightarrow> None | Some (a, out') \<Rightarrow> Some (a, out @ out')))"
| "app_events env juice_ok k room i (TGatheringDone # evs) a = app_events env juice_ok k room i evs a"

text \<open>What the agent of client \<open>k\<close> reports; an agent is destroyed with its client and then reports nothing.\<close>

datatype agent_report = CandidateFound "string option" | StateIs juice_state | Received bytes

definition app_agent :: "('e, 's) app_env \<Rightarrow> bool \<Rightarrow> nat \<Rightarrow> agent_report \<Rightarrow> ('e, 's) sfu_app
    \<Rightarrow> (('e, 's) sfu_app \<times> (nat \<times> bytes) list) option" where
  "app_agent env juice_ok k r a = (case client k a of
     None \<Rightarrow> Some (a, [])
   | Some st \<Rightarrow>
       let (t, evs) = (case r of
             CandidateFound sdp \<Rightarrow> tr_events (ae_dtls env) (ae_srtp env) (handleCandidate sdp (tr_nat (cl_transport st))) (cl_transport st)
           | StateIs js \<Rightarrow> juice_state_changed (ae_dtls env) (ae_srtp env) js (cl_transport st)
           | Received d \<Rightarrow> juice_recv (ae_dtls env) (ae_srtp env) d (cl_transport st))
       in app_events env juice_ok k (cl_room st) (cl_id st) evs (put_client k (st\<lparr>cl_transport := t\<rparr>) a))"

text \<open>The DTLS thread of client \<open>k\<close>.\<close>

definition app_handshake :: "('e, 's) app_env \<Rightarrow> bool \<Rightarrow> nat \<Rightarrow> round list \<Rightarrow> ('e, 's) sfu_app
    \<Rightarrow> ('e, 's) sfu_app \<times> (nat \<times> bytes) list" where
  "app_handshake env juice_ok k rs a = (case client k a of
     None \<Rightarrow> (a, [])
   | Some st \<Rightarrow> let (t, sent) = tr_dtls_run (ae_dtls env) (ae_srtp env) juice_ok rs (cl_transport st)
       in (put_client k (st\<lparr>cl_transport := t\<rparr>) a, map (Pair k) sent))"

text \<open>The states the server reaches.\<close>

definition dtls_running :: "('e, 's) rtp_transport \<Rightarrow> bool" where
  "dtls_running t = (case tr_dtls t of Some d \<Rightarrow> ds_running d | None \<Rightarrow> False)"

inductive app_reachable :: "('e, 's) app_env \<Rightarrow> ('e, 's) sfu_app \<Rightarrow> bool" for env where
  start: "app_reachable env new_sfu_app"
| message: "app_reachable env a \<Longrightarrow> app_message env jo ws isText msg a = Some (a', out) \<Longrightarrow> app_reachable env a'"
| close: "app_reachable env a \<Longrightarrow> app_reachable env (app_close ws a)"
| deferred: "app_reachable env a \<Longrightarrow> app_reachable env (fst (app_deferred a))"
| agent: "app_reachable env a \<Longrightarrow> app_agent env juice_ok k r a = Some (a', sent) \<Longrightarrow> app_reachable env a'"
| handshake: "app_reachable env a \<Longrightarrow> client k a = Some st \<Longrightarrow> dtls_running (cl_transport st) \<Longrightarrow>
    app_reachable env (fst (app_handshake env juice_ok k rs a))"


section \<open>Seats in the forwarding unit\<close>

text \<open>The sink of the member \<open>i\<close> of room \<open>rid\<close>, if there is such a member.\<close>

definition seat :: "string \<Rightarrow> string \<Rightarrow> 's sfu_server \<Rightarrow> 's option option" where
  "seat rid i s = (case findRoom rid s of None \<Rightarrow> None | Some r \<Rightarrow> map_option pt_sink (map_of (rm_participants r) i))"

lemma seat_put: "seat rid i (put_room rid' r s) =
    (if rid = rid' then map_option pt_sink (map_of (rm_participants r) i) else seat rid i s)"
  by (simp add: seat_def)

lemma room_add_seat:
  assumes "room_add i sink r = (res, asked, r')"
  shows "map_option pt_sink (map_of (rm_participants r') j) =
    (if (\<exists>p. res = Inr p) \<and> j = i then Some sink else map_option pt_sink (map_of (rm_participants r) j))"
  using assms by (auto simp: room_add_def Let_def map_add_def setNeedsKeyframe_def new_participant_def fail_def split: if_splits option.splits)

lemma seat_add:
  assumes "addParticipant rid i sink s = (res, asked, s')"
  shows "seat rid' j s' = (if (\<exists>p. res = Inr p) \<and> rid' = rid \<and> j = i then Some sink else seat rid' j s)"
proof -
  let ?r = "case findRoom rid s of Some r \<Rightarrow> r | None \<Rightarrow> new_room rid (sv_keyframeRequest s) kMaxParticipants"
  obtain r' where r': "room_add i sink ?r = (res, asked, r')" "s' = put_room rid r' s"
    using assms by (auto simp: addParticipant_def Let_def split: prod.splits)
  have "map_option pt_sink (map_of (rm_participants ?r) j) = seat rid j s"
    by (simp add: seat_def new_room_def split: option.split)
  then show ?thesis unfolding r'(2) seat_put room_add_seat [OF r'(1)] by simp
qed

lemma recompute_sinks: "map_option pt_sink (map_of (recomputeTargetsLocked ps) j) = map_option pt_sink (map_of ps j)"
proof -
  have "map_option pt_sink (map_of (map (\<lambda>(k, p). let (m, any) = min_estimate k qs (-1, False)
           in (k, setTargetBitrate (if any then m else 0) p)) ps) j) = map_option pt_sink (map_of ps j)" for ps qs :: "'a members"
    by (induction ps) (auto simp: Let_def setTargetBitrate_def split: prod.splits)
  then show ?thesis by (simp add: recomputeTargetsLocked_def)
qed

lemma seat_remove:
  "seat rid' j (snd (removeParticipant rid i s)) = (if rid' = rid \<and> j = i then None else seat rid' j s)"
proof (cases "findRoom rid s")
  case None
  then show ?thesis by (simp add: removeParticipant_def seat_def)
next
  case (Some r)
  obtain st r' where r': "room_remove i r = (st, r')" by fastforce
  have sinks: "map_option pt_sink (map_of (rm_participants r') j) = (if j = i then None else map_option pt_sink (map_of (rm_participants r) j))" for j
    using r' recompute_sinks [of "AList.delete i (rm_participants r)" j]
    by (auto simp: room_remove_def alist_simps split: if_splits)
  show ?thesis
  proof (cases "room_size r' = 0")
    case True
    then have "map_of (rm_participants r') j = None" by (simp add: room_size_def)
    then have "rid' = rid \<Longrightarrow> j \<noteq> i \<Longrightarrow> seat rid' j s = None" using sinks [of j] Some by (simp add: seat_def)
    then show ?thesis using Some r' True
      by (auto simp: removeParticipant_def seat_def findRoom_def alist_simps)
  next
    case False
    then show ?thesis using Some r' sinks [of j] by (cases "j = i") (auto simp: removeParticipant_def seat_def)
  qed
qed

text \<open>Routing changes no seat and delivers to the seats of the other members of the room.\<close>

lemma seat_route:
  assumes "sfu_ok s" "routePacket rid i pkt s = (s', ds)"
  shows "seat rid' j s' = seat rid' j s" "\<forall>(k, p)\<in>set ds. p = pkt \<and> (\<exists>j. j \<noteq> i \<and> seat rid j s = Some (Some k))"
proof -
  have "(seat rid' j s' = seat rid' j s) \<and> (\<forall>(k, p)\<in>set ds. p = pkt \<and> (\<exists>j. j \<noteq> i \<and> seat rid j s = Some (Some k)))"
  proof (cases "findRoom rid s")
    case None
    then show ?thesis using assms(2) by (simp add: routePacket_def)
  next
    case (Some r)
    obtain r' where r': "room_forward i pkt r = (r', ds)" "s' = put_room rid r' s"
      using assms(2) Some by (auto simp: routePacket_def split: prod.splits)
    have dist: "distinct (map fst (rm_participants r))"
      using findRoom_ok [OF assms(1) Some] by (simp add: room_ok_def room_members_def)
    have look: "map_option pt_sink (map_of (map (\<lambda>(k, p). (k, if k = i then p else fst (deliver pkt p))) ps) j) =
        map_option pt_sink (map_of ps j)" for ps :: "'a members"
      by (induction ps) (auto simp: deliver_def)
    have "map_option pt_sink (map_of (rm_participants r') j) = map_option pt_sink (map_of (rm_participants r) j)"
      using r'(1) look by (auto simp: room_forward_def forward_loop_members [symmetric] split: if_splits prod.splits)
        (metis fst_conv forward_loop_members)
    moreover have "p = pkt \<and> (\<exists>j. j \<noteq> i \<and> seat rid j s = Some (Some k))" if "(k, p) \<in> set ds" for k p
    proof -
      have "(k, p) \<in> set (snd (forward_loop i pkt (rm_participants r)))"
        using that r'(1) by (auto simp: room_forward_def split: if_splits prod.splits)
      then obtain j q where "(j, q) \<in> set (rm_participants r)" "j \<noteq> i" "pt_sink q = Some k" "p = pkt"
        unfolding forward_loop_deliveries by (auto split: if_splits option.splits)
      then show ?thesis using map_of_SomeI [OF dist] Some by (auto simp: seat_def)
    qed
    ultimately show ?thesis using Some by (auto simp: r'(2) seat_put) (simp_all add: seat_def)
  qed
  then show "seat rid' j s' = seat rid' j s" "\<forall>(k, p)\<in>set ds. p = pkt \<and> (\<exists>j. j \<noteq> i \<and> seat rid j s = Some (Some k))" by blast+
qed


section \<open>The invariant\<close>

definition client_ok :: "('e, 's) app_env \<Rightarrow> ('e, 's) client_state \<Rightarrow> bool" where
  "client_ok env c \<longleftrightarrow> cl_alive c \<and> cl_room c \<noteq> [] \<and> tr_reachable (ae_dtls env) (ae_srtp env) (cl_transport c)"

definition sockets_ok :: "('e, 's) app_env \<Rightarrow> ('e, 's) sfu_app \<Rightarrow> bool" where
  "sockets_ok env a \<longleftrightarrow> distinct (map fst (ap_sockets a)) \<and> distinct (map (fst \<circ> snd) (ap_sockets a)) \<and>
     (\<forall>k c. client k a = Some c \<longrightarrow> k < ap_allocated a \<and> client_ok env c)"

definition seats_ok :: "('e, 's) sfu_app \<Rightarrow> bool" where
  "seats_ok a \<longleftrightarrow> (\<forall>rid i sk. seat rid i (ap_sfu a) = Some sk \<longrightarrow>
     (\<exists>k c. sk = Some k \<and> client k a = Some c \<and> cl_room c = rid \<and> cl_id c = i \<and> cl_joinedSfu c))"

definition app_ok :: "('e, 's) app_env \<Rightarrow> ('e, 's) sfu_app \<Rightarrow> bool" where
  "app_ok env a \<longleftrightarrow> sfu_ok (ap_sfu a) \<and> \<not> sv_keyframeRequest (ap_sfu a) \<and> sockets_ok env a \<and> seats_ok a"

lemma app_ok_new: "app_ok env new_sfu_app"
  by (simp add: app_ok_def sockets_ok_def seats_ok_def new_sfu_app_def sfu_ok_new client_def seat_def findRoom_def)
    (simp_all add: new_sfu_server_def)

lemma client_put: "client k' (put_client k c a) = (if k' = k then map_option (\<lambda>_. c) (client k a) else client k' a)"
proof -
  have "map_of (map snd (map (\<lambda>(ws, k', c'). (ws, k', if k' = k then c else c')) xs)) k' =
      (if k' = k then map_option (\<lambda>_. c) (map_of (map snd xs) k) else map_of (map snd xs) k')" for xs :: "(conn \<times> nat \<times> ('a, 'b) client_state) list"
    by (induction xs) auto
  then show ?thesis by (simp add: client_def put_client_def)
qed

lemma put_fields [simp]: "ap_sfu (put_client k c a) = ap_sfu a" "ap_allocated (put_client k c a) = ap_allocated a"
  "ap_deferred (put_client k c a) = ap_deferred a" "map fst (ap_sockets (put_client k c a)) = map fst (ap_sockets a)"
  "map (fst \<circ> snd) (ap_sockets (put_client k c a)) = map (fst \<circ> snd) (ap_sockets a)"
  by (auto simp: put_client_def)

lemma put_client_ok:
  assumes "sockets_ok env a" "seats_ok a" "client k a = Some c" "client_ok env c'" "cl_room c' = cl_room c" "cl_id c' = cl_id c"
    "cl_joinedSfu c \<Longrightarrow> cl_joinedSfu c'"
  shows "sockets_ok env (put_client k c' a)" "seats_ok (put_client k c' a)"
proof -
  show "sockets_ok env (put_client k c' a)" using assms(1,3,4) by (auto simp: sockets_ok_def client_put)
  have "\<exists>k' c2. sk = Some k' \<and> client k' (put_client k c' a) = Some c2 \<and> cl_room c2 = rid \<and> cl_id c2 = i \<and> cl_joinedSfu c2"
    if seat: "seat rid i (ap_sfu a) = Some sk" for rid i sk
  proof -
    obtain k' c1 where "sk = Some k'" "client k' a = Some c1" "cl_room c1 = rid" "cl_id c1 = i" "cl_joinedSfu c1"
      using assms(2) seat unfolding seats_ok_def by blast
    then show ?thesis using assms(3,5-7) by (cases "k' = k") (auto simp: client_put)
  qed
  then show "seats_ok (put_client k c' a)" by (simp add: seats_ok_def)
qed

lemma transport_ok:
  assumes "app_ok env a" "client k a = Some c" "tr_reachable (ae_dtls env) (ae_srtp env) t"
  shows "app_ok env (put_client k (c\<lparr>cl_transport := t\<rparr>) a)"
proof -
  have "client_ok env (c\<lparr>cl_transport := t\<rparr>)" using assms by (auto simp: app_ok_def sockets_ok_def client_ok_def)
  from put_client_ok [OF _ _ assms(2) this] assms(1) show ?thesis by (simp add: app_ok_def)
qed

lemma ok_defer [simp]: "app_ok env (a\<lparr>ap_deferred := ds\<rparr>) = app_ok env a" "app_ok env (a\<lparr>ap_nextId := n\<rparr>) = app_ok env a"
  "client k (a\<lparr>ap_deferred := ds\<rparr>) = client k a" "client k (a\<lparr>ap_sfu := sfu\<rparr>) = client k a"
  by (simp_all add: app_ok_def sockets_ok_def seats_ok_def client_def)

lemma ok_client: "app_ok env a \<Longrightarrow> client k a = Some c \<Longrightarrow> client_ok env c \<and> tr_reachable (ae_dtls env) (ae_srtp env) (cl_transport c)"
  by (auto simp: app_ok_def sockets_ok_def client_ok_def)

lemma message_ok:
  fixes env :: "('e, 's) app_env"
  assumes "app_ok env a" "app_message env jo ws isText msg a = Some (a', out)"
  shows "app_ok env a'"
proof -
  have join: "app_ok env a'" if j: "app_join env jo ws obj a = Some (a', out)" for obj
  proof (cases "map_of (ap_sockets a) ws")
    case (Some x)
    then show ?thesis using j assms(1) by (simp add: app_join_def)
  next
    case None
    let ?t = "enableSecurity False new_rtp_transport :: ('e, 's) rtp_transport"
    obtain s t where t: "tr_initialize (jo_created jo) (ae_config env) app_callbacks ?t = (s, t)" by fastforce
    have "tr_reachable (ae_dtls env) (ae_srtp env) (snd (tr_initialize (jo_created jo) (ae_config env) app_callbacks ?t))"
      by (intro tr_reachable.initialize tr_reachable.start)
    then have tr: "tr_reachable (ae_dtls env) (ae_srtp env) t" using t by simp
    let ?st = "\<lambda>room. \<lparr>cl_id = decimal (unat (ap_nextId a)), cl_room = room, cl_transport = t, cl_alive = True, cl_joinedSfu = False\<rparr>"
    have "a' = a\<lparr>ap_nextId := ap_nextId a + 1\<rparr> \<or> (\<exists>room. room \<noteq> [] \<and>
        a' = a\<lparr>ap_nextId := ap_nextId a + 1, ap_sockets := (ws, ap_allocated a, ?st room) # ap_sockets a, ap_allocated := ap_allocated a + 1\<rparr>)"
      using j None t by (auto simp: app_join_def Let_def split: option.splits if_splits)
    moreover have "client_ok env (?st room)" if "room \<noteq> []" for room using tr that by (simp add: client_ok_def)
    ultimately consider "a' = a\<lparr>ap_nextId := ap_nextId a + 1\<rparr>" | st where "client_ok env st"
        "a' = a\<lparr>ap_nextId := ap_nextId a + 1, ap_sockets := (ws, ap_allocated a, st) # ap_sockets a, ap_allocated := ap_allocated a + 1\<rparr>"
      by metis
    then show ?thesis
    proof cases
      case 1
      then show ?thesis using assms(1) by simp
    next
      case (2 st)
      have new: "client k a' = (if k = ap_allocated a then Some st else client k a)" for k by (simp add: client_def 2(2))
      have old: "k < ap_allocated a" if "client k a = Some c" for k c using assms(1) that by (auto simp: app_ok_def sockets_ok_def)
      have "client (ap_allocated a) a = None" using old [of "ap_allocated a"] by (cases "client (ap_allocated a) a") auto
      then have "ap_allocated a \<notin> fst ` set (map snd (ap_sockets a))" by (simp only: client_def map_of_None_iff not_False_eq_True)
      then have "sockets_ok env a'"
        using assms(1) None 2(1) old unfolding sockets_ok_def new
        by (auto simp: 2(2) app_ok_def sockets_ok_def map_of_None_iff image_image less_SucI)
      moreover have "seats_ok a'" using assms(1) old unfolding seats_ok_def new by (force simp: 2(2) app_ok_def seats_ok_def)
      ultimately show ?thesis using assms(1) by (simp add: app_ok_def 2(2))
    qed
  qed
  show ?thesis
  proof (cases "\<exists>obj. app_join env jo ws obj a = Some (a', out)")
    case True
    then show ?thesis using join by blast
  next
    case False
    then consider "a' = a" | k st obj where "map_of (ap_sockets a) ws = Some (k, st)" "app_offer env jo ws k st obj a = Some (a', out)"
      using assms(2) by (auto simp: app_message_def app_ice_def split: if_splits option.splits json.splits)
    then show ?thesis
    proof cases
      case (2 k st obj)
      have k: "client k a = Some st"
        using 2(1) assms(1) by (auto simp: client_def app_ok_def sockets_ok_def comp_def intro!: map_of_SomeI dest: map_of_SomeD intro: rev_image_eqI)
      have "tr_reachable (ae_dtls env) (ae_srtp env) (setRemoteFingerprint (ae_dtls env) fp (cl_transport st))" for fp
        using ok_client [OF assms(1) k] by (auto intro: tr_reachable.fingerprint)
      then show ?thesis using 2(2) transport_ok [OF assms(1) k] assms(1)
        by (auto simp: app_offer_def Let_def split: option.splits if_splits prod.splits sum.splits)
    qed (use assms(1) in simp)
  qed
qed


text \<open>A socket's entry is its client's only owner: deleting it destroys that client and no other.\<close>

lemma delete_owner:
  assumes "distinct (map fst xs)" "distinct (map (fst \<circ> snd) xs)" "map_of xs ws = Some (k, c)"
  shows "map_of (map snd (AList.delete ws xs)) k' = (if k' = k then None else map_of (map snd xs) k')"
  using assms
proof (induction xs)
  case (Cons x xs)
  obtain w j d where x: "x = (w, j, d)" by (cases x)
  show ?case
  proof (cases "w = ws")
    case True
    then have "AList.delete ws xs = xs" using Cons.prems(1) x by (auto intro: delete_idem)
    moreover have "k \<notin> fst ` set (map snd xs)" using Cons.prems(2,3) x True by (auto simp: image_image comp_def)
    ultimately show ?thesis using Cons.prems(3) x True by (auto simp: map_of_None_iff)
  next
    case False
    then have "(ws, k, c) \<in> set xs" using Cons.prems(3) x by (auto dest: map_of_SomeD)
    then have "j \<noteq> k" using Cons.prems(2) x by (force simp: comp_def)
    then show ?thesis using Cons x False by auto
  qed
qed simp

lemma owner_client: "sockets_ok env a \<Longrightarrow> map_of (ap_sockets a) ws = Some (k, c) \<Longrightarrow> client k a = Some c"
  by (auto simp: client_def sockets_ok_def comp_def intro!: map_of_SomeI dest: map_of_SomeD intro: rev_image_eqI)

lemma keyframe_flag:
  "addParticipant rid i sink s = (res, asked, s') \<Longrightarrow> sv_keyframeRequest s' = sv_keyframeRequest s"
  "sv_keyframeRequest (snd (removeParticipant rid i s)) = sv_keyframeRequest s"
  "routePacket rid i pkt s = (s', ds) \<Longrightarrow> sv_keyframeRequest s' = sv_keyframeRequest s"
  by (auto simp: addParticipant_def removeParticipant_def routePacket_def put_room_def Let_def split_beta split: option.splits)

lemma close_ok:
  assumes "app_ok env a"
  shows "app_ok env (app_close ws a)"
proof (cases "map_of (ap_sockets a) ws")
  case None
  then show ?thesis using assms by (simp add: app_close_def)
next
  case (Some x)
  obtain k c where x: "map_of (ap_sockets a) ws = Some (k, c)" using Some by (cases x) auto
  obtain s sfu where rem: "removeParticipant (cl_room c) (cl_id c) (ap_sfu a) = (s, sfu)" by fastforce
  let ?a = "a\<lparr>ap_sfu := sfu, ap_sockets := AList.delete ws (ap_sockets a)\<rparr>"
  have so: "sockets_ok env a" using assms by (simp add: app_ok_def)
  have cl: "client k' ?a = (if k' = k then None else client k' a)" for k'
    using delete_owner [OF _ _ x, of k'] so by (simp add: client_def sockets_ok_def)
  have k: "client k a = Some c" by (rule owner_client [OF so x])
  have "set (AList.delete ws xs) \<subseteq> set xs" for xs :: "(conn \<times> nat \<times> ('a, 'b) client_state) list"
    using delete_mem [of _ _ ws xs] by auto
  then have "distinct (map (fst \<circ> snd) (AList.delete ws (ap_sockets a)))"
    using so by (auto simp: sockets_ok_def AList.delete_eq distinct_map_filter)
  then have "sockets_ok env ?a"
    using so cl distinct_keys_delete [of "ap_sockets a" ws] by (auto simp: sockets_ok_def)
  moreover have "seats_ok ?a"
  proof -
    have "\<exists>k' c'. sk = Some k' \<and> client k' ?a = Some c' \<and> cl_room c' = rid \<and> cl_id c' = i \<and> cl_joinedSfu c'"
      if seat: "seat rid i sfu = Some sk" for rid i sk
    proof -
      have old: "seat rid i (ap_sfu a) = Some sk" "\<not> (rid = cl_room c \<and> i = cl_id c)"
        using seat seat_remove [of rid i "cl_room c" "cl_id c" "ap_sfu a"] rem by (auto split: if_splits)
      obtain k' c' where k': "sk = Some k'" "client k' a = Some c'" "cl_room c' = rid" "cl_id c' = i" "cl_joinedSfu c'"
        using assms old(1) unfolding app_ok_def seats_ok_def by blast
      then have "k' \<noteq> k" using old(2) k by auto
      then show ?thesis using k' cl by auto
    qed
    then show ?thesis by (simp add: seats_ok_def)
  qed
  moreover have "sfu_ok sfu" "\<not> sv_keyframeRequest sfu"
    using assms remove_ok [OF _ rem] keyframe_flag(2) [of "cl_room c" "cl_id c" "ap_sfu a"] rem by (auto simp: app_ok_def)
  ultimately show ?thesis using x rem by (simp add: app_close_def app_ok_def)
qed

lemma deferred_ok:
  assumes "app_ok env a"
  shows "app_ok env (fst (app_deferred a))"
proof -
  have join: "app_ok env ((put_client k (c\<lparr>cl_joinedSfu := True\<rparr>) a)\<lparr>ap_sfu := sfu\<rparr>)"
    if k: "client k a = Some c" and add: "addParticipant (cl_room c) (cl_id c) (Some k) (ap_sfu a) = (res, asked, sfu)"
      and a: "app_ok env a" for k c res asked sfu and a :: "('a, 'b) sfu_app"
  proof -
    let ?a = "put_client k (c\<lparr>cl_joinedSfu := True\<rparr>) a"
    have "client_ok env (c\<lparr>cl_joinedSfu := True\<rparr>)" using ok_client [OF a k] by (simp add: client_ok_def)
    note put = put_client_ok [OF _ _ k this]
    have so: "sockets_ok env ?a" "seats_ok ?a" using put a by (auto simp: app_ok_def)
    have me: "client k ?a = Some (c\<lparr>cl_joinedSfu := True\<rparr>)" using k by (simp add: client_put)
    have "seats_ok (?a\<lparr>ap_sfu := sfu\<rparr>)"
      using so(2) seat_add [OF add] me unfolding seats_ok_def by (auto split: if_splits)
    moreover have "sockets_ok env (?a\<lparr>ap_sfu := sfu\<rparr>)" using so(1) by (simp add: sockets_ok_def client_def)
    ultimately show ?thesis using a add_ok [OF _ add] keyframe_flag(1) [OF add] by (simp add: app_ok_def)
  qed
  show ?thesis
  proof (cases "ap_deferred a")
    case Nil
    then show ?thesis using assms by (simp add: app_deferred_def)
  next
    case (Cons d ds)
    let ?a = "a\<lparr>ap_deferred := ds\<rparr>"
    have ok: "app_ok env ?a" using assms by simp
    show ?thesis
    proof (cases d)
      case (DeferIce k cand)
      then show ?thesis using Cons ok by (simp add: app_deferred_def Let_def split: option.split)
    next
      case (DeferJoin k)
      show ?thesis
      proof (cases "client k ?a")
        case None
        then show ?thesis using DeferJoin Cons ok by (simp add: app_deferred_def)
      next
        case (Some c)
        then show ?thesis using DeferJoin Cons ok join [of k ?a c]
          by (auto simp: app_deferred_def Let_def simp del: ok_defer split: prod.splits)
      qed
    qed
  qed
qed

lemma sinks_ok:
  assumes "app_ok env a" "\<forall>(k, p)\<in>set ds. client k a \<noteq> None"
  shows "\<exists>a' out. app_sinks env juice_ok ds a = Some (a', out) \<and> app_ok env a' \<and> (\<forall>k. client k a' = None \<longleftrightarrow> client k a = None)"
  using assms
proof (induction ds arbitrary: a)
  case (Cons d ds)
  obtain k p where d: "d = (k, p)" by (cases d)
  then obtain c where c: "client k a = Some c" using Cons.prems(2) by auto
  obtain s sent t where t: "tr_send (ae_srtp env) juice_ok p (cl_transport c) = (s, sent, t)"
    by (cases "tr_send (ae_srtp env) juice_ok p (cl_transport c)")
  let ?a = "put_client k (c\<lparr>cl_transport := t\<rparr>) a"
  have "tr_reachable (ae_dtls env) (ae_srtp env) t"
    using tr_reachable.send [of "ae_dtls env" "ae_srtp env" "cl_transport c" juice_ok p] ok_client [OF Cons.prems(1) c] t by simp
  then have "app_ok env ?a" by (rule transport_ok [OF Cons.prems(1) c])
  moreover have same: "client k' ?a = None \<longleftrightarrow> client k' a = None" for k' by (simp add: client_put)
  moreover have "\<forall>(k, p)\<in>set ds. client k ?a \<noteq> None" using Cons.prems(2) by (auto simp: client_put)
  ultimately obtain a' out where "app_sinks env juice_ok ds ?a = Some (a', out)" "app_ok env a'"
    "\<forall>k. client k a' = None \<longleftrightarrow> client k ?a = None" using Cons.IH by blast
  then show ?case using d c t same by auto
qed auto


lemma sinks_seated:
  assumes "app_ok env a" "routePacket room i pkt (ap_sfu a) = (sfu, ds)"
  shows "app_ok env (a\<lparr>ap_sfu := sfu\<rparr>)"
    "(k, p) \<in> set ds \<Longrightarrow> p = pkt \<and> (\<exists>c. client k a = Some c \<and> cl_room c = room \<and> cl_id c \<noteq> i \<and> cl_joinedSfu c)"
proof -
  have sfu: "sfu_ok (ap_sfu a)" using assms(1) by (simp add: app_ok_def)
  note seats = seat_route [OF sfu assms(2)]
  have "seats_ok (a\<lparr>ap_sfu := sfu\<rparr>)" using assms(1) by (simp add: app_ok_def seats_ok_def seats(1))
  then show "app_ok env (a\<lparr>ap_sfu := sfu\<rparr>)"
    using assms route_ok [OF sfu assms(2)] keyframe_flag(3) [OF assms(2)] by (simp add: app_ok_def sockets_ok_def client_def)
  show "p = pkt \<and> (\<exists>c. client k a = Some c \<and> cl_room c = room \<and> cl_id c \<noteq> i \<and> cl_joinedSfu c)" if del: "(k, p) \<in> set ds"
  proof -
    obtain j where "p = pkt" "j \<noteq> i" "seat room j (ap_sfu a) = Some (Some k)" using bspec [OF seats(2) del] by auto
    then show ?thesis using assms(1) unfolding app_ok_def seats_ok_def by fastforce
  qed
qed

lemma route_app_ok:
  assumes "app_ok env a"
  shows "\<exists>a' out. app_route env juice_ok room i p a = Some (a', out) \<and> app_ok env a'"
proof -
  obtain sfu ds where r: "routePacket room i p (ap_sfu a) = (sfu, ds)" by fastforce
  have "\<forall>(k, q)\<in>set ds. client k (a\<lparr>ap_sfu := sfu\<rparr>) \<noteq> None" using sinks_seated(2) [OF assms r] by fastforce
  from sinks_ok [OF sinks_seated(1) [OF assms r] this, of juice_ok] show ?thesis by (auto simp: app_route_def r)
qed

lemma events_ok:
  "app_ok env a \<Longrightarrow> \<exists>a' out. app_events env juice_ok k room i evs a = Some (a', out) \<and> app_ok env a'"
proof (induction evs arbitrary: a)
  case (Cons e evs)
  show ?case
  proof (cases e)
    case (TPacket p)
    obtain a1 out where "app_route env juice_ok room i p a = Some (a1, out)" "app_ok env a1"
      using route_app_ok [OF Cons.prems] by blast
    then show ?thesis using Cons.IH [of a1] TPacket by auto
  qed (use Cons in auto)
qed simp

text \<open>What the transport of a client makes of a report.\<close>

definition transport_report :: "('e, 's) app_env \<Rightarrow> agent_report \<Rightarrow> ('e, 's) rtp_transport \<Rightarrow> ('e, 's) rtp_transport \<times> transport_event list" where
  "transport_report env r t = (case r of
       CandidateFound sdp \<Rightarrow> tr_events (ae_dtls env) (ae_srtp env) (handleCandidate sdp (tr_nat t)) t
     | StateIs js \<Rightarrow> juice_state_changed (ae_dtls env) (ae_srtp env) js t
     | Received d \<Rightarrow> juice_recv (ae_dtls env) (ae_srtp env) d t)"

lemma agent_eq: "client k a = Some c \<Longrightarrow> transport_report env r (cl_transport c) = (t, evs) \<Longrightarrow>
    app_agent env juice_ok k r a = app_events env juice_ok k (cl_room c) (cl_id c) evs (put_client k (c\<lparr>cl_transport := t\<rparr>) a)"
  by (simp add: app_agent_def transport_report_def split: agent_report.splits)

lemma report_reachable:
  assumes "tr_reachable (ae_dtls env) (ae_srtp env) t"
  shows "tr_reachable (ae_dtls env) (ae_srtp env) (fst (transport_report env r t))"
  using assms tr_reachable.state [OF assms] tr_reachable.data [OF assms]
  by (auto simp: transport_report_def handleCandidate_def split: agent_report.splits option.splits)

lemma agent_ok:
  assumes "app_ok env a"
  shows "\<exists>a' out. app_agent env juice_ok k r a = Some (a', out) \<and> app_ok env a'"
proof (cases "client k a")
  case None
  then show ?thesis using assms by (simp add: app_agent_def)
next
  case (Some c)
  obtain t evs where t: "transport_report env r (cl_transport c) = (t, evs)" by fastforce
  have "tr_reachable (ae_dtls env) (ae_srtp env) t"
    using report_reachable [of env "cl_transport c" r] ok_client [OF assms Some] t by simp
  from events_ok [OF transport_ok [OF assms Some this]] show ?thesis using agent_eq [OF Some t] by simp
qed

lemma handshake_ok:
  assumes "app_ok env a" "client k a = Some c" "dtls_running (cl_transport c)"
  shows "app_ok env (fst (app_handshake env juice_ok k rs a))"
proof -
  obtain d where "tr_dtls (cl_transport c) = Some d" "ds_running d" using assms(3) by (auto simp: dtls_running_def split: option.splits)
  then have "tr_reachable (ae_dtls env) (ae_srtp env) (fst (tr_dtls_run (ae_dtls env) (ae_srtp env) juice_ok rs (cl_transport c)))"
    using ok_client [OF assms(1,2)] by (auto intro: tr_reachable.handshake)
  then show ?thesis using transport_ok [OF assms(1,2)] assms(2) by (simp add: app_handshake_def split_beta)
qed

lemma app_reachable_ok: "app_reachable env a \<Longrightarrow> app_ok env a"
proof (induction rule: app_reachable.induct)
  case (agent a juice_ok k r a' sent)
  then show ?case using agent_ok [OF agent(3), of juice_ok k r] by auto
next
  case (message a jo ws isText msg a' out)
  then show ?case using message_ok by blast
qed (auto intro: app_ok_new close_ok deferred_ok handshake_ok)

text \<open>The datagrams of one packet: one \<^verbatim>\<open>send\<close> for each of the sinks, which are distinct clients.\<close>

lemma sinks_effect:
  assumes "distinct (map fst ds)" "app_sinks env juice_ok ds a = Some (a', out)" "(k, d) \<in> set out"
  shows "\<exists>p c. (k, p) \<in> set ds \<and> client k a = Some c \<and> d \<in> set (fst (snd (tr_send (ae_srtp env) juice_ok p (cl_transport c))))"
  using assms
proof (induction ds arbitrary: a out)
  case (Cons e ds)
  obtain j p where e: "e = (j, p)" by (cases e)
  then obtain c where c: "client j a = Some c" using Cons.prems(2) by (auto split: option.splits)
  obtain s sent t where t: "tr_send (ae_srtp env) juice_ok p (cl_transport c) = (s, sent, t)"
    by (cases "tr_send (ae_srtp env) juice_ok p (cl_transport c)")
  let ?a = "put_client j (c\<lparr>cl_transport := t\<rparr>) a"
  obtain out' where rest: "app_sinks env juice_ok ds ?a = Some (a', out')" "out = map (Pair j) sent @ out'"
    using Cons.prems(2) e c t by (auto split: option.splits)
  show ?case
  proof (cases "(k, d) \<in> set out'")
    case True
    then obtain q c' where q: "(k, q) \<in> set ds" "client k ?a = Some c'"
      "d \<in> set (fst (snd (tr_send (ae_srtp env) juice_ok q (cl_transport c'))))"
      using Cons.IH [OF _ rest(1)] Cons.prems(1) by auto
    then have "k \<noteq> j" using Cons.prems(1) e by (auto intro: rev_image_eqI)
    then show ?thesis using q by (auto simp: client_put)
  next
    case False
    then show ?thesis using Cons.prems(3) rest(2) e c t by auto
  qed
qed simp

lemma forward_sinks_distinct:
  "distinct (map fst ps) \<Longrightarrow> \<forall>(j, q)\<in>set ps. \<forall>k. pt_sink q = Some k \<longrightarrow> f k = j \<Longrightarrow> distinct (map fst (snd (forward_loop i pkt ps)))"
proof (induction ps)
  case (Cons x ps)
  obtain j q where x: "x = (j, q)" by (cases x)
  have "k \<notin> fst ` set (snd (forward_loop i pkt ps))" if "pt_sink q = Some k" for k
  proof
    assume "k \<in> fst ` set (snd (forward_loop i pkt ps))"
    then obtain j' q' where "(j', q') \<in> set ps" "pt_sink q' = Some k"
      unfolding forward_loop_deliveries by (force split: if_splits option.splits)
    then show False using Cons.prems x that by (force intro: rev_image_eqI)
  qed
  then show ?case using Cons x by (auto simp: deliver_def split_beta split: option.split)
qed simp

lemma route_distinct:
  assumes "app_ok env a" "routePacket room i pkt (ap_sfu a) = (sfu, ds)"
  shows "distinct (map fst ds)"
proof (cases "findRoom room (ap_sfu a)")
  case None
  then show ?thesis using assms(2) by (simp add: routePacket_def)
next
  case (Some r)
  have dist: "distinct (map fst (rm_participants r))"
    using findRoom_ok [OF _ Some] assms(1) by (simp add: app_ok_def room_ok_def room_members_def)
  have owner: "cl_id (the (client k a)) = j" if "(j, q) \<in> set (rm_participants r)" "pt_sink q = Some k" for j q k
  proof -
    have "seat room j (ap_sfu a) = Some (Some k)" using that dist Some by (simp add: seat_def map_of_SomeI)
    then show ?thesis using assms(1) unfolding app_ok_def seats_ok_def by fastforce
  qed
  have "distinct (map fst (snd (forward_loop i pkt (rm_participants r))))"
    by (rule forward_sinks_distinct [OF dist, of "\<lambda>k. cl_id (the (client k a))"]) (use owner in auto)
  then show ?thesis using assms(2) Some by (auto simp: routePacket_def room_forward_def split: prod.splits if_splits)
qed

lemma recv_events: "juice_recv en lib d t = (t', evs) \<Longrightarrow> evs = [] \<or> (\<exists>p. evs = [TPacket p])"
  by (auto simp: juice_recv_def handleRecv_def tr_onData_def packet_event_def Let_def split_beta
      split: if_splits option.splits sum.splits prod.splits)

section \<open>What the server guarantees\<close>



text \<open>C4. Media stays in its room and is never in the clear: whatever arrives from the network of one
  client, every datagram the server sends because of it goes to another client that is connected to the same room,
  and is the SRTP protection, under the session of that client, of a packet that was authenticated
  with the session of the sender; the certificates of both peers match the fingerprints announced over their sockets.\<close>

theorem media_stays_in_room:
  assumes "app_reachable env a" "client k a = Some c" "app_agent env juice_ok k (Received data) a = Some (a', out)"
    "(k', dgram) \<in> set out"
  shows "\<exists>c' p e si buf e' so. client k' a = Some c' \<and> k' \<noteq> k \<and> cl_room c' = cl_room c \<and> cl_joinedSfu c' \<and>
    tr_dtls (cl_transport c) = Some e \<and> peer_verified (ae_dtls env) e \<and> ds_srtpIn e = Some si \<and>
    fst (sl_unprotect (ae_srtp env) si data) = Some buf \<and> parse buf = Inr p \<and>
    tr_dtls (cl_transport c') = Some e' \<and> peer_verified (ae_dtls env) e' \<and> ds_srtpOut e' = Some so \<and>
    fst (sl_protect (ae_srtp env) so (serialize p)) = Some dgram"
proof -
  have ok: "app_ok env a" by (rule app_reachable_ok [OF assms(1)])
  obtain t evs where t: "juice_recv (ae_dtls env) (ae_srtp env) data (cl_transport c) = (t, evs)" by fastforce
  then have rep: "transport_report env (Received data) (cl_transport c) = (t, evs)" by (simp add: transport_report_def)
  let ?a = "put_client k (c\<lparr>cl_transport := t\<rparr>) a"
  have tr: "tr_reachable (ae_dtls env) (ae_srtp env) (cl_transport c)" using ok_client [OF ok assms(2)] by blast
  have oka: "app_ok env ?a"
    using transport_ok [OF ok assms(2)] report_reachable [OF tr, of "Received data"] rep by simp
  obtain p where p: "evs = [TPacket p]" "app_route env juice_ok (cl_room c) (cl_id c) p ?a = Some (a', out)"
    using recv_events [OF t] assms(3,4) agent_eq [OF assms(2) rep] by (auto split: option.splits)
  obtain sfu ds where r: "routePacket (cl_room c) (cl_id c) p (ap_sfu ?a) = (sfu, ds)" by fastforce
  have "app_sinks env juice_ok ds (?a\<lparr>ap_sfu := sfu\<rparr>) = Some (a', out)" using p(2) r by (simp add: app_route_def)
  from sinks_effect [OF route_distinct [OF oka r] this assms(4)] obtain q c' where
    q: "(k', q) \<in> set ds" "client k' ?a = Some c'" "dgram \<in> set (fst (snd (tr_send (ae_srtp env) juice_ok q (cl_transport c'))))" by auto
  have c': "q = p" "cl_room c' = cl_room c" "cl_id c' \<noteq> cl_id c" "cl_joinedSfu c'"
    using sinks_seated(2) [OF oka r q(1)] q(2) by auto
  then have k': "k' \<noteq> k" "client k' a = Some c'" using q(2) assms(2) by (auto simp: client_put split: if_splits)
  obtain s sent t' where send: "tr_send (ae_srtp env) juice_ok p (cl_transport c') = (s, sent, t')"
    by (cases "tr_send (ae_srtp env) juice_ok p (cl_transport c')")
  have "sent \<noteq> []" using q(3) c'(1) send by auto
  from send_protected [OF conjunct2 [OF ok_client [OF ok k'(2)]] send this] obtain e' so where
    out: "tr_dtls (cl_transport c') = Some e'" "peer_verified (ae_dtls env) e'" "ds_srtpOut e' = Some so"
    "fst (sl_protect (ae_srtp env) so (serialize p)) = Some dgram" using q(3) c'(1) send by auto
  have "TPacket p \<in> set evs" using p(1) by simp
  from recv_authenticated [OF tr t this] out k' c' show ?thesis by blast
qed


section \<open>A room of two\<close>

definition demo_obj :: "string \<Rightarrow> (string \<times> json) list" where
  "demo_obj s = (if s = ''j'' then [(''type'', JString ''join''), (''room'', JString ''r'')]
     else [(''type'', JString ''offer''), (''payload'', JString (packDescription ''ice'' demo_fp))])"

definition demo_env :: "(bool, nat) app_env" where
  "demo_env = \<lparr>ae_dtls = demo_engine, ae_srtp = demo_lib, ae_parse = (\<lambda>s. Some (JObject (demo_obj s))),
     ae_config = default_nat_config, ae_fingerprint = demo_fp\<rparr>"

definition demo_answers :: juice_answers where
  "demo_answers = \<lparr>jo_created = True, jo_accepts = (\<lambda>s. True), jo_description = Some ''sdp''\<rparr>"

definition srv_t0 :: "(bool, nat) rtp_transport" where
  "srv_t0 = snd (tr_initialize True default_nat_config app_callbacks (enableSecurity False new_rtp_transport))"

definition srv_t1 :: "(bool, nat) rtp_transport" where
  "srv_t1 = fst (juice_state_changed demo_engine demo_lib JUICE_CONNECTED srv_t0)"

definition srv_t2 :: "(bool, nat) rtp_transport" where
  "srv_t2 = setRemoteFingerprint demo_engine demo_fp srv_t1"

definition demo_rounds :: "round list" where
  "demo_rounds = [\<lparr>ro_go = True, ro_datagram = [], ro_stopped = False\<rparr>]"

definition srv_t3 :: "(bool, nat) rtp_transport" where
  "srv_t3 = fst (tr_dtls_run demo_engine demo_lib True demo_rounds srv_t2)"

lemmas srv_defs = srv_t0_def srv_t1_def srv_t2_def juice_state_changed_def handleStateChanged_def app_callbacks_def
  tr_onStateChanged_def setRemoteFingerprint_def maybeStartHandshake_def tr_initialize_def nat_initialize_def
  enableSecurity_def new_rtp_transport_def new_dtls_srtp_def new_nat_traversal_def dtls_start_def

lemma srv_init: "tr_initialize True default_nat_config app_callbacks (enableSecurity False new_rtp_transport) = (ok, srv_t0)"
  by (simp add: srv_defs)

lemma srv_connect: "juice_state_changed demo_engine demo_lib JUICE_CONNECTED srv_t0 = (srv_t1, [TState IceConnected])"
  by (simp add: srv_defs)

lemma srv_agent: "nt_agent (tr_nat srv_t1)" "nt_agent (tr_nat srv_t2)"
  using demo_fingerprint(2) by (simp_all add: srv_defs)

lemma srv_dtls: "\<exists>d. tr_dtls srv_t2 = Some d \<and> ds_running d \<and> ds_ssl d = Some False \<and> ds_remoteFp d = demo_fp"
  using demo_fingerprint(2) by (simp add: srv_defs demo_engine_def)

lemma srv_keyed: "tr_dtls_run demo_engine demo_lib True demo_rounds srv_t2 = (srv_t3, [[22]])"
  "keyed_out srv_t3 0" "keyed_in srv_t3 0"
proof -
  obtain d where d: "tr_dtls srv_t2 = Some d" "ds_ssl d = Some False" "ds_remoteFp d = demo_fp" using srv_dtls by blast
  have loop: "handshake_loop demo_engine demo_rounds False [] = (False, True, [[22]])" by (simp add: demo_engine_def demo_rounds_def)
  have ver: "verifyPeerFingerprint demo_engine True demo_fp"
    using demo_fingerprint by (simp add: verifyPeerFingerprint_def demo_engine_def)
  have der: "deriveSrtpKeys demo_engine demo_lib b d' = (True, d'\<lparr>ds_srtpOut := Some 0, ds_srtpIn := Some 0\<rparr>)"
    for b and d' :: "(bool, nat) dtls_srtp"
    by (simp add: deriveSrtpKeys_def demo_engine_def demo_lib_def split_beta)
  have fin: "en_finished demo_engine True" by (simp add: demo_engine_def)
  note run = d ver fin loop der
  show "tr_dtls_run demo_engine demo_lib True demo_rounds srv_t2 = (srv_t3, [[22]])"
    using run srv_agent by (simp add: srv_t3_def tr_dtls_run_def dtls_run_def nat_send_def Let_def del: handshake_loop.simps)
  have more: "tr_secured srv_t2" "nb_onData (nt_cbs (tr_nat srv_t2))" "tc_onPacket (tr_cbs srv_t2)"
    using demo_fingerprint(2) by (simp_all add: srv_defs)
  show "keyed_out srv_t3 0" "keyed_in srv_t3 0"
    using run srv_agent more by (simp_all add: srv_t3_def tr_dtls_run_def dtls_run_def Let_def keyed_out_def keyed_in_def del: handshake_loop.simps)
qed


definition demo_client :: "nat \<Rightarrow> (bool, nat) rtp_transport \<Rightarrow> bool \<Rightarrow> (bool, nat) client_state" where
  "demo_client i t joined = \<lparr>cl_id = decimal i, cl_room = ''r'', cl_transport = t, cl_alive = True, cl_joinedSfu = joined\<rparr>"

definition demo_pair :: "nat sfu_server \<Rightarrow> (bool, nat) rtp_transport \<Rightarrow> (bool, nat) rtp_transport \<Rightarrow> bool \<Rightarrow> bool \<Rightarrow> deferred list \<Rightarrow> (bool, nat) sfu_app" where
  "demo_pair sfu t t' j j' ds = \<lparr>ap_sfu = sfu, ap_nextId = 3,
     ap_sockets = [(20, 1, demo_client 2 t' j'), (10, 0, demo_client 1 t j)], ap_allocated = 2, ap_deferred = ds\<rparr>"

definition demo_sfu1 :: "nat sfu_server" where
  "demo_sfu1 = snd (snd (addParticipant ''r'' (decimal 1) (Some 0) new_sfu_server))"

definition demo_sfu2 :: "nat sfu_server" where
  "demo_sfu2 = snd (snd (addParticipant ''r'' (decimal 2) (Some 1) demo_sfu1))"

definition demo_app :: "(bool, nat) sfu_app" where
  "demo_app = demo_pair demo_sfu2 srv_t3 srv_t3 True True []"

lemma demo_pair_simps:
  "client 0 (demo_pair sfu t t' j j' ds) = Some (demo_client 1 t j)"
  "client 1 (demo_pair sfu t t' j j' ds) = Some (demo_client 2 t' j')"
  "put_client 0 (demo_client 1 u b) (demo_pair sfu t t' j j' ds) = demo_pair sfu u t' b j' ds"
  "put_client 1 (demo_client 2 u b) (demo_pair sfu t t' j j' ds) = demo_pair sfu t u j b ds"
  "ap_deferred (demo_pair sfu t t' j j' ds) = ds" "(demo_pair sfu t t' j j' ds)\<lparr>ap_deferred := ds'\<rparr> = demo_pair sfu t t' j j' ds'"
  "ap_sfu (demo_pair sfu t t' j j' ds) = sfu" "(demo_pair sfu t t' j j' ds)\<lparr>ap_sfu := sfu'\<rparr> = demo_pair sfu' t t' j j' ds"
  "map_of (ap_sockets (demo_pair sfu t t' j j' ds)) 10 = Some (0, demo_client 1 t j)"
  "map_of (ap_sockets (demo_pair sfu t t' j j' ds)) 20 = Some (1, demo_client 2 t' j')"
  "cl_room (demo_client i t j) = ''r''" "cl_id (demo_client i t j) = decimal i" "cl_transport (demo_client i t j) = t"
  "cl_alive (demo_client i t j)" "cl_joinedSfu (demo_client i t j) = j"
  "(demo_client i t j)\<lparr>cl_transport := t'\<rparr> = demo_client i t' j" "(demo_client i t j)\<lparr>cl_joinedSfu := b\<rparr> = demo_client i t b"
  by (simp_all add: demo_pair_def client_def put_client_def demo_client_def)

lemmas demo_env_simps = demo_env_def demo_answers_def demo_obj_def value_string_def

lemma srv_joins:
  "app_message demo_env demo_answers 10 True ''j'' new_sfu_app = Some
     (\<lparr>ap_sfu = new_sfu_server, ap_nextId = 2, ap_sockets = [(10, 0, demo_client 1 srv_t0 False)], ap_allocated = 1, ap_deferred = []\<rparr>,
      [ToClient 10 (JObject [(''type'', JString ''joined''), (''room'', JString ''r''), (''id'', JInt 1)])])"
  "app_message demo_env demo_answers 20 True ''j''
     \<lparr>ap_sfu = new_sfu_server, ap_nextId = 2, ap_sockets = [(10, 0, demo_client 1 srv_t0 False)], ap_allocated = 1, ap_deferred = []\<rparr> =
   Some (demo_pair new_sfu_server srv_t0 srv_t0 False False [],
      [ToClient 20 (JObject [(''type'', JString ''joined''), (''room'', JString ''r''), (''id'', JInt 2)])])"
  by (simp_all add: app_message_def app_join_def demo_env_simps new_sfu_app_def demo_client_def demo_pair_def srv_init)

lemma demo_connects:
  "app_agent demo_env True 0 (StateIs JUICE_CONNECTED) (demo_pair sfu srv_t0 t' j j' ds) = Some (demo_pair sfu srv_t1 t' j j' (ds @ [DeferJoin 0]), [])"
  "app_agent demo_env True 1 (StateIs JUICE_CONNECTED) (demo_pair sfu t srv_t0 j j' ds) = Some (demo_pair sfu t srv_t1 j j' (ds @ [DeferJoin 1]), [])"
  by (simp_all add: app_agent_def demo_pair_simps demo_env_simps srv_connect del: One_nat_def)

lemma demo_handshakes:
  "fst (app_handshake demo_env True 0 demo_rounds (demo_pair sfu srv_t2 t' j j' ds)) = demo_pair sfu srv_t3 t' j j' ds"
  "fst (app_handshake demo_env True 1 demo_rounds (demo_pair sfu t srv_t2 j j' ds)) = demo_pair sfu t srv_t3 j j' ds"
  by (simp_all add: app_handshake_def demo_pair_simps demo_env_simps srv_keyed(1) del: One_nat_def)

lemma demo_offer: "unpackDescription (packDescription ''ice'' demo_fp) = (''ice'', demo_fp)"
  by (rule unpack_pack) (simp add: find_sub.simps fp_tag_def)

lemma demo_offers:
  "\<exists>out. app_message demo_env demo_answers 10 True ''o'' (demo_pair sfu srv_t1 t' j j' ds) = Some (demo_pair sfu srv_t2 t' j j' ds, out)"
  "\<exists>out. app_message demo_env demo_answers 20 True ''o'' (demo_pair sfu t srv_t1 j j' ds) = Some (demo_pair sfu t srv_t2 j j' ds, out)"
  using srv_agent by (simp_all add: app_message_def app_offer_def demo_env_simps demo_offer demo_pair_simps
      setRemoteDescription_def localDescription_def srv_t2_def [symmetric] del: One_nat_def)

lemma demo_deferreds:
  "app_deferred (demo_pair new_sfu_server t t' False j' (DeferJoin 0 # ds)) = (demo_pair demo_sfu1 t t' True j' ds, [])"
  "app_deferred (demo_pair demo_sfu1 t t' j False (DeferJoin 1 # ds)) = (demo_pair demo_sfu2 t t' j True ds, [])"
  by (simp_all add: app_deferred_def demo_pair_simps demo_sfu1_def [symmetric] demo_sfu2_def split_beta Let_def del: One_nat_def)

lemma demo_app_reachable: "app_reachable demo_env demo_app"
proof -
  let ?R = "app_reachable demo_env" and ?new = new_sfu_server
  have "?R (demo_pair ?new srv_t0 srv_t0 False False [])"
    by (rule app_reachable.message [OF app_reachable.message [OF app_reachable.start srv_joins(1)] srv_joins(2)])
  then have "?R (demo_pair ?new srv_t1 srv_t0 False False [DeferJoin 0])"
    by (rule app_reachable.agent [OF _ demo_connects(1) [where ds = "[]", unfolded append.simps]])
  then have "?R (demo_pair ?new srv_t1 srv_t1 False False [DeferJoin 0, DeferJoin 1])"
    by (rule app_reachable.agent [OF _ demo_connects(2) [where ds = "[DeferJoin 0]", unfolded append.simps]])
  then have "?R (demo_pair ?new srv_t2 srv_t2 False False [DeferJoin 0, DeferJoin 1])"
    using demo_offers(1) [of ?new srv_t1] demo_offers(2) [of ?new srv_t2] app_reachable.message by metis
  from app_reachable.deferred [OF app_reachable.deferred [OF this]]
  have joined: "?R (demo_pair demo_sfu2 srv_t2 srv_t2 True True [])" by (simp add: demo_deferreds del: One_nat_def)
  have run: "dtls_running srv_t2" using srv_dtls by (auto simp: dtls_running_def)
  have "?R (demo_pair demo_sfu2 srv_t3 srv_t2 True True [])"
    using app_reachable.handshake [OF joined demo_pair_simps(1), of True demo_rounds] run by (simp add: demo_pair_simps demo_handshakes del: One_nat_def)
  from app_reachable.handshake [OF this demo_pair_simps(2), of True demo_rounds] show ?thesis
    using run by (simp add: demo_pair_simps demo_handshakes demo_app_def del: One_nat_def)
qed


lemma decimal_1_2: "decimal 1 = ''1''" "decimal 2 = ''2''"
  by (simp_all add: decimal.simps [of "Suc 0"] decimal.simps [of 2] char_of_def bit_iff_odd)

lemma srv_rooms:
  "sv_rooms demo_sfu2 = [(''r'', (new_room ''r'' False 8)\<lparr>rm_participants :=
     [(''1'', setNeedsKeyframe True (new_participant ''1'' (Some 0))), (''2'', setNeedsKeyframe True (new_participant ''2'' (Some 1)))]\<rparr>)]"
  by (simp add: demo_sfu2_def demo_sfu1_def decimal_1_2 [unfolded One_nat_def] addParticipant_def findRoom_def new_sfu_server_def
      put_room_def room_add_def new_room_def kMaxParticipants_def Let_def)



lemma media_stays_in_room_witness:
  "\<exists>a'. app_agent demo_env True 0 (Received (serialize sample_packet @ [0xEE])) demo_app =
     Some (a', [(1, serialize sample_packet @ [0xEE])]) \<and> cl_room (the (client 1 demo_app)) = ''r''"
proof -
  let ?data = "serialize sample_packet @ [0xEE]"
  obtain d where d: "tr_dtls srv_t3 = Some d" "ds_ready d" "ds_srtpOut d = Some 0" "nt_agent (tr_nat srv_t3)" "tr_secured srv_t3"
    using srv_keyed(2) by (auto simp: keyed_out_def)
  have i: "ds_srtpIn d = Some 0" "nb_onData (nt_cbs (tr_nat srv_t3))" "tc_onPacket (tr_cbs srv_t3)"
    using srv_keyed(3) d by (auto simp: keyed_in_def)
  have first: "?data ! 0 = hd (serialize sample_packet)" "128 \<le> unat (?data ! 0)" "unat (?data ! 0) \<le> 191"
    using plain_first_byte [OF plain_sample] by (auto simp: hd_conv_nth nth_append)
  obtain t where recv: "juice_recv demo_engine demo_lib ?data srv_t3 = (t, [TPacket sample_packet])"
    using d i first parse_serialize_plain [OF plain_sample]
    by (simp add: juice_recv_def handleRecv_def tr_onData_def unprotect_def packet_event_def demo_lib_def Let_def)
  obtain s t' where send: "tr_send demo_lib True sample_packet srv_t3 = (s, [?data], t')"
    using d by (simp add: tr_send_def protect_def nat_send_def demo_lib_def Let_def)
  obtain sfu where "routePacket ''r'' ''1'' sample_packet demo_sfu2 = (sfu, [(1, sample_packet)])"
    by (simp add: routePacket_def findRoom_def srv_rooms room_forward_def deliver_def new_room_def setNeedsKeyframe_def new_participant_def)
  then have step: "\<exists>a'. app_agent demo_env True 0 (Received ?data) demo_app = Some (a', [(1, ?data)])"
    using recv send unfolding demo_app_def
    by (simp add: app_agent_def demo_pair_simps decimal_1_2 demo_env_simps app_route_def del: One_nat_def)
  then obtain a' where a': "app_agent demo_env True 0 (Received ?data) demo_app = Some (a', [(1, ?data)])" by blast
  have "client 0 demo_app = Some (demo_client 1 srv_t3 True)" by (simp only: demo_app_def demo_pair_simps)
  from media_stays_in_room [OF demo_app_reachable this a', of 1 ?data]
  obtain c' where "client 1 demo_app = Some c'" "cl_room c' = ''r''" by (auto simp: demo_pair_simps)
  then show ?thesis using a' by simp
qed

end
