(* ===== verification/Group_Call.thy ===== *)
theory Group_Call
  imports Call_Window Router Video_Widget Sfu_App
begin

text \<open>
  The call program: src/src/ui/group_call.cpp. Its command line; the tiles of remote streams, driven by
  the callbacks of the receive router on the GUI thread; the capture callbacks that feed the send
  pipeline; the signaling callbacks. A widget that the window deleted is gone, and following a pointer
  to it is the outcome \<open>None\<close>.
\<close>

section \<open>Command line\<close>

record call_args =
  ca_host :: string
  ca_port :: u16
  ca_room :: string

definition default_call_args :: call_args where
  "default_call_args = \<lparr>ca_host = ''127.0.0.1'', ca_port = 8080, ca_room = ''demo''\<rparr>"

text \<open>\<^verbatim>\<open>std::stoi\<close>: throws (\<open>None\<close>) when there is no number or it does not fit an \<^verbatim>\<open>int\<close>.\<close>

definition stoi :: "string \<Rightarrow> int option" where
  "stoi s = (let t = dropWhile is_space s;
       (neg, ds) = (case t of [] \<Rightarrow> (False, [])
         | c # cs \<Rightarrow> if c = CHR ''-'' then (True, takeWhile is_digit cs)
                    else if c = CHR ''+'' then (False, takeWhile is_digit cs)
                    else (False, takeWhile is_digit t));
       n = (if neg then - digits_value ds else digits_value ds)
     in if ds = [] \<or> n < - (2 ^ 31) \<or> n \<ge> 2 ^ 31 then None else Some n)"

definition server_arg :: "string \<Rightarrow> call_args \<Rightarrow> call_args option" where
  "server_arg v a =
    (let v = (if prefix ''ws://'' v then drop 5 v else v) in
     if CHR '':'' \<in> set v then
       let a = a\<lparr>ca_host := takeWhile (\<lambda>c. c \<noteq> CHR '':'') v\<rparr> in
       map_option (\<lambda>n. a\<lparr>ca_port := word_of_int n\<rparr>) (stoi (drop 1 (dropWhile (\<lambda>c. c \<noteq> CHR '':'') v)))
     else Some (a\<lparr>ca_host := v\<rparr>))"

definition port_arg :: "string \<Rightarrow> call_args \<Rightarrow> call_args option" where
  "port_arg v a = (if v = [] then Some a else map_option (\<lambda>n. a\<lparr>ca_port := word_of_int n\<rparr>) (stoi v))"

text \<open>The loop over the arguments after the program name; \<^verbatim>\<open>next\<close> leaves its target alone when
  there is no further argument.\<close>

fun parse_args :: "string list \<Rightarrow> call_args \<Rightarrow> call_args option" where
  "parse_args [] a = Some a"
| "parse_args [arg] a =
     (if arg = ''--server'' then server_arg [] a else if arg = ''--port'' then port_arg [] a else Some a)"
| "parse_args (arg # v # args) a =
     (if arg = ''--server'' then (case server_arg v a of None \<Rightarrow> None | Some a \<Rightarrow> parse_args args a)
      else if arg = ''--port'' then (case port_arg v a of None \<Rightarrow> None | Some a \<Rightarrow> parse_args args a)
      else if arg = ''--room'' then parse_args args (a\<lparr>ca_room := v\<rparr>)
      else parse_args (v # args) a)"

lemma stoi_decimal: "n < 2 ^ 31 \<Longrightarrow> stoi (decimal n) = Some (int n)"
proof -
  assume n: "n < 2 ^ 31"
  obtain c cs where c: "decimal n = c # cs" using decimal_digits [of n] by (cases "decimal n") auto
  have "is_digit c" "list_all is_digit (c # cs)" using decimal_digits [of n] c by auto
  then have "\<not> is_space c" "c \<noteq> CHR ''-''" "c \<noteq> CHR ''+''" "takeWhile is_digit (c # cs) = c # cs"
    by (auto simp: is_digit_def is_space_def list_all_iff takeWhile_eq_all_conv)
  then show ?thesis using digits_value_decimal [of n] n by (simp add: stoi_def c)
qed

text \<open>Both documented spellings of a server address are understood.\<close>

lemma server_arg_address:
  assumes "CHR '':'' \<notin> set host" "scheme = [] \<or> scheme = ''ws://''"
  shows "server_arg (scheme @ host @ CHR '':'' # decimal (unat (p::u16))) a = Some (a\<lparr>ca_host := host, ca_port := p\<rparr>)"
proof -
  let ?d = "decimal (unat p)"
  have split: "takeWhile (\<lambda>c. c \<noteq> CHR '':'') (host @ CHR '':'' # d) = host" "dropWhile (\<lambda>c. c \<noteq> CHR '':'') (host @ CHR '':'' # d) = CHR '':'' # d" for d
    using assms(1) by (auto simp: takeWhile_append dropWhile_append)
  have "\<not> prefix ''ws://'' (host @ CHR '':'' # ?d)"
  proof
    assume "prefix ''ws://'' (host @ CHR '':'' # ?d)"
    then obtain r where r: "host @ CHR '':'' # ?d = ''ws'' @ CHR '':'' # ''//'' @ r" by (auto simp: prefix_def)
    then have "CHR '':'' # ?d = dropWhile (\<lambda>c. c \<noteq> CHR '':'') (''ws'' @ CHR '':'' # ''//'' @ r)" using split(2) by metis
    then have "hd ?d = CHR ''/''" by simp
    then show False using decimal_digits [of "unat p"] by (cases ?d) (auto simp: is_digit_def)
  qed
  then have "(if prefix ''ws://'' (scheme @ host @ CHR '':'' # ?d) then drop 5 (scheme @ host @ CHR '':'' # ?d)
      else scheme @ host @ CHR '':'' # ?d) = host @ CHR '':'' # ?d"
    using assms(2) by auto
  moreover have "stoi ?d = Some (int (unat p))" using u16_lt [of p] by (intro stoi_decimal) simp
  ultimately show ?thesis unfolding server_arg_def Let_def by (simp add: split)
qed

section \<open>The window of the call\<close>

definition remote_id :: "u32 \<Rightarrow> string" where
  "remote_id k = ''remote-'' @ decimal (unat k)"

text \<open>The window with its grid, the widgets that exist, the map from sources to widgets, and the
  pointer to the tile of the own picture.\<close>

record call_gui =
  cg_window :: window
  cg_grid :: "(nat \<times> nat \<times> nat) list"
  cg_widgets :: "(nat \<times> video_widget) list"
  cg_remoteTiles :: "(u32 \<times> nat) list"
  cg_selfTile :: "nat option"

text \<open>\<^verbatim>\<open>win.addParticipant\<close>, with the widget it may create.\<close>

definition gui_tile :: "string \<Rightarrow> call_gui \<Rightarrow> nat option \<times> call_gui" where
  "gui_tile i g = (let (r, cs, w) = win_addParticipant i (cg_window g) in
     (r, g\<lparr>cg_window := w, cg_grid := fold place cs (cg_grid g),
           cg_widgets := (case r of Some x \<Rightarrow> (if tile i (cg_window g) = None then (x, new_video_widget) # cg_widgets g else cg_widgets g)
                          | None \<Rightarrow> cg_widgets g)\<rparr>))"

definition new_call_gui :: call_gui where
  "new_call_gui = (let (r, g) = gui_tile ''self'' \<lparr>cg_window = new_window, cg_grid = [], cg_widgets = [],
       cg_remoteTiles = [], cg_selfTile = None\<rparr> in g\<lparr>cg_selfTile := r\<rparr>)"

definition onVideoStreamAdded :: "u32 \<Rightarrow> call_gui \<Rightarrow> call_gui" where
  "onVideoStreamAdded k g = (let (r, g) = gui_tile (remote_id k) g in
     case r of None \<Rightarrow> g | Some x \<Rightarrow> g\<lparr>cg_remoteTiles := AList.update k x (cg_remoteTiles g)\<rparr>)"

text \<open>\<^verbatim>\<open>setFrame\<close> through a pointer.\<close>

definition show_on :: "nat \<Rightarrow> video_frame \<Rightarrow> call_gui \<Rightarrow> call_gui option" where
  "show_on x f g = (case map_of (cg_widgets g) x of
     None \<Rightarrow> None | Some w \<Rightarrow> Some (g\<lparr>cg_widgets := AList.update x (snd (setFrame f w)) (cg_widgets g)\<rparr>))"

definition onVideoFrame :: "u32 \<Rightarrow> video_frame \<Rightarrow> call_gui \<Rightarrow> call_gui option" where
  "onVideoFrame k f g = (case map_of (cg_remoteTiles g) k of None \<Rightarrow> Some g | Some x \<Rightarrow> show_on x f g)"

definition onVideoStreamRemoved :: "u32 \<Rightarrow> call_gui \<Rightarrow> call_gui" where
  "onVideoStreamRemoved k g = (let (cs, w) = win_removeParticipant (remote_id k) (cg_window g) in
     g\<lparr>cg_window := w, cg_grid := fold place cs (cg_grid g),
       cg_widgets := (case tile (remote_id k) (cg_window g) of None \<Rightarrow> cg_widgets g | Some x \<Rightarrow> AList.delete x (cg_widgets g)),
       cg_remoteTiles := AList.delete k (cg_remoteTiles g)\<rparr>)"

text \<open>The callbacks of a tick; the playback device takes the audio.\<close>

fun gui_events :: "router_event list \<Rightarrow> call_gui \<Rightarrow> call_gui option" where
  "gui_events [] g = Some g"
| "gui_events (Added k # evs) g = gui_events evs (onVideoStreamAdded k g)"
| "gui_events (Frame k f # evs) g = (case onVideoFrame k f g of None \<Rightarrow> None | Some g \<Rightarrow> gui_events evs g)"
| "gui_events (Removed k # evs) g = gui_events evs (onVideoStreamRemoved k g)"
| "gui_events (Enqueued a # evs) g = gui_events evs g"

text \<open>The first statement of the capture callback.\<close>

definition show_self :: "video_frame \<Rightarrow> call_gui \<Rightarrow> call_gui option" where
  "show_self f g = (case cg_selfTile g of None \<Rightarrow> None | Some x \<Rightarrow> show_on x f g)"

text \<open>A call: packets of the network thread and ticks of the timer, pictures of the own camera, and
  the buttons.\<close>

datatype call_action = Net router_step | OwnPicture video_frame | Mute bool | CameraOff bool

fun call_step :: "'d av_decoder \<Rightarrow> 'o opus_decoder \<Rightarrow> (u32 \<Rightarrow> video_frame \<Rightarrow> pool_heap \<Rightarrow> pool_heap) \<Rightarrow>
    (audio_frame \<Rightarrow> pool_heap \<Rightarrow> pool_heap) \<Rightarrow> call_action \<Rightarrow> ('d, 'o) router \<Rightarrow> call_gui \<Rightarrow> (('d, 'o) router \<times> call_gui) option" where
  "call_step vlib alib vsink asink (Net (RPush p t)) r g = Some (rr_pushPacket vlib alib p t r, g)"
| "call_step vlib alib vsink asink (Net (RTick now)) r g =
     (let (evs, r) = rr_tick vlib alib vsink asink now r in map_option (Pair r) (gui_events evs g))"
| "call_step vlib alib vsink asink (OwnPicture f) r g = map_option (Pair r) (show_self f g)"
| "call_step vlib alib vsink asink (Mute b) r g = Some (r, g\<lparr>cg_window := snd (toggle_mute b (cg_window g))\<rparr>)"
| "call_step vlib alib vsink asink (CameraOff b) r g = Some (r, g\<lparr>cg_window := snd (toggle_camera b (cg_window g))\<rparr>)"

fun call_run :: "'d av_decoder \<Rightarrow> 'o opus_decoder \<Rightarrow> (u32 \<Rightarrow> video_frame \<Rightarrow> pool_heap \<Rightarrow> pool_heap) \<Rightarrow>
    (audio_frame \<Rightarrow> pool_heap \<Rightarrow> pool_heap) \<Rightarrow> call_action list \<Rightarrow> ('d, 'o) router \<Rightarrow> call_gui \<Rightarrow> (('d, 'o) router \<times> call_gui) option" where
  "call_run vlib alib vsink asink [] r g = Some (r, g)"
| "call_run vlib alib vsink asink (s # ss) r g = (case call_step vlib alib vsink asink s r g of
     None \<Rightarrow> None | Some (r, g) \<Rightarrow> call_run vlib alib vsink asink ss r g)"

section \<open>Tiles and sources\<close>

lemma decimal_inject: "decimal m = decimal n \<Longrightarrow> m = n"
  by (metis atoi_decimal of_nat_eq_iff)

lemma remote_id_inject: "remote_id k = remote_id k' \<longleftrightarrow> k = k'"
  by (auto simp: remote_id_def dest!: decimal_inject intro: unsigned_word_eqI)

lemma remote_not_self: "remote_id k \<noteq> ''self''"
  by (simp add: remote_id_def)

lemma tile_add: "win_addParticipant i w = (r, cs, w') \<Longrightarrow> tile j w' = (if j = i then r else tile j w)"
  by (auto simp: win_addParticipant_def tile_map_of Let_def map_add_def split: option.splits if_splits)

lemma tile_remove:
  assumes "distinct (tile_ids w)" "win_removeParticipant i w = (cs, w')"
  shows "tile j w' = (if j = i then None else tile j w)"
proof -
  have "map_of (filter (\<lambda>t. fst t \<noteq> i) ts) j = (if j = i then None else map_of ts j)" for ts :: "(string \<times> nat) list"
    by (induction ts) auto
  then show ?thesis using expel_tiles [OF assms(1), of i] assms(2) by (simp add: tile_map_of win_expel_def)
qed

text \<open>A source has an entry exactly when it has a tile, its entry is its tile, every tile is a
  source's or the own one, and the widgets that exist are those of the tiles.\<close>

definition gui_ok :: "call_gui \<Rightarrow> bool" where
  "gui_ok g \<longleftrightarrow> window_ok (cg_window g) (cg_grid g) \<and>
     (\<forall>k. map_of (cg_remoteTiles g) k = tile (remote_id k) (cg_window g)) \<and>
     cg_selfTile g \<noteq> None \<and> tile ''self'' (cg_window g) = cg_selfTile g \<and>
     (\<forall>i. tile i (cg_window g) \<noteq> None \<longrightarrow> i = ''self'' \<or> (\<exists>k. i = remote_id k)) \<and>
     fst ` set (cg_widgets g) = snd ` set (win_tiles (cg_window g))"


lemma add_widgets:
  "win_addParticipant i w = (r, cs, w') \<Longrightarrow>
     snd ` set (win_tiles w') = (case r of None \<Rightarrow> {} | Some x \<Rightarrow> {x}) \<union> snd ` set (win_tiles w)"
  by (auto simp: win_addParticipant_def Let_def tile_map_of split: option.splits if_splits dest!: map_of_SomeD intro: rev_image_eqI)

lemma remove_widgets:
  assumes "window_ok w grid" "win_removeParticipant i w = (cs, w')"
  shows "snd ` set (win_tiles w') = (case tile i w of None \<Rightarrow> snd ` set (win_tiles w) | Some x \<Rightarrow> snd ` set (win_tiles w) - {x})"
proof (cases "tile i w")
  case None
  then show ?thesis using assms(2) by (simp add: win_removeParticipant_def)
next
  case (Some x)
  have d: "distinct (map fst (win_tiles w))" "distinct (map snd (win_tiles w))"
    using assms(1) by (auto simp: window_ok_def call_tiles.sound_def tile_ids_def)
  have "win_tiles w' = filter (\<lambda>t. fst t \<noteq> i) (win_tiles w)"
    using expel_tiles [of w i] d(1) assms(2) by (simp add: win_expel_def tile_ids_def)
  then have "map snd (win_tiles w') = filter (\<lambda>y. y \<noteq> x) (map snd (win_tiles w))"
    using filter_widgets [OF d(2) _ d(1), of i x] Some by (auto simp: tile_map_of dest: map_of_SomeD)
  from arg_cong [OF this, of set] show ?thesis using Some by auto
qed

lemma gui_ok_new: "gui_ok new_call_gui"
proof -
  obtain r cs w where a: "win_addParticipant ''self'' new_window = (r, cs, w)" by (cases "win_addParticipant ''self'' new_window")
  have "window_ok w (fold place cs [])" by (rule add_tile_ok [OF window_ok_new a])
  moreover have "r = Some 0" "tile j w = (if j = ''self'' then Some 0 else None)" for j
    using a tile_add [OF a, of j] by (auto simp: win_addParticipant_def new_window_def tile_def kMaxTiles_def Let_def)
  moreover have "snd ` set (win_tiles w) = {0}" using add_widgets [OF a] \<open>r = Some 0\<close> by (simp add: new_window_def)
  moreover have "tile ''self'' new_window = None" by (simp add: tile_def new_window_def)
  ultimately show ?thesis using a remote_not_self
    by (auto simp: gui_ok_def new_call_gui_def gui_tile_def Let_def)
qed

lemma added_ok:
  assumes "gui_ok g"
  shows "gui_ok (onVideoStreamAdded k g)"
proof -
  obtain r cs w where a: "win_addParticipant (remote_id k) (cg_window g) = (r, cs, w)"
    by (cases "win_addParticipant (remote_id k) (cg_window g)")
  have ok: "window_ok (cg_window g) (cg_grid g)" "\<And>k. map_of (cg_remoteTiles g) k = tile (remote_id k) (cg_window g)"
    "cg_selfTile g \<noteq> None" "tile ''self'' (cg_window g) = cg_selfTile g"
    "\<And>i. tile i (cg_window g) \<noteq> None \<Longrightarrow> i = ''self'' \<or> (\<exists>k. i = remote_id k)"
    "fst ` set (cg_widgets g) = snd ` set (win_tiles (cg_window g))"
    using assms by (auto simp: gui_ok_def)
  have w: "window_ok w (fold place cs (cg_grid g))" by (rule add_tile_ok [OF ok(1) a])
  have t: "tile j w = (if j = remote_id k then r else tile j (cg_window g))" for j by (rule tile_add [OF a])
  have r: "r = None \<Longrightarrow> tile (remote_id k) (cg_window g) = None"
    "tile (remote_id k) (cg_window g) \<noteq> None \<Longrightarrow> r = tile (remote_id k) (cg_window g)"
    using a by (auto simp: win_addParticipant_def Let_def split: option.splits if_splits)
  have live: "x \<in> snd ` set (win_tiles (cg_window g))" if "tile i (cg_window g) = Some x" for i x
    using that by (auto simp: tile_map_of dest!: map_of_SomeD intro: rev_image_eqI)
  have g': "onVideoStreamAdded k g = g\<lparr>cg_window := w, cg_grid := fold place cs (cg_grid g),
      cg_widgets := (case r of Some x \<Rightarrow> (if tile (remote_id k) (cg_window g) = None then (x, new_video_widget) # cg_widgets g else cg_widgets g)
                     | None \<Rightarrow> cg_widgets g),
      cg_remoteTiles := (case r of None \<Rightarrow> cg_remoteTiles g | Some x \<Rightarrow> AList.update k x (cg_remoteTiles g))\<rparr>"
    using a by (simp add: onVideoStreamAdded_def gui_tile_def Let_def split: option.split)
  have "map_of (cg_remoteTiles (onVideoStreamAdded k g)) k' = tile (remote_id k') w" for k'
    using ok(2) r(1) by (auto simp: g' t alist_simps remote_id_inject split: option.splits)
  moreover have "fst ` set (cg_widgets (onVideoStreamAdded k g)) = snd ` set (win_tiles w)"
    using ok(6) r(2) live [of "remote_id k"] add_widgets [OF a] by (cases r) (auto simp: g')
  moreover have "\<forall>i. tile i w \<noteq> None \<longrightarrow> i = ''self'' \<or> (\<exists>k. i = remote_id k)" using ok(5) by (auto simp: t)
  ultimately show ?thesis using w ok(3,4) remote_not_self [of k] t [of "''self''"] by (simp add: gui_ok_def g')
qed

lemma removed_ok:
  assumes "gui_ok g"
  shows "gui_ok (onVideoStreamRemoved k g)"
proof -
  obtain cs w where a: "win_removeParticipant (remote_id k) (cg_window g) = (cs, w)" by fastforce
  have ok: "window_ok (cg_window g) (cg_grid g)" "\<And>k. map_of (cg_remoteTiles g) k = tile (remote_id k) (cg_window g)"
    "cg_selfTile g \<noteq> None" "tile ''self'' (cg_window g) = cg_selfTile g"
    "\<And>i. tile i (cg_window g) \<noteq> None \<Longrightarrow> i = ''self'' \<or> (\<exists>k. i = remote_id k)"
    "fst ` set (cg_widgets g) = snd ` set (win_tiles (cg_window g))"
    using assms by (auto simp: gui_ok_def)
  have w: "window_ok w (fold place cs (cg_grid g))" by (rule remove_tile_ok [OF ok(1) a])
  have d: "distinct (tile_ids (cg_window g))" using ok(1) by (simp add: window_ok_def call_tiles.sound_def)
  have t: "tile j w = (if j = remote_id k then None else tile j (cg_window g))" for j by (rule tile_remove [OF d a])
  let ?g = "onVideoStreamRemoved k g"
  have g': "cg_window ?g = w" "cg_grid ?g = fold place cs (cg_grid g)" "cg_selfTile ?g = cg_selfTile g"
    "cg_remoteTiles ?g = AList.delete k (cg_remoteTiles g)"
    "cg_widgets ?g = (case tile (remote_id k) (cg_window g) of None \<Rightarrow> cg_widgets g | Some x \<Rightarrow> AList.delete x (cg_widgets g))"
    using a by (simp_all add: onVideoStreamRemoved_def)
  have del: "fst ` set (AList.delete x al) = fst ` set al - {x}" for x and al :: "(nat \<times> video_widget) list"
    using arg_cong [OF keys_delete_filter [of x al], of set] by auto
  have "map_of (cg_remoteTiles ?g) k' = tile (remote_id k') w" for k'
    using ok(2) by (auto simp: g' t alist_simps remote_id_inject)
  moreover have "fst ` set (cg_widgets ?g) = snd ` set (win_tiles w)"
    using ok(6) remove_widgets [OF ok(1) a] by (auto simp: g' del split: option.splits)
  moreover have "\<forall>i. tile i w \<noteq> None \<longrightarrow> i = ''self'' \<or> (\<exists>k. i = remote_id k)" using ok(5) by (auto simp: t)
  ultimately show ?thesis using w ok(3,4) remote_not_self [of k] t [of "''self''"] by (simp add: gui_ok_def g')
qed

lemma show_on_ok:
  assumes "gui_ok g" "tile i (cg_window g) = Some x"
  shows "\<exists>g'. show_on x f g = Some g' \<and> gui_ok g' \<and> cg_remoteTiles g' = cg_remoteTiles g \<and> cg_selfTile g' = cg_selfTile g"
proof -
  have "x \<in> snd ` set (win_tiles (cg_window g))"
    using assms(2) by (auto simp: tile_map_of dest!: map_of_SomeD intro: rev_image_eqI)
  then have "x \<in> fst ` set (cg_widgets g)" using assms(1) by (simp add: gui_ok_def)
  then obtain w where w: "map_of (cg_widgets g) x = Some w" using map_of_None_iff [of "cg_widgets g" x] by (cases "map_of (cg_widgets g) x") auto
  have "map fst (AList.update x v (cg_widgets g)) = map fst (cg_widgets g)" for v using w by (intro keys_update_old) simp
  then have "fst ` set (AList.update x v (cg_widgets g)) = fst ` set (cg_widgets g)" for v by (metis set_map)
  then show ?thesis using assms(1) w by (simp add: show_on_def gui_ok_def)
qed

text \<open>Events in the order of their protocol: no dangling pointer, and a source with a tile is one the
  listener considers alive.\<close>

lemma gui_events_ok:
  assumes "gui_ok g" "\<And>k. map_of (cg_remoteTiles g) k \<noteq> None \<Longrightarrow> live k" "\<And>k. life k (live k) evs = Some (live' k)"
  shows "\<exists>g'. gui_events evs g = Some g' \<and> gui_ok g' \<and> cg_selfTile g' = cg_selfTile g \<and>
    (\<forall>k. map_of (cg_remoteTiles g') k \<noteq> None \<longrightarrow> live' k)"
  using assms
proof (induction evs arbitrary: g live)
  case Nil
  then show ?case by auto
next
  case (Cons e evs)
  have tiles: "map_of (cg_remoteTiles g) k = tile (remote_id k) (cg_window g)" for k using Cons.prems(1) by (simp add: gui_ok_def)
  show ?case
  proof (cases e)
    case (Added k)
    have self: "cg_selfTile (onVideoStreamAdded k g) = cg_selfTile g"
      by (simp add: onVideoStreamAdded_def gui_tile_def Let_def split_beta split: option.split)
    have "map_of (cg_remoteTiles (onVideoStreamAdded k g)) k' \<noteq> None \<Longrightarrow> (live(k := True)) k'" for k'
      using Cons.prems(2) by (auto simp: onVideoStreamAdded_def gui_tile_def Let_def split_beta alist_simps split: option.splits if_splits)
    moreover have "life k' ((live(k := True)) k') evs = Some (live' k')" for k'
      using Cons.prems(3) [of k'] Added by (auto split: if_splits)
    ultimately show ?thesis using Cons.IH [OF added_ok [OF Cons.prems(1)], of k "live(k := True)"] Added self by auto
  next
    case (Frame k f)
    have l: "life k' (live k') evs = Some (live' k')" for k' using Cons.prems(3) [of k'] Frame by (auto split: if_splits)
    show ?thesis
    proof (cases "map_of (cg_remoteTiles g) k")
      case None
      then show ?thesis using Cons.IH [OF Cons.prems(1,2) l] Frame by (simp add: onVideoFrame_def)
    next
      case (Some x)
      then obtain g1 where g1: "show_on x f g = Some g1" "gui_ok g1" "cg_remoteTiles g1 = cg_remoteTiles g" "cg_selfTile g1 = cg_selfTile g"
        using show_on_ok [OF Cons.prems(1), of "remote_id k" x f] tiles by auto
      have "map_of (cg_remoteTiles g1) k' \<noteq> None \<Longrightarrow> live k'" for k' using Cons.prems(2) g1(3) by simp
      from Cons.IH [OF g1(2) this l] show ?thesis using Some Frame g1 by (simp add: onVideoFrame_def)
    qed
  next
    case (Removed k)
    have self: "cg_selfTile (onVideoStreamRemoved k g) = cg_selfTile g" by (simp add: onVideoStreamRemoved_def split_beta)
    have "map_of (cg_remoteTiles (onVideoStreamRemoved k g)) k' \<noteq> None \<Longrightarrow> (live(k := False)) k'" for k'
      using Cons.prems(2) by (auto simp: onVideoStreamRemoved_def split_beta alist_simps split: if_splits)
    moreover have "life k' ((live(k := False)) k') evs = Some (live' k')" for k'
      using Cons.prems(3) [of k'] Removed by (auto split: if_splits)
    ultimately show ?thesis using Cons.IH [OF removed_ok [OF Cons.prems(1)], of k "live(k := False)"] Removed self by auto
  next
    case (Enqueued a)
    have "life k (live k) evs = Some (live' k)" for k using Cons.prems(3) [of k] Enqueued by simp
    from Cons.IH [OF Cons.prems(1,2) this] show ?thesis using Enqueued by simp
  qed
qed


lemma toggles_ok:
  assumes "gui_ok g"
  shows "gui_ok (g\<lparr>cg_window := snd (toggle_mute b (cg_window g))\<rparr>)" "gui_ok (g\<lparr>cg_window := snd (toggle_camera b (cg_window g))\<rparr>)"
  using assms by (simp_all add: gui_ok_def toggle_mute_def toggle_camera_def window_ok_def call_tiles.sound_def tile_ids_def tile_map_of)

definition call_ok :: "('d, 'o) router \<Rightarrow> call_gui \<Rightarrow> bool" where
  "call_ok r g \<longleftrightarrow> gui_ok g \<and> router_ok r \<and> rr_onVideoStreamAdded r \<and> rr_onVideoStreamRemoved r \<and>
     (\<forall>k. map_of (cg_remoteTiles g) k \<noteq> None \<longrightarrow> announced k (rr_streams r))"

lemma call_step_ok:
  assumes "call_ok r g"
  shows "\<exists>r' g'. call_step vlib alib vsink asink s r g = Some (r', g') \<and> call_ok r' g'"
proof -
  have ok: "gui_ok g" "router_ok r" "rr_onVideoStreamAdded r" "rr_onVideoStreamRemoved r"
    "\<And>k. map_of (cg_remoteTiles g) k \<noteq> None \<Longrightarrow> announced k (rr_streams r)" using assms by (auto simp: call_ok_def)
  consider (push) p t where "s = Net (RPush p t)" | (tick) now where "s = Net (RTick now)" | (own) f where "s = OwnPicture f"
    | (mute) b where "s = Mute b" | (camera) b where "s = CameraOff b"
    by (metis call_action.exhaust router_step.exhaust)
  then show ?thesis
  proof cases
    case push
    then show ?thesis using ok push_effect [OF ok(2), of vlib alib p t] by (auto simp: call_ok_def)
  next
    case tick
    obtain evs r' where t: "rr_tick vlib alib vsink asink now r = (evs, r')" by force
    note eff = tick_effect [OF ok(2-4) t]
    obtain g' where "gui_events evs g = Some g'" "gui_ok g'" "\<forall>k. map_of (cg_remoteTiles g') k \<noteq> None \<longrightarrow> announced k (rr_streams r')"
      using gui_events_ok [OF ok(1), where live = "\<lambda>k. announced k (rr_streams r)" and evs = evs and
          live' = "\<lambda>k. announced k (rr_streams r')"] ok(5) eff by blast
    then show ?thesis using tick t eff by (simp add: call_ok_def)
  next
    case own
    obtain x where x: "cg_selfTile g = Some x" "tile ''self'' (cg_window g) = Some x" using ok(1) by (auto simp: gui_ok_def)
    from show_on_ok [OF ok(1) x(2), of f] show ?thesis using own x ok by (auto simp: show_self_def call_ok_def)
  next
    case mute
    then show ?thesis using toggles_ok [OF ok(1)] ok by (auto simp: call_ok_def)
  next
    case camera
    then show ?thesis using toggles_ok [OF ok(1)] ok by (auto simp: call_ok_def)
  qed
qed

lemma call_run_ok:
  "call_ok r g \<Longrightarrow> \<exists>r' g'. call_run vlib alib vsink asink ss r g = Some (r', g') \<and> call_ok r' g'"
proof (induction ss arbitrary: r g)
  case (Cons s ss)
  then obtain r1 g1 where "call_step vlib alib vsink asink s r g = Some (r1, g1)" "call_ok r1 g1" using call_step_ok by blast
  then show ?case using Cons.IH by simp
qed simp



section \<open>The send side\<close>

text \<open>The pipeline with the encoders it points to, the two flags and the transport its sink sends
  on.\<close>

record ('c, 'o, 'e, 's) call_sender =
  cs_pipeline :: "('c, 'o) send_pipeline"
  cs_videoReady :: bool
  cs_iceConnected :: bool
  cs_transport :: "('e, 's) rtp_transport"

definition audioFmt :: audio_format where
  "audioFmt = \<lparr>sampleRateHz = 48000, channels = 1\<rparr>"

definition new_call_sender :: "'o opus_encoder \<Rightarrow> u32 \<Rightarrow> u32 \<Rightarrow> ('e, 's) rtp_transport \<Rightarrow> ('c, 'o, 'e, 's) call_sender" where
  "new_call_sender alib videoSsrc audioSsrc t =
    (let aenc = snd (aen_open alib audioFmt 32000 new_audio_encoder);
         scfg = default_send_config\<lparr>sc_videoSsrc := videoSsrc, sc_audioSsrc := audioSsrc\<rparr>
     in \<lparr>cs_pipeline = new_send_pipeline (Some new_video_encoder) (Some aenc) True scfg, cs_videoReady = False,
         cs_iceConnected = False, cs_transport = t\<rparr>)"

text \<open>The sink: \<^verbatim>\<open>send\<close> on the transport, its status dropped.\<close>

fun send_events :: "'s srtp_lib \<Rightarrow> bool \<Rightarrow> send_event list \<Rightarrow> ('e, 's) rtp_transport \<Rightarrow> bytes list \<times> ('e, 's) rtp_transport" where
  "send_events lib juice_ok [] t = ([], t)"
| "send_events lib juice_ok (Tap ef # evs) t = send_events lib juice_ok evs t"
| "send_events lib juice_ok (Sink pkt # evs) t =
     (let (s, sent, t) = tr_send lib juice_ok pkt t; (out, t) = send_events lib juice_ok evs t in (sent @ out, t))"

definition call_encoder_config :: "video_frame \<Rightarrow> encoder_config" where
  "call_encoder_config f = \<lparr>ec_width = vf_width f, ec_height = vf_height f, ec_fps = 30, ec_bitrateKbps = 1500\<rparr>"

definition push_captured :: "'c av_encoder \<Rightarrow> 's srtp_lib \<Rightarrow> bool \<Rightarrow> bytes \<Rightarrow> video_frame \<Rightarrow> ('c, 'o, 'e, 's) call_sender \<Rightarrow>
    bytes list \<times> ('c, 'o, 'e, 's) call_sender" where
  "push_captured vlib lib juice_ok mem f c =
    (let (s, evs, p) = pushVideoFrame vlib mem f (cs_pipeline c); (out, t) = send_events lib juice_ok evs (cs_transport c)
     in (out, c\<lparr>cs_pipeline := p, cs_transport := t\<rparr>))"

text \<open>The capture callback after the own picture: \<open>cameraOff\<close> is the window's flag.\<close>

definition onVideo :: "'c av_encoder \<Rightarrow> 's srtp_lib \<Rightarrow> bool \<Rightarrow> bytes \<Rightarrow> bool \<Rightarrow> video_frame \<Rightarrow> ('c, 'o, 'e, 's) call_sender \<Rightarrow>
    bytes list \<times> ('c, 'o, 'e, 's) call_sender" where
  "onVideo vlib lib juice_ok mem cameraOff f c =
    (if cameraOff \<or> \<not> cs_iceConnected c then ([], c)
     else if \<not> cs_videoReady c then
       (let (s, enc) = ve_open vlib (call_encoder_config f) (the (sp_videoEncoder (cs_pipeline c)));
            c = c\<lparr>cs_pipeline := (cs_pipeline c)\<lparr>sp_videoEncoder := Some enc\<rparr>\<rparr>
        in if \<not> has_value s then ([], c) else push_captured vlib lib juice_ok mem f (c\<lparr>cs_videoReady := True\<rparr>))
     else push_captured vlib lib juice_ok mem f c)"

definition onAudio :: "'o opus_encoder \<Rightarrow> 's srtp_lib \<Rightarrow> bool \<Rightarrow> bytes \<Rightarrow> bool \<Rightarrow> audio_frame \<Rightarrow> ('c, 'o, 'e, 's) call_sender \<Rightarrow>
    bytes list \<times> ('c, 'o, 'e, 's) call_sender" where
  "onAudio alib lib juice_ok mem muted f c =
    (if muted \<or> \<not> cs_iceConnected c then ([], c)
     else let (s, evs, p) = pushAudioFrame alib mem f (cs_pipeline c); (out, t) = send_events lib juice_ok evs (cs_transport c)
       in (out, c\<lparr>cs_pipeline := p, cs_transport := t\<rparr>))"

definition onIceState :: "ice_state \<Rightarrow> ('c, 'o, 'e, 's) call_sender \<Rightarrow> ('c, 'o, 'e, 's) call_sender" where
  "onIceState s c = c\<lparr>cs_iceConnected := (s = IceConnected \<or> s = IceCompleted)\<rparr>"

text \<open>Once the ready flag is set the encoder is open, whatever the codec does, so that no captured picture meets an unopened one.\<close>

definition ready_open :: "('c, 'o, 'e, 's) call_sender \<Rightarrow> bool" where
  "ready_open c \<longleftrightarrow> (case sp_videoEncoder (cs_pipeline c) of None \<Rightarrow> False | Some enc \<Rightarrow> cs_videoReady c \<longrightarrow> ve_isOpen enc)"

lemma ve_open_isOpen: "ve_open lib cfg e = (s, e') \<Longrightarrow> has_value s \<Longrightarrow> ve_isOpen e'"
  by (auto simp: ve_open_def ve_isOpen_def Let_def split: if_splits option.splits)

lemma ve_encode_isOpen: "ve_isOpen e \<Longrightarrow> ve_encode lib mem f e = (r, e') \<Longrightarrow> ve_isOpen e'"
  by (auto simp: ve_encode_def ve_isOpen_def Let_def split: if_splits option.splits prod.splits av_result.splits bool.splits)

lemma push_open:
  assumes "sp_videoEncoder (cs_pipeline c) = Some enc" "ve_isOpen enc" "push_captured vlib lib juice_ok mem f c = (out, c')"
  shows "\<exists>enc'. sp_videoEncoder (cs_pipeline c') = Some enc' \<and> ve_isOpen enc'"
proof -
  obtain r enc' where e: "ve_encode vlib mem f enc = (r, enc')" by fastforce
  have "sp_videoEncoder (snd (snd (pushVideoFrame vlib mem f (cs_pipeline c)))) = Some enc'"
    using assms(1) e by (auto simp: pushVideoFrame_def Let_def split: sum.splits prod.splits)
  then show ?thesis using ve_encode_isOpen [OF assms(2) e] assms(3) by (auto simp: push_captured_def Let_def split_beta)
qed

lemma onVideo_ready:
  assumes "ready_open c" "onVideo vlib lib juice_ok mem cameraOff f c = (out, c')"
  shows "ready_open c'"
proof -
  obtain enc where enc: "sp_videoEncoder (cs_pipeline c) = Some enc" "cs_videoReady c \<Longrightarrow> ve_isOpen enc"
    using assms(1) by (auto simp: ready_open_def split: option.splits)
  have push: "ready_open c2" if "push_captured vlib lib juice_ok mem f c1 = (out, c2)" "sp_videoEncoder (cs_pipeline c1) = Some e" "ve_isOpen e" for c1 c2 e
    using push_open [OF that(2,3,1)] by (auto simp: ready_open_def)
  obtain s e where open_: "ve_open vlib (call_encoder_config f) enc = (s, e)" by fastforce
  show ?thesis
    using assms(2) enc assms(1) push ve_open_isOpen [OF open_] open_
    by (auto simp: onVideo_def Let_def ready_open_def [of "c\<lparr>cs_pipeline := _\<rparr>"] split: if_splits)
qed

section \<open>Signaling callbacks\<close>

text \<open>\<^verbatim>\<open>onJoined\<close>: the payload of the offer sent, if any. The fingerprint is the one of the own certificate.\<close>

definition onJoined :: "string option \<Rightarrow> string \<Rightarrow> ('e, 's) rtp_transport \<Rightarrow> string option" where
  "onJoined juice fingerprint t = (case localDescription juice (tr_nat t) of
     Inl e \<Rightarrow> None | Inr desc \<Rightarrow> Some (packDescription desc fingerprint))"

definition onAnswer :: "'e dtls_engine \<Rightarrow> (string \<Rightarrow> bool) \<Rightarrow> string \<Rightarrow> ('e, 's) rtp_transport \<Rightarrow> status \<times> ('e, 's) rtp_transport" where
  "onAnswer en juice text t = (let (ice, fp) = unpackDescription text; t = setRemoteFingerprint en fp t
     in (setRemoteDescription juice ice (tr_nat t), t))"

definition onIceCandidate :: "(string \<Rightarrow> bool) \<Rightarrow> string \<Rightarrow> ('e, 's) rtp_transport \<Rightarrow> status" where
  "onIceCandidate juice cand t = addRemoteCandidate juice cand (tr_nat t)"

text \<open>The transport of a call before it is initialized, and the exit code when the start fails.\<close>

definition call_transport :: "('e, 's) rtp_transport" where
  "call_transport = enableSecurity True new_rtp_transport"

definition call_startup :: "bool \<Rightarrow> bool \<Rightarrow> nat \<Rightarrow> bool \<Rightarrow> bool \<Rightarrow> nat option" where
  "call_startup initialized joined devices opened started =
    (if \<not> initialized then Some 1 else if \<not> joined then Some 1 else if devices = 0 then Some 1
     else if \<not> opened then Some 1 else if \<not> started then Some 1 else None)"

text \<open>A secured, initialized transport that is neither connected nor in a handshake.\<close>

definition fresh_secured :: "bool \<Rightarrow> ('e, 's) rtp_transport \<Rightarrow> bool" where
  "fresh_secured asClient t \<longleftrightarrow> tr_secured t \<and> tr_asClient t = asClient \<and> \<not> tr_handshakeStarted t \<and> \<not> tr_iceConnected t \<and>
     nt_agent (tr_nat t) \<and> nb_onStateChanged (nt_cbs (tr_nat t)) \<and>
     (case tr_dtls t of None \<Rightarrow> False | Some d \<Rightarrow> ds_ssl d = None)"

text \<open>A DTLS layer in a handshake of the given role that will only accept the given fingerprint.\<close>

definition pinned :: "dtls_role \<Rightarrow> string \<Rightarrow> ('e, 's) rtp_transport \<Rightarrow> bool" where
  "pinned role fp t \<longleftrightarrow> (case tr_dtls t of None \<Rightarrow> False
     | Some d \<Rightarrow> ds_running d \<and> ds_ssl d \<noteq> None \<and> ds_role d = role \<and> ds_remoteFp d = fp)"

lemma fingerprint_nat: "tr_nat (setRemoteFingerprint en fp t) = tr_nat t"
  by (simp add: setRemoteFingerprint_def maybeStartHandshake_def Let_def split_beta split: option.split)

lemma fresh_pins:
  assumes "fresh_secured b t" "fp \<noteq> []"
  shows "pinned (if b then Client else Server) fp (fst (juice_state_changed en lib JUICE_CONNECTED (setRemoteFingerprint en fp t)))"
proof -
  obtain d where d: "tr_dtls t = Some d" "ds_ssl d = None" using assms(1) by (auto simp: fresh_secured_def split: option.splits)
  then show ?thesis using assms
    by (simp add: pinned_def fresh_secured_def juice_state_changed_def handleStateChanged_def tr_onStateChanged_def
        setRemoteFingerprint_def maybeStartHandshake_def dtls_start_def Let_def split_beta)
qed

text \<open>C20. Signaling pins both certificates: the offer the client sends when it has joined, delivered as the
  payload of an offer message, is answered by the server; once the client has processed that
  answer, then as soon as ICE connects each side runs a DTLS handshake, the client and the server role, that accepts
  exactly the fingerprint the other one announced.\<close>

theorem offer_answer_pins:
  assumes "onJoined (Some sdp) clientFp t = Some offer" "map_of (ap_sockets a) ws = Some (k, st)" "client k a = Some st"
    "ae_parse env msg = Some (JObject obj)" "map_of obj ''type'' = Some (JString ''offer'')"
    "map_of obj ''payload'' = Some (JString offer)" "jo_accepts jo sdp" "jo_description jo = Some sdp'"
    "find_sub fp_tag sdp = None" "find_sub fp_tag sdp' = None" "clientFp \<noteq> []" "ae_fingerprint env \<noteq> []"
    "fresh_secured True t" "fresh_secured False (cl_transport st)"
  shows "\<exists>a' answer st'. app_message env jo ws True msg a = Some (a', [ToClient ws (reply ''answer'' ''payload'' answer)]) \<and>
    client k a' = Some st' \<and>
    pinned Server clientFp (fst (juice_state_changed (ae_dtls env) (ae_srtp env) JUICE_CONNECTED (cl_transport st'))) \<and>
    pinned Client (ae_fingerprint env) (fst (juice_state_changed en lib JUICE_CONNECTED (snd (onAnswer en juice answer t))))"
proof -
  have agents: "nt_agent (tr_nat t)" "nt_agent (tr_nat (cl_transport st))" using assms(13,14) by (simp_all add: fresh_secured_def)
  have offer: "offer = packDescription sdp clientFp"
    using assms(1) agents(1) by (simp add: onJoined_def localDescription_def)
  let ?t = "setRemoteFingerprint (ae_dtls env) clientFp (cl_transport st)"
  let ?a = "put_client k (st\<lparr>cl_transport := ?t\<rparr>) a" and ?answer = "packDescription sdp' (ae_fingerprint env)"
  have "app_message env jo ws True msg a = Some (?a, [ToClient ws (reply ''answer'' ''payload'' ?answer)])"
    using assms(2,4-8) agents(2) unpack_pack [OF assms(9), of clientFp]
    by (simp add: app_message_def app_offer_def value_string_def offer setRemoteDescription_def localDescription_def fingerprint_nat)
  moreover have "client k ?a = Some (st\<lparr>cl_transport := ?t\<rparr>)" using assms(3) by (simp add: client_put)
  moreover have "pinned Server clientFp (fst (juice_state_changed (ae_dtls env) (ae_srtp env) JUICE_CONNECTED ?t))"
    using fresh_pins [OF assms(14,11)] by simp
  moreover have "pinned Client (ae_fingerprint env) (fst (juice_state_changed en lib JUICE_CONNECTED (snd (onAnswer en juice ?answer t))))"
    using fresh_pins [OF assms(13,12), of en lib] unpack_pack [OF assms(10)] by (simp add: onAnswer_def Let_def)
  ultimately show ?thesis by fastforce
qed

definition demo_call_transport :: "(bool, nat) rtp_transport" where
  "demo_call_transport = snd (tr_initialize True default_nat_config all_callbacks call_transport)"

lemma demo_fresh: "fresh_secured True demo_call_transport" "fresh_secured False srv_t0"
  by (simp_all add: fresh_secured_def demo_call_transport_def call_transport_def all_callbacks_def srv_defs)

lemma offer_answer_pins_witness:
  "\<exists>answer. pinned Client demo_fp (fst (juice_state_changed demo_engine demo_lib JUICE_CONNECTED
     (snd (onAnswer demo_engine (\<lambda>s. True) answer demo_call_transport))))"
proof -
  let ?a = "demo_pair new_sfu_server srv_t0 srv_t0 False False []"
  have joined: "onJoined (Some ''ice'') demo_fp demo_call_transport = Some (packDescription ''ice'' demo_fp)"
    using demo_fresh(1) by (simp add: onJoined_def localDescription_def fresh_secured_def)
  have msg: "ae_parse demo_env ''o'' = Some (JObject (demo_obj ''o''))" "map_of (demo_obj ''o'') ''type'' = Some (JString ''offer'')"
    "map_of (demo_obj ''o'') ''payload'' = Some (JString (packDescription ''ice'' demo_fp))"
    "jo_accepts demo_answers ''ice''" "jo_description demo_answers = Some ''sdp''" "ae_fingerprint demo_env = demo_fp"
    by (simp_all add: demo_env_simps)
  have no_tag: "find_sub fp_tag ''ice'' = None" "find_sub fp_tag ''sdp'' = None"
    by (simp_all add: find_sub.simps fp_tag_def)
  have "fresh_secured False (cl_transport (demo_client 1 srv_t0 False))" using demo_fresh(2) by (simp add: demo_pair_simps)
  moreover have "map_of (ap_sockets ?a) 10 = Some (0, demo_client 1 srv_t0 False)" "client 0 ?a = Some (demo_client 1 srv_t0 False)"
    by (simp_all only: demo_pair_simps)
  ultimately show ?thesis
    using offer_answer_pins [OF joined _ _ msg(1-5) no_tag demo_fingerprint(2) _ demo_fresh(1), of ?a 10 0 "demo_client 1 srv_t0 False" demo_engine demo_lib "\<lambda>s. True"]
      demo_fingerprint(2) msg(6) by auto
qed

end
