(* ===== verification/Audio_Device.thy ===== *)
theory Audio_Device
  imports Pipeline "HOL-Library.Sublist"
begin

text \<open>
  The audio devices: src/src/audio/AudioIO.h and MacAudio.mm. The audio engine is not part of the
  repository: whether each of its calls succeeds is an argument, and the blocks it calls at its own
  pace (converted microphone samples, the request for output) are operations. A sample is a 16-bit
  word; in the output it stands for its value divided by 32768, which a float holds exactly.
\<close>

type_synonym i16 = "16 word"

section \<open>Capture\<close>

definition kFrameMs :: int where
  "kFrameMs = 20"

definition kAudioPoolDepth :: nat where
  "kAudioPoolDepth = 16"

definition samplesPerFrame :: "int \<Rightarrow> int" where
  "samplesPerFrame rate = tdiv (rate * kFrameMs) 1000"

record audio_capture =
  mc_format :: audio_format
  mc_pool :: "pool_heap option"
  mc_accum :: "i16 list"
  mc_samplesEmitted :: u64
  mc_capturing :: bool

definition new_audio_capture :: audio_capture where
  "new_audio_capture = \<lparr>mc_format = default_audio_format, mc_pool = None, mc_accum = [], mc_samplesEmitted = 0,
     mc_capturing = False\<rparr>"

text \<open>\<open>device\<close>: the input has a sample rate, a converter exists, and the engine starts.\<close>

definition mc_start :: "bool \<Rightarrow> audio_format \<Rightarrow> bool \<Rightarrow> audio_capture \<Rightarrow> status \<times> audio_capture" where
  "mc_start device fmt cb c =
    (if mc_capturing c then (fail AlreadyRunning, c)
     else if sampleRateHz fmt \<noteq> 48000 \<or> channels fmt < 1 \<or> channels fmt > 2 then (fail InvalidArgument, c)
     else if \<not> cb then (fail InvalidArgument, c)
     else let frameBytes = nat (samplesPerFrame (sampleRateHz fmt)) * nat (channels fmt) * 2;
              c = c\<lparr>mc_format := fmt, mc_pool := Some (new_pool_heap frameBytes kAudioPoolDepth), mc_accum := [], mc_samplesEmitted := 0\<rparr>
          in if \<not> device then (fail DeviceError, c) else (ok, c\<lparr>mc_capturing := True\<rparr>))"

definition mc_stop :: "audio_capture \<Rightarrow> status \<times> audio_capture" where
  "mc_stop c = (ok, c\<lparr>mc_capturing := False\<rparr>)"

lemma drop_shorter: "\<not> (n = 0 \<or> length xs < n) \<Longrightarrow> length (drop n xs) < length xs"
  by auto

text \<open>\<^verbatim>\<open>onConverted\<close>: the loop over the whole frames accumulated. The result lists the frames
  given to the callback with the samples copied into them. What the callback does to the pointers
  of the pool is a parameter, and so are the clock readings. The code computes \<open>need\<close> from a format that
  \<^verbatim>\<open>start\<close> checked, so it is not zero.\<close>

function convert_loop :: "(audio_frame \<Rightarrow> pool_heap \<Rightarrow> pool_heap) \<Rightarrow> (nat \<Rightarrow> steady_time) \<Rightarrow> nat \<Rightarrow> audio_capture \<Rightarrow>
    (audio_frame \<times> i16 list) list \<times> audio_capture" where
  "convert_loop sink clock i c =
    (let spf = samplesPerFrame (sampleRateHz (mc_format c));
         need = nat spf * nat (channels (mc_format c)) in
     if need = 0 \<or> length (mc_accum c) < need then ([], c)
     else case acquire_ptr (the (mc_pool c)) of
       (None, h) \<Rightarrow> convert_loop sink clock i (c\<lparr>mc_pool := Some h, mc_accum := drop need (mc_accum c)\<rparr>)
     | (Some (a, b), h) \<Rightarrow>
         let frame = makePcm (Some (a, b)) (mc_format c) spf (clock i);
             h = (if af_buffer frame = None then h else copy_ptr a h);
             out = frame\<lparr>af_rtpTimestamp := ucast (mc_samplesEmitted c)\<rparr>;
             h = (if af_valid frame then sink out h else h);
             h = drop_ptr a (drop_frame (af_buffer frame) h);
             (evs, c') = convert_loop sink clock (i + 1)
               (c\<lparr>mc_pool := Some h, mc_accum := drop need (mc_accum c), mc_samplesEmitted := mc_samplesEmitted c + of_int spf\<rparr>)
         in (if af_valid frame then (out, take need (mc_accum c)) # evs else evs, c'))"
  by pat_completeness auto
termination
  by (relation "measure (\<lambda>(sink, clock, i, c). length (mc_accum c))")
    (simp_all add: drop_shorter del: mult_eq_0_iff length_drop de_Morgan_disj)

declare convert_loop.simps [simp del]

definition onConverted :: "(audio_frame \<Rightarrow> pool_heap \<Rightarrow> pool_heap) \<Rightarrow> (nat \<Rightarrow> steady_time) \<Rightarrow> i16 list \<Rightarrow> audio_capture \<Rightarrow>
    (audio_frame \<times> i16 list) list \<times> audio_capture" where
  "onConverted sink clock samples c = convert_loop sink clock 0 (c\<lparr>mc_accum := mc_accum c @ samples\<rparr>)"

section \<open>Playback\<close>

record audio_playback =
  mp_format :: audio_format
  mp_ring :: "i16 list"
  mp_playing :: bool

definition new_audio_playback :: audio_playback where
  "new_audio_playback = \<lparr>mp_format = default_audio_format, mp_ring = [], mp_playing = False\<rparr>"

definition mp_start :: "bool \<Rightarrow> audio_format \<Rightarrow> audio_playback \<Rightarrow> status \<times> audio_playback" where
  "mp_start device fmt p =
    (if mp_playing p then (fail AlreadyRunning, p)
     else if sampleRateHz fmt \<noteq> 48000 \<or> channels fmt < 1 \<or> channels fmt > 2 then (fail InvalidArgument, p)
     else let p = p\<lparr>mp_format := fmt, mp_ring := []\<rparr> in
       if \<not> device then (fail DeviceError, p) else (ok, p\<lparr>mp_playing := True\<rparr>))"

definition mp_stop :: "audio_playback \<Rightarrow> status \<times> audio_playback" where
  "mp_stop p = (ok, p\<lparr>mp_playing := False\<rparr>)"

definition kMaxRing :: nat where
  "kMaxRing = 48000"

text \<open>The samples are those of the frame's buffer, \<open>sampleCount * channels\<close> of them.\<close>

definition mp_enqueue :: "audio_frame \<Rightarrow> i16 list \<Rightarrow> audio_playback \<Rightarrow> audio_playback" where
  "mp_enqueue frame samples p =
    (if \<not> af_valid frame then p
     else let count = nat (af_sampleCount frame) * nat (channels (af_format frame));
              ring = (if length (mp_ring p) + count > kMaxRing
                      then drop (min (length (mp_ring p) + count - kMaxRing) (length (mp_ring p))) (mp_ring p)
                      else mp_ring p)
          in p\<lparr>mp_ring := ring @ take count samples\<rparr>)"

text \<open>\<^verbatim>\<open>render\<close>: the output buffers, whether all is silence, and the remaining ring.\<close>

definition mp_render :: "nat \<Rightarrow> nat \<Rightarrow> nat \<Rightarrow> audio_playback \<Rightarrow> i16 list list \<times> bool \<times> audio_playback" where
  "mp_render nframes chans numBuffers p =
    (let want = nframes * chans; avail = min want (length (mp_ring p)); framesHave = avail div chans;
         outs = map (\<lambda>c. map (\<lambda>f. if f < framesHave then mp_ring p ! (f * chans + c) else 0) [0..<nframes]) [0..<min chans numBuffers]
     in (outs, framesHave = 0, p\<lparr>mp_ring := (if framesHave > 0 then drop (framesHave * chans) (mp_ring p) else mp_ring p)\<rparr>))"


section \<open>What is captured\<close>

text \<open>The whole blocks of \<open>n\<close> samples, and what is left over.\<close>

function blocks :: "nat \<Rightarrow> 'a list \<Rightarrow> 'a list list \<times> 'a list" where
  "blocks n xs = (if n = 0 \<or> length xs < n then ([], xs)
     else let (bs, r) = blocks n (drop n xs) in (take n xs # bs, r))"
  by pat_completeness auto
termination
  by (relation "measure (\<lambda>(n, xs). length xs)") (auto simp: not_less)

declare blocks.simps [simp del]

lemma blocks_append: "blocks n xs = (bs, r) \<Longrightarrow> blocks n (xs @ ys) = (let (bs', r') = blocks n (r @ ys) in (bs @ bs', r'))"
proof (induction n xs arbitrary: bs rule: blocks.induct)
  case (1 n xs)
  show ?case
  proof (cases "n = 0 \<or> length xs < n")
    case True
    then show ?thesis using 1(2) by (simp add: blocks.simps [of n xs] split_beta)
  next
    case False
    obtain bs' where bs: "blocks n (drop n xs) = (bs', r)" "bs = take n xs # bs'"
      using 1(2) False by (auto simp: blocks.simps [of n xs] split: prod.splits)
    then show ?thesis using 1(1) [OF False bs(1)] False
      by (simp add: blocks.simps [of n "xs @ ys"] split_beta Let_def)
  qed
qed

definition capture_ready :: "audio_capture \<Rightarrow> bool" where
  "capture_ready c \<longleftrightarrow> sampleRateHz (mc_format c) = 48000 \<and> (channels (mc_format c) = 1 \<or> channels (mc_format c) = 2) \<and>
     (case mc_pool c of None \<Rightarrow> False | Some h \<Rightarrow> fp_bufferSize (ph_pool h) = 1920 * nat (channels (mc_format c)))"

lemma start_ready: "mc_start device fmt cb c = (s, c') \<Longrightarrow> has_value s \<Longrightarrow>
    capture_ready c' \<and> mc_accum c' = [] \<and> mc_samplesEmitted c' = 0 \<and> mc_format c' = fmt"
  by (auto simp: mc_start_def capture_ready_def samplesPerFrame_def tdiv_def kFrameMs_def new_pool_heap_def create_pool_def Let_def split: if_splits)

lemma spf_48k: "samplesPerFrame 48000 = 960"
  by (simp add: samplesPerFrame_def tdiv_def kFrameMs_def)

lemma pool_size_ops: "fp_bufferSize (ph_pool (copy_ptr a h)) = fp_bufferSize (ph_pool h)"
  "fp_bufferSize (ph_pool (drop_ptr a h)) = fp_bufferSize (ph_pool h)"
  "fp_bufferSize (ph_pool (drop_frame buf h)) = fp_bufferSize (ph_pool h)"
  "acquire_ptr h = (x, h') \<Longrightarrow> fp_bufferSize (ph_pool h') = fp_bufferSize (ph_pool h)"
  by (auto simp: copy_ptr_def drop_ptr_def release_def drop_frame_def acquire_ptr_def acquire_def Let_def split: option.splits if_splits)

lemma pcm_frame:
  assumes "acquire_ptr h = (Some (a, b), h')" "fp_bufferSize (ph_pool h) = 1920 * nat (channels fmt)" "channels fmt = 1 \<or> channels fmt = 2"
  shows "makePcm (Some (a, b)) fmt 960 t = new_audio_frame\<lparr>af_format := fmt, af_samples := Some (pb_data b),
            af_sampleCount := 960, af_captureTime := t, af_buffer := Some (a, b)\<rparr>"
  using assms by (auto simp: acquire_ptr_def acquire_def makePcm_def Let_def split: if_splits)

text \<open>One call of the loop, for a callback that leaves the buffer size of the pool alone: whole
  blocks in order, some skipped, each frame stamped with the samples emitted before it.\<close>

lemma convert_frames:
  assumes "capture_ready c" "\<And>f h. fp_bufferSize (ph_pool (sink f h)) = fp_bufferSize (ph_pool h)"
    "convert_loop sink clock i c = (evs, c')" "mc_samplesEmitted c = of_nat (960 * k)"
  shows "capture_ready c' \<and> mc_format c' = mc_format c \<and> subseq (map snd evs) (fst (blocks (960 * nat (channels (mc_format c))) (mc_accum c))) \<and>
    mc_accum c' = snd (blocks (960 * nat (channels (mc_format c))) (mc_accum c)) \<and>
    mc_samplesEmitted c' = of_nat (960 * (k + length evs)) \<and>
    map (\<lambda>e. af_rtpTimestamp (fst e)) evs = map (\<lambda>j. of_nat (960 * (k + j))) [0..<length evs] \<and>
    list_all (\<lambda>(f, s). af_valid f \<and> af_format f = mc_format c \<and> af_sampleCount f = 960 \<and> length s = 960 * nat (channels (mc_format c))) evs"
  using assms(1,3,4)
proof (induction "length (mc_accum c)" arbitrary: c i k evs rule: less_induct)
  case less
  let ?need = "960 * nat (channels (mc_format c))"
  obtain hp where hp: "mc_pool c = Some hp" "fp_bufferSize (ph_pool hp) = 1920 * nat (channels (mc_format c))"
    using less.prems(1) by (auto simp: capture_ready_def split: option.splits)
  have fmt: "sampleRateHz (mc_format c) = 48000" "channels (mc_format c) = 1 \<or> channels (mc_format c) = 2"
    using less.prems(1) by (auto simp: capture_ready_def)
  show ?case
  proof (cases "length (mc_accum c) < ?need")
    case True
    then have "evs = []" "c' = c" using less.prems(2) fmt by (auto simp: convert_loop.simps [of sink clock i c] spf_48k Let_def)
    then show ?thesis using less.prems(1,3) True by (simp add: blocks.simps [of ?need])
  next
    case False
    have go: "\<not> (?need = 0 \<or> length (mc_accum c) < ?need)" using False fmt by auto
    let ?rest = "drop ?need (mc_accum c)"
    have shorter: "length ?rest < length (mc_accum c)" using go by auto
    obtain bs r where b: "blocks ?need ?rest = (bs, r)" by fastforce
    then have bl: "blocks ?need (mc_accum c) = (take ?need (mc_accum c) # bs, r)" using go by (simp add: blocks.simps [of ?need "mc_accum c"])
    obtain x h1 where acq: "acquire_ptr hp = (x, h1)" by fastforce
    note size = pool_size_ops(4) [OF acq]
    show ?thesis
    proof (cases x)
      case None
      let ?c = "c\<lparr>mc_pool := Some h1, mc_accum := ?rest\<rparr>"
      have loop: "convert_loop sink clock i ?c = (evs, c')"
        using less.prems(2) go hp acq None fmt(1) by (simp add: convert_loop.simps [of sink clock i c] spf_48k)
      have ready: "capture_ready ?c" using less.prems(1) hp size by (simp add: capture_ready_def)
      show ?thesis using less.hyps [OF _ ready loop, of k] less.prems(3) shorter b bl by auto
    next
      case (Some ab)
      obtain a bb where ab: "ab = (a, bb)" by (cases ab)
      let ?f = "makePcm (Some (a, bb)) (mc_format c) 960 (clock i)"
      note pcm = pcm_frame [OF acq [unfolded Some ab] hp(2) fmt(2), of "clock i"]
      have f: "af_valid ?f" "af_format ?f = mc_format c" "af_sampleCount ?f = 960" "af_buffer ?f = Some (a, bb)"
        using fmt(2) unfolding pcm by (auto simp: af_valid_def new_audio_frame_def)
      let ?out = "?f\<lparr>af_rtpTimestamp := ucast (mc_samplesEmitted c)\<rparr>"
      let ?h = "drop_ptr a (drop_frame (Some (a, bb)) (sink ?out (copy_ptr a h1)))"
      let ?c = "c\<lparr>mc_pool := Some ?h, mc_accum := ?rest, mc_samplesEmitted := mc_samplesEmitted c + 960\<rparr>"
      obtain evs' where loop: "convert_loop sink clock (i + 1) ?c = (evs', c')" "evs = (?out, take ?need (mc_accum c)) # evs'"
        using less.prems(2) go hp acq Some ab fmt(1) f by (auto simp: convert_loop.simps [of sink clock i c] spf_48k Let_def split: prod.splits)
      have "fp_bufferSize (ph_pool ?h) = fp_bufferSize (ph_pool hp)" using size by (simp add: pool_size_ops assms(2))
      then have ready: "capture_ready ?c" using less.prems(1) hp by (simp add: capture_ready_def)
      have k: "mc_samplesEmitted ?c = of_nat (960 * (k + 1))" using less.prems(3) by simp
      note IH = less.hyps [OF _ ready loop(1) k]
      have "of_nat (960 * k) = (ucast (mc_samplesEmitted c) :: u32)" unfolding less.prems(3) by (simp add: unsigned_of_nat word_of_nat_eq_iff take_bit_take_bit del: of_nat_mult)
      moreover have "[0..<length evs] = 0 # map Suc [0..<length evs']" using loop(2) by (simp add: map_Suc_upt upt_conv_Cons del: upt_Suc)
      ultimately show ?thesis using IH shorter b bl f go loop(2) by (auto simp: af_valid_def comp_def)
    qed
  qed
qed


lemma upt_split: "[0..<a + b] = [0..<a] @ map (\<lambda>j. a + j) [0..<b]"
  by (induction b) auto

lemma blocks_rest: "blocks n xs = (bs, r) \<Longrightarrow> 0 < n \<Longrightarrow> length r < n"
proof (induction n xs arbitrary: bs rule: blocks.induct)
  case (1 n xs)
  then show ?case by (auto simp: blocks.simps [of n xs] not_less split: if_splits prod.splits)
qed

text \<open>A callback that keeps no frame always leaves a free buffer: nothing is skipped.\<close>

definition idle_pool :: "pool_heap \<Rightarrow> bool" where
  "idle_pool h \<longleftrightarrow> ph_blocks h = [] \<and> fp_freeSlots (ph_pool h) \<noteq> []"

lemma idle_cycle:
  assumes "idle_pool h"
  obtains a b h1 where "acquire_ptr h = (Some (a, b), h1)" "idle_pool (drop_ptr a (drop_frame (Some (a, b)) (copy_ptr a h1)))"
  using assms that
  by (auto simp: idle_pool_def acquire_ptr_def acquire_def copy_ptr_def drop_ptr_def drop_frame_def release_def Let_def)

lemma convert_lossless:
  assumes "capture_ready c" "idle_pool (the (mc_pool c))" "convert_loop (\<lambda>f h. h) clock i c = (evs, c')"
  shows "map snd evs = fst (blocks (960 * nat (channels (mc_format c))) (mc_accum c)) \<and> idle_pool (the (mc_pool c'))"
  using assms
proof (induction "length (mc_accum c)" arbitrary: c i evs rule: less_induct)
  case less
  let ?need = "960 * nat (channels (mc_format c))"
  obtain hp where hp: "mc_pool c = Some hp" "fp_bufferSize (ph_pool hp) = 1920 * nat (channels (mc_format c))"
    using less.prems(1) by (auto simp: capture_ready_def split: option.splits)
  have fmt: "sampleRateHz (mc_format c) = 48000" "channels (mc_format c) = 1 \<or> channels (mc_format c) = 2"
    using less.prems(1) by (auto simp: capture_ready_def)
  show ?case
  proof (cases "length (mc_accum c) < ?need")
    case True
    then have "evs = []" "c' = c" using less.prems(3) fmt by (auto simp: convert_loop.simps [of _ clock i c] spf_48k Let_def)
    then show ?thesis using less.prems(2) True by (simp add: blocks.simps [of ?need])
  next
    case False
    have go: "\<not> (?need = 0 \<or> length (mc_accum c) < ?need)" using False fmt by auto
    let ?rest = "drop ?need (mc_accum c)"
    have shorter: "length ?rest < length (mc_accum c)" using go by auto
    have "idle_pool hp" using less.prems(2) hp by simp
    then obtain a bb h1 where acq: "acquire_ptr hp = (Some (a, bb), h1)"
      and idle: "idle_pool (drop_ptr a (drop_frame (Some (a, bb)) (copy_ptr a h1)))" by (rule idle_cycle)
    let ?h = "drop_ptr a (drop_frame (Some (a, bb)) (copy_ptr a h1))"
    let ?c = "c\<lparr>mc_pool := Some ?h, mc_accum := ?rest, mc_samplesEmitted := mc_samplesEmitted c + 960\<rparr>"
    note pcm = pcm_frame [OF acq hp(2) fmt(2), of "clock i"]
    have f: "af_valid (makePcm (Some (a, bb)) (mc_format c) 960 (clock i))" "af_buffer (makePcm (Some (a, bb)) (mc_format c) 960 (clock i)) = Some (a, bb)"
      using fmt(2) unfolding pcm by (auto simp: af_valid_def new_audio_frame_def)
    obtain evs' where loop: "convert_loop (\<lambda>f h. h) clock (i + 1) ?c = (evs', c')" "map snd evs = take ?need (mc_accum c) # map snd evs'"
      using less.prems(3) go hp acq fmt(1) f by (auto simp: convert_loop.simps [of _ clock i c] spf_48k Let_def split: prod.splits)
    have "fp_bufferSize (ph_pool ?h) = fp_bufferSize (ph_pool hp)" using pool_size_ops(4) [OF acq] by (simp add: pool_size_ops)
    then have ready: "capture_ready ?c" using less.prems(1) hp by (simp add: capture_ready_def)
    show ?thesis using less.hyps [OF _ ready _ loop(1)] idle shorter loop(2) go
      by (simp add: blocks.simps [of ?need "mc_accum c"] split_beta Let_def)
  qed
qed

text \<open>A sequence of taps, each with its clock readings and samples.\<close>

fun capture_run :: "(audio_frame \<Rightarrow> pool_heap \<Rightarrow> pool_heap) \<Rightarrow> ((nat \<Rightarrow> steady_time) \<times> i16 list) list \<Rightarrow> audio_capture \<Rightarrow>
    (audio_frame \<times> i16 list) list \<times> audio_capture" where
  "capture_run sink [] c = ([], c)"
| "capture_run sink ((clock, samples) # taps) c =
     (let (evs, c) = onConverted sink clock samples c; (evs', c) = capture_run sink taps c in (evs @ evs', c))"

lemma subseq_append2: "subseq xs ys \<Longrightarrow> subseq xs' ys' \<Longrightarrow> subseq (xs @ xs') (ys @ ys')"
  by (rule list_emb_append_mono)

lemma capture_run_frames:
  assumes "capture_ready c" "\<And>f h. fp_bufferSize (ph_pool (sink f h)) = fp_bufferSize (ph_pool h)"
    "capture_run sink taps c = (evs, c')" "mc_samplesEmitted c = of_nat (960 * k)" "length (mc_accum c) < 960 * nat (channels (mc_format c))"
  shows "subseq (map snd evs) (fst (blocks (960 * nat (channels (mc_format c))) (mc_accum c @ concat (map snd taps)))) \<and>
    mc_accum c' = snd (blocks (960 * nat (channels (mc_format c))) (mc_accum c @ concat (map snd taps))) \<and>
    map (\<lambda>e. af_rtpTimestamp (fst e)) evs = map (\<lambda>j. of_nat (960 * (k + j))) [0..<length evs] \<and>
    list_all (\<lambda>(f, s). af_valid f \<and> af_format f = mc_format c \<and> af_sampleCount f = 960 \<and> length s = 960 * nat (channels (mc_format c))) evs \<and>
    (sink = (\<lambda>f h. h) \<and> idle_pool (the (mc_pool c)) \<longrightarrow>
       map snd evs = fst (blocks (960 * nat (channels (mc_format c))) (mc_accum c @ concat (map snd taps))))"
  using assms(1,3-5)
proof (induction taps arbitrary: c k evs)
  case Nil
  then show ?case by (simp add: blocks.simps)
next
  case (Cons t taps)
  obtain clock samples where t: "t = (clock, samples)" by (cases t)
  let ?n = "960 * nat (channels (mc_format c))" and ?c = "c\<lparr>mc_accum := mc_accum c @ samples\<rparr>"
  obtain e1 c1 where loop: "convert_loop sink clock 0 ?c = (e1, c1)" by fastforce
  obtain e2 where rest: "capture_run sink taps c1 = (e2, c')" "evs = e1 @ e2"
    using Cons.prems(2) t loop by (auto simp: onConverted_def split: prod.splits)
  have ready: "capture_ready ?c" using Cons.prems(1) by (simp add: capture_ready_def split: option.splits)
  have k: "mc_samplesEmitted ?c = of_nat (960 * k)" using Cons.prems(3) by simp
  obtain b1 r1 where b1: "blocks ?n (mc_accum c @ samples) = (b1, r1)" by fastforce
  note one = convert_frames [OF ready assms(2) loop k, simplified]
  have r1: "mc_accum c1 = r1" "mc_format c1 = mc_format c" using one b1 by auto
  have "0 < ?n" using Cons.prems(1) by (auto simp: capture_ready_def)
  then have short: "length (mc_accum c1) < 960 * nat (channels (mc_format c1))" using blocks_rest [OF b1] r1 by simp
  have "capture_ready c1" "mc_samplesEmitted c1 = of_nat (960 * (k + length e1))" using one by simp_all
  note more = Cons.IH [OF this(1) rest(1) this(2) short]
  obtain b2 r2 where b2: "blocks ?n (r1 @ concat (map snd taps)) = (b2, r2)" by fastforce
  have bl: "blocks ?n (mc_accum c @ concat (map snd (t # taps))) = (b1 @ b2, r2)"
    using blocks_append [OF b1, of "concat (map snd taps)"] b2 t by simp
  have "subseq (map snd e1) b1" using one b1 by auto
  moreover have "subseq (map snd e2) b2" using more b2 r1 by simp
  ultimately have "subseq (map snd evs) (b1 @ b2)" unfolding rest(2) map_append by (rule subseq_append2)
  moreover have "[0..<length evs] = [0..<length e1] @ map (\<lambda>j. length e1 + j) [0..<length e2]"
    using upt_split by (simp add: rest(2))
  moreover have "map snd evs = b1 @ b2" if keep: "sink = (\<lambda>f h. h)" "idle_pool (the (mc_pool c))"
  proof -
    have "map snd e1 = b1 \<and> idle_pool (the (mc_pool c1))"
      using convert_lossless [OF ready _ loop [unfolded keep(1)]] keep(2) b1 by simp
    then show ?thesis using more keep(1) b2 r1 by (simp add: rest(2))
  qed
  ultimately show ?case using one more b2 r1 bl by (simp add: rest(2) comp_def add.assoc)
qed


lemma start_idle: "mc_start device fmt cb c = (s, c') \<Longrightarrow> has_value s \<Longrightarrow> idle_pool (the (mc_pool c'))"
  by (auto simp: mc_start_def idle_pool_def new_pool_heap_def create_pool_def kAudioPoolDepth_def Let_def split: if_splits)

text \<open>C36. Capture re-chunks without reordering: whatever the sizes of the blocks the device delivers,
  the frames given to the callback are valid and of exactly 20 ms, they are whole blocks of the captured samples in order (some
  skipped when the callback keeps all buffers, none when it keeps no frame), what is not yet a whole block is kept, and frame \<open>j\<close> has the RTP
  timestamp \<open>960 * j\<close>: the skipped blocks do not count in it.\<close>

theorem capture_in_blocks:
  assumes "mc_start device fmt cb c0 = (s, c)" "has_value s" "\<And>f h. fp_bufferSize (ph_pool (sink f h)) = fp_bufferSize (ph_pool h)"
    "capture_run sink taps c = (evs, c')"
  shows "subseq (map snd evs) (fst (blocks (960 * nat (channels fmt)) (concat (map snd taps)))) \<and>
    (sink = (\<lambda>f h. h) \<longrightarrow> map snd evs = fst (blocks (960 * nat (channels fmt)) (concat (map snd taps)))) \<and>
    mc_accum c' = snd (blocks (960 * nat (channels fmt)) (concat (map snd taps))) \<and>
    map (\<lambda>e. af_rtpTimestamp (fst e)) evs = map (\<lambda>j. of_nat (960 * j)) [0..<length evs] \<and>
    list_all (\<lambda>(f, s). af_valid f \<and> af_sampleCount f = 960 \<and> length s = 960 * nat (channels fmt)) evs"
proof -
  note st = start_ready [OF assms(1,2)]
  have "length (mc_accum c) < 960 * nat (channels (mc_format c))" using st by (auto simp: capture_ready_def)
  from capture_run_frames [OF _ assms(3,4) _ this, of 0] st start_idle [OF assms(1,2)]
  show ?thesis by (auto simp: list_all_iff)
qed

section \<open>What is played\<close>

datatype play_op = Enqueue audio_frame "i16 list" | Render nat

text \<open>The sound heard: frame by frame the samples of the output buffers, up to where they are filled.\<close>

fun play_run :: "nat \<Rightarrow> play_op list \<Rightarrow> audio_playback \<Rightarrow> i16 list \<times> audio_playback" where
  "play_run ch [] p = ([], p)"
| "play_run ch (Enqueue f s # os) p = play_run ch os (mp_enqueue f s p)"
| "play_run ch (Render n # os) p =
     (let (outs, silent, p') = mp_render n ch ch p;
          heard = concat (map (\<lambda>f. map (\<lambda>b. b ! f) outs) [0..<min n (length (mp_ring p) div ch)]);
          (rest, p') = play_run ch os p'
      in (heard @ rest, p'))"

fun offered :: "play_op list \<Rightarrow> i16 list" where
  "offered [] = []"
| "offered (Enqueue f s # os) =
     (if af_valid f then take (nat (af_sampleCount f) * nat (channels (af_format f))) s else []) @ offered os"
| "offered (Render n # os) = offered os"

definition small_frames :: "play_op list \<Rightarrow> bool" where
  "small_frames os \<longleftrightarrow> list_all (\<lambda>x. case x of Enqueue f s \<Rightarrow> nat (af_sampleCount f) * nat (channels (af_format f)) \<le> kMaxRing | Render n \<Rightarrow> True) os"

lemma interleaved: "n * ch \<le> length xs \<Longrightarrow> concat (map (\<lambda>f. map (\<lambda>c. xs ! (f * ch + c)) [0..<ch]) [0..<n]) = take (n * ch) xs"
proof (induction n)
  case (Suc n)
  have "map (\<lambda>c. xs ! (n * ch + c)) [0..<ch] = take ch (drop (n * ch) xs)"
    using Suc.prems by (intro nth_equalityI) auto
  moreover have "take (Suc n * ch) xs = take (n * ch) xs @ take ch (drop (n * ch) xs)"
    by (metis take_add mult_Suc add.commute)
  ultimately show ?case using Suc by simp
qed simp

lemma render_plays:
  assumes "0 < ch" "mp_render n ch ch p = (outs, silent, p')"
  shows "concat (map (\<lambda>f. map (\<lambda>b. b ! f) outs) [0..<min n (length (mp_ring p) div ch)]) @ mp_ring p' = mp_ring p"
proof -
  let ?k = "min n (length (mp_ring p) div ch)"
  have k: "min (n * ch) (length (mp_ring p)) div ch = ?k"
    using assms(1) by (simp add: min_def div_le_mono div_less_iff_less_mult less_eq_div_iff_mult_less_eq)
  have "?k * ch \<le> length (mp_ring p)" by (metis div_times_less_eq_dividend le_trans min.cobounded2 mult_le_mono1)
  note inter = interleaved [OF this]
  have "map (\<lambda>b. b ! f) outs = map (\<lambda>c. mp_ring p ! (f * ch + c)) [0..<ch]" if "f < ?k" for f
    using assms(2) that by (auto simp: mp_render_def Let_def k)
  then have "map (\<lambda>f. map (\<lambda>b. b ! f) outs) [0..<?k] = map (\<lambda>f. map (\<lambda>c. mp_ring p ! (f * ch + c)) [0..<ch]) [0..<?k]"
    by (intro map_cong) auto
  then have "concat (map (\<lambda>f. map (\<lambda>b. b ! f) outs) [0..<?k]) = take (?k * ch) (mp_ring p)" by (simp only: inter)
  moreover have "mp_ring p' = drop (?k * ch) (mp_ring p)" using assms(2) by (auto simp: mp_render_def Let_def k)
  ultimately show ?thesis by simp
qed

lemma enqueue_ring:
  "mp_ring (mp_enqueue f s p) = (if af_valid f
     then drop (length (mp_ring p) + nat (af_sampleCount f) * nat (channels (af_format f)) - kMaxRing) (mp_ring p) @
          take (nat (af_sampleCount f) * nat (channels (af_format f))) s else mp_ring p)"
  by (auto simp: mp_enqueue_def Let_def min_def)

lemma play_subseq:
  "0 < ch \<Longrightarrow> play_run ch os p = (heard, p') \<Longrightarrow> subseq (heard @ mp_ring p') (mp_ring p @ offered os)"
proof (induction ch os p arbitrary: heard rule: play_run.induct)
  case (2 ch f s os p)
  have "subseq (heard @ mp_ring p') (mp_ring (mp_enqueue f s p) @ offered os)" using 2 by simp
  moreover have "subseq (mp_ring (mp_enqueue f s p) @ offered os) (mp_ring p @ offered (Enqueue f s # os))"
  proof (cases "af_valid f")
    case True
    let ?d = "drop (length (mp_ring p) + nat (af_sampleCount f) * nat (channels (af_format f)) - kMaxRing) (mp_ring p)"
    have "subseq ?d (mp_ring p)" by (intro suffix_imp_subseq suffix_drop)
    from subseq_append2 [OF this subseq_order.order_refl] show ?thesis using True by (simp only: enqueue_ring offered.simps if_True append.assoc)
  qed (simp add: enqueue_ring)
  ultimately show ?case by (rule subseq_order.order_trans)
next
  case (3 ch n os p)
  obtain outs silent p1 where r: "mp_render n ch ch p = (outs, silent, p1)" by (rule prod_cases3)
  obtain h2 where h2: "play_run ch os p1 = (h2, p')" "heard = concat (map (\<lambda>f. map (\<lambda>b. b ! f) outs) [0..<min n (length (mp_ring p) div ch)]) @ h2"
    using 3(3) r by (auto simp: Let_def split: prod.splits)
  have "subseq (h2 @ mp_ring p') (mp_ring p1 @ offered os)" using 3(1) [OF r [symmetric] refl refl, of _ h2] 3(2) h2(1) by simp
  from subseq_append2 [OF subseq_order.order_refl this, of "concat (map (\<lambda>f. map (\<lambda>b. b ! f) outs) [0..<min n (length (mp_ring p) div ch)])"]
  show ?case unfolding h2(2) offered.simps append.assoc [symmetric] render_plays [OF 3(2) r] .
qed simp


lemma play_bounded:
  "play_run ch os p = (heard, p') \<Longrightarrow> small_frames os \<Longrightarrow> length (mp_ring p) \<le> kMaxRing \<Longrightarrow> length (mp_ring p') \<le> kMaxRing"
proof (induction ch os p arbitrary: heard rule: play_run.induct)
  case (2 ch f s os p)
  have "length (mp_ring (mp_enqueue f s p)) \<le> kMaxRing" using 2(3,4) by (auto simp: enqueue_ring small_frames_def)
  then show ?case using 2 by (simp add: small_frames_def)
next
  case (3 ch n os p)
  obtain outs silent p1 where r: "mp_render n ch ch p = (outs, silent, p1)" by (rule prod_cases3)
  then have "length (mp_ring p1) \<le> kMaxRing" using 3(4) by (auto simp: mp_render_def Let_def split: if_splits)
  moreover obtain h2 where "play_run ch os p1 = (h2, p')" using 3(2) r by (auto simp: Let_def split: prod.splits)
  ultimately show ?case using 3(1) [OF r [symmetric] refl refl, of _ h2] 3(3) by (simp add: small_frames_def)
qed simp

lemma play_exact:
  "0 < ch \<Longrightarrow> play_run ch os p = (heard, p') \<Longrightarrow> length (mp_ring p @ offered os) \<le> kMaxRing \<Longrightarrow>
   list_all (\<lambda>x. case x of Enqueue f s \<Rightarrow> length s = nat (af_sampleCount f) * nat (channels (af_format f)) | Render n \<Rightarrow> True) os \<Longrightarrow>
   heard @ mp_ring p' = mp_ring p @ offered os"
proof (induction ch os p arbitrary: heard rule: play_run.induct)
  case (2 ch f s os p)
  have "mp_ring (mp_enqueue f s p) @ offered os = mp_ring p @ offered (Enqueue f s # os)"
    using 2(4,5) by (auto simp: enqueue_ring)
  then show ?case using 2 by simp
next
  case (3 ch n os p)
  obtain outs silent p1 where r: "mp_render n ch ch p = (outs, silent, p1)" by (rule prod_cases3)
  let ?h = "concat (map (\<lambda>f. map (\<lambda>b. b ! f) outs) [0..<min n (length (mp_ring p) div ch)])"
  obtain h2 where h2: "play_run ch os p1 = (h2, p')" "heard = ?h @ h2" using 3(3) r by (auto simp: Let_def split: prod.splits)
  note plays = render_plays [OF 3(2) r]
  have "length (mp_ring p1) \<le> length (mp_ring p)" using arg_cong [OF plays, of length] by simp
  then have "h2 @ mp_ring p' = mp_ring p1 @ offered os"
    using 3(1) [OF r [symmetric] refl refl, of _ h2] 3(2,4,5) h2(1) by simp
  then have "heard @ mp_ring p' = (?h @ mp_ring p1) @ offered os" using h2(2) by simp
  then show ?case unfolding plays by simp
qed simp

text \<open>C37. Playback is a bounded queue: over any run of frames enqueued and buffers rendered, what is heard
  followed by what is still queued is the offered sound in order with at most some of it left out; nothing is left out as
  long as no more than 48000 samples were offered, and when no single frame is longer than that, never more are queued.\<close>

theorem playback_in_order:
  assumes "mp_start device fmt p0 = (s, p)" "has_value s" "play_run (nat (channels fmt)) os p = (heard, p')"
  shows "subseq (heard @ mp_ring p') (offered os) \<and>
    (small_frames os \<longrightarrow> length (mp_ring p') \<le> 48000) \<and>
    (length (offered os) \<le> 48000 \<and> list_all (\<lambda>x. case x of Enqueue f s \<Rightarrow> length s = nat (af_sampleCount f) * nat (channels (af_format f)) | Render n \<Rightarrow> True) os \<longrightarrow>
       heard @ mp_ring p' = offered os)"
proof -
  have p: "mp_ring p = []" "0 < nat (channels fmt)" using assms(1,2) by (auto simp: mp_start_def Let_def split: if_splits)
  show ?thesis
    using play_subseq [OF p(2) assms(3)] play_bounded [OF assms(3)] play_exact [OF p(2) assms(3)] by (simp add: p(1) kMaxRing_def)
qed


section \<open>Concrete runs\<close>

definition mono48k :: audio_format where
  "mono48k = \<lparr>sampleRateHz = 48000, channels = 1\<rparr>"

lemma capture_in_blocks_witness:
  "map snd (fst (capture_run (\<lambda>f h. h) [(\<lambda>i. 0, replicate 500 7), (\<lambda>i. 0, replicate 500 8)]
     (snd (mc_start True mono48k True new_audio_capture)))) = [replicate 500 7 @ replicate 460 8]"
proof -
  let ?taps = "[(\<lambda>i. 0, replicate 500 7), (\<lambda>i. 0, replicate 500 8)] :: ((nat \<Rightarrow> steady_time) \<times> i16 list) list"
  obtain s c where st: "mc_start True mono48k True new_audio_capture = (s, c)" by fastforce
  then have s: "has_value s" by (auto simp: mc_start_def mono48k_def new_audio_capture_def Let_def)
  obtain evs c' where run: "capture_run (\<lambda>f h. h) ?taps c = (evs, c')" by fastforce
  have "fst (blocks (960 * nat (channels mono48k)) (concat (map snd ?taps))) = [replicate 500 7 @ replicate 460 8]"
    by (simp add: mono48k_def blocks.simps [of 960] take_Cons' drop_Cons' split_beta)
  then have "map snd evs = [replicate 500 7 @ replicate 460 8]" using capture_in_blocks [OF st s refl run] by simp
  then show ?thesis by (simp only: st run fst_conv snd_conv)
qed

definition demo_sound :: audio_frame where
  "demo_sound = new_audio_frame\<lparr>af_format := mono48k, af_samples := Some 0, af_sampleCount := 3\<rparr>"

lemma playback_in_order_witness:
  "(case play_run 1 [Enqueue demo_sound [1, 2, 3], Render 2] (snd (mp_start True mono48k new_audio_playback)) of
      (heard, p) \<Rightarrow> heard @ mp_ring p) = [1, 2, 3]"
proof -
  obtain s p where st: "mp_start True mono48k new_audio_playback = (s, p)" by fastforce
  then have s: "has_value s" by (auto simp: mp_start_def mono48k_def new_audio_playback_def Let_def)
  obtain heard p' where run: "play_run (nat (channels mono48k)) [Enqueue demo_sound [1, 2, 3], Render 2] p = (heard, p')" by fastforce
  have "heard @ mp_ring p' = offered [Enqueue demo_sound [1, 2, 3], Render 2]"
    using playback_in_order [OF st s run] by (simp add: demo_sound_def mono48k_def af_valid_def new_audio_frame_def)
  then have "heard @ mp_ring p' = [1, 2, 3]" by (simp add: demo_sound_def mono48k_def af_valid_def new_audio_frame_def)
  moreover have "nat (channels mono48k) = 1" by (simp add: mono48k_def)
  ultimately show ?thesis using run by (simp only: st snd_conv prod.case)
qed

end
