(* ===== verification/Camera.thy ===== *)
theory Camera
  imports Pixel AvSync Double
begin

text \<open>
  The camera: the interface CaptureDevice.h with its formats (Types.h), the AVFoundation backend
  MacCapture.mm, the two backends that are not written yet, and the factory (src/src/capture).
  AVFoundation is not part of the repository: what it answers is an argument, and the deliveries it
  makes on its own queue are operations. A delivery is two steps, since it holds the mutex only while it
  copies the callback and the pool pointer.
\<close>

section \<open>Formats\<close>

record video_resolution =
  res_width :: int
  res_height :: int

definition res_valid :: "video_resolution \<Rightarrow> bool" where
  "res_valid r \<longleftrightarrow> res_width r > 0 \<and> res_height r > 0"

record video_format =
  vfm_resolution :: video_resolution
  vfm_fpsNumerator :: int
  vfm_fpsDenominator :: int
  vfm_pixelFormat :: pixel_format

definition new_video_format :: video_format where
  "new_video_format = \<lparr>vfm_resolution = \<lparr>res_width = 0, res_height = 0\<rparr>, vfm_fpsNumerator = 0,
     vfm_fpsDenominator = 1, vfm_pixelFormat = PF_Unknown\<rparr>"

definition fps :: "video_format \<Rightarrow> rat" where
  "fps f = (if vfm_fpsDenominator f \<noteq> 0 then ddiv (d_of_int (vfm_fpsNumerator f)) (d_of_int (vfm_fpsDenominator f)) else 0)"

record capture_device_info =
  cdi_id :: string
  cdi_displayName :: string

section \<open>What AVFoundation answers\<close>

datatype os_type = NV12VideoRange | NV12FullRange | BGRA32 | OtherFormat nat
datatype preset = Preset1920x1080 | Preset1280x720 | Preset640x480 | PresetMedium

record av_system =
  av_cameras :: "(string option \<times> string option) list"
  av_deviceWithID :: "string \<Rightarrow> nat option"
  av_defaultDevice :: "nat option"
  av_inputFor :: "nat \<Rightarrow> bool"
  av_canAddInput :: bool
  av_available :: "os_type list"
  av_canAddOutput :: bool
  av_canSetPreset :: "preset \<Rightarrow> bool"

text \<open>A captured pixel buffer: its size, format, and base addresses with the bytes from there on.\<close>

record pixel_image =
  im_width :: int
  im_height :: int
  im_format :: os_type
  im_plane0 :: bytes
  im_stride0 :: nat
  im_plane1 :: bytes
  im_stride1 :: nat

section \<open>State of MacCapture\<close>

text \<open>A delegate outlives its session while a delivery runs; the pools are numbered in the order in
  which \<^verbatim>\<open>open\<close> makes them, each with its storage, and a callback has the number of its \<^verbatim>\<open>start\<close>.\<close>

record delegate =
  dg_pool :: nat
  dg_cb :: "nat option"
  dg_rtpEpoch :: "steady_time option"

record mac_capture =
  cap_delegate :: "nat option"
  cap_pool :: "nat option"
  cap_formats :: "video_format list"
  cap_active :: video_format
  cap_session :: "(os_type \<times> preset) option"
  cap_opened :: bool
  cap_capturing :: bool
  cap_delegates :: "delegate list"
  cap_pools :: "(pool_heap \<times> bytes) list"

definition kCapturePoolDepth :: nat where
  "kCapturePoolDepth = 8"

definition new_mac_capture :: mac_capture where
  "new_mac_capture = \<lparr>cap_delegate = None, cap_pool = None, cap_formats = [], cap_active = new_video_format,
     cap_session = None, cap_opened = False, cap_capturing = False, cap_delegates = [], cap_pools = []\<rparr>"

definition infoFromDevice :: "string option \<times> string option \<Rightarrow> capture_device_info" where
  "infoFromDevice d = \<lparr>cdi_id = (case fst d of Some s \<Rightarrow> s | None \<Rightarrow> []), cdi_displayName = (case snd d of Some s \<Rightarrow> s | None \<Rightarrow> [])\<rparr>"

definition macEnumerateCaptureDevices :: "av_system \<Rightarrow> capture_device_info list" where
  "macEnumerateCaptureDevices av = map infoFromDevice (av_cameras av)"

section \<open>Operations of MacCapture\<close>

definition choose_format :: "os_type list \<Rightarrow> os_type option" where
  "choose_format avail =
    (if NV12VideoRange \<in> set avail then Some NV12VideoRange
     else if BGRA32 \<in> set avail then Some BGRA32
     else case avail of [] \<Rightarrow> None | t # _ \<Rightarrow> Some t)"

definition choose_preset :: "(preset \<Rightarrow> bool) \<Rightarrow> int \<Rightarrow> preset" where
  "choose_preset can dw =
    (if dw \<ge> 1920 \<and> can Preset1920x1080 then Preset1920x1080
     else if dw \<ge> 1280 \<and> can Preset1280x720 then Preset1280x720
     else if can Preset640x480 then Preset640x480 else PresetMedium)"

definition find_camera :: "av_system \<Rightarrow> capture_device_info \<Rightarrow> nat option" where
  "find_camera av device =
    (case (if cdi_id device \<noteq> [] then av_deviceWithID av (cdi_id device) else None) of
       Some d \<Rightarrow> Some d | None \<Rightarrow> av_defaultDevice av)"

text \<open>\<^verbatim>\<open>active\<close>: the wished format with defaults for what is not positive.\<close>

definition active_format :: "video_format \<Rightarrow> video_format" where
  "active_format desired =
    (let dw = res_width (vfm_resolution desired); dh = res_height (vfm_resolution desired);
         aw = (if dw > 0 then dw else 640); ah = (if dh > 0 then dh else 480)
     in new_video_format\<lparr>vfm_resolution := \<lparr>res_width = aw, res_height = ah\<rparr>,
          vfm_fpsNumerator := (if vfm_fpsNumerator desired > 0 then vfm_fpsNumerator desired else 30),
          vfm_fpsDenominator := (if vfm_fpsDenominator desired > 0 then vfm_fpsDenominator desired else 1),
          vfm_pixelFormat := I420\<rparr>)"

definition cap_open :: "av_system \<Rightarrow> capture_device_info \<Rightarrow> video_format \<Rightarrow> mac_capture \<Rightarrow> status \<times> mac_capture" where
  "cap_open av device desired c =
    (if cap_opened c then (fail AlreadyRunning, c)
     else case find_camera av device of
       None \<Rightarrow> (fail NotFound, c)
     | Some dev \<Rightarrow>
         if \<not> av_inputFor av dev then (fail DeviceError, c)
         else if \<not> av_canAddInput av then (fail DeviceError, c)
         else let chosen = choose_format (av_available av) in
             if \<not> av_canAddOutput av then (fail DeviceError, c)
             else
               let p = choose_preset (av_canSetPreset av) (res_width (vfm_resolution desired));
                   active = active_format desired;
                   bufSize = unat (i420Size (max (res_width (vfm_resolution active)) 1920) (max (res_height (vfm_resolution active)) 1080))
               in (ok, c\<lparr>cap_pool := Some (length (cap_pools c)),
                     cap_pools := cap_pools c @ [(new_pool_heap bufSize kCapturePoolDepth, replicate (bufSize * kCapturePoolDepth) 0)],
                     cap_session := Some (case chosen of Some t \<Rightarrow> t | None \<Rightarrow> OtherFormat 0, p),
                     cap_active := active, cap_formats := [active], cap_opened := True\<rparr>))"

text \<open>\<open>running\<close>: the session runs after \<^verbatim>\<open>startRunning\<close>; \<open>cb\<close> is a callable function.\<close>

definition cap_start :: "bool \<Rightarrow> bool \<Rightarrow> mac_capture \<Rightarrow> status \<times> mac_capture" where
  "cap_start running cb c =
    (if \<not> cap_opened c then (fail NotInitialized, c)
     else if cap_capturing c then (fail AlreadyRunning, c)
     else if \<not> cb then (fail InvalidArgument, c)
     else let n = length (cap_delegates c);
              d = \<lparr>dg_pool = the (cap_pool c), dg_cb = Some n, dg_rtpEpoch = None\<rparr>;
              c = c\<lparr>cap_delegates := cap_delegates c @ [d], cap_delegate := Some n\<rparr>
          in if \<not> running then (fail DeviceError, c\<lparr>cap_delegate := None\<rparr>)
             else (ok, c\<lparr>cap_capturing := True\<rparr>))"

definition clear_cb :: "nat \<Rightarrow> delegate list \<Rightarrow> delegate list" where
  "clear_cb n ds = ds[n := (ds ! n)\<lparr>dg_cb := None\<rparr>]"

definition cap_stop :: "mac_capture \<Rightarrow> status \<times> mac_capture" where
  "cap_stop c = (if \<not> cap_capturing c then (ok, c)
     else (ok, c\<lparr>cap_delegates := (case cap_delegate c of Some n \<Rightarrow> clear_cb n (cap_delegates c) | None \<Rightarrow> cap_delegates c),
       cap_delegate := None, cap_capturing := False\<rparr>))"

definition cap_close :: "mac_capture \<Rightarrow> mac_capture" where
  "cap_close c = (let c = (if cap_capturing c then snd (cap_stop c) else c)
     in c\<lparr>cap_session := None, cap_pool := None, cap_formats := [], cap_opened := False\<rparr>)"

section \<open>Delivery\<close>

text \<open>The first step of \<^verbatim>\<open>captureOutput\<close>, under the mutex: the copies it goes on with.\<close>

definition delivery_begin :: "nat \<Rightarrow> mac_capture \<Rightarrow> (nat \<times> nat) option" where
  "delivery_begin n c = (if n < length (cap_delegates c)
     then (let d = cap_delegates c ! n in case dg_cb d of None \<Rightarrow> None | Some cb \<Rightarrow> Some (cb, dg_pool d)) else None)"

text \<open>The conversion into the buffer at an offset of the storage; \<open>None\<close> for a format not expected.\<close>

definition convert_image :: "pixel_image \<Rightarrow> bytes \<Rightarrow> bytes option" where
  "convert_image img dst =
    (if im_format img = NV12VideoRange \<or> im_format img = NV12FullRange
     then Some (nv12ToI420 (im_plane0 img) (im_stride0 img) (im_plane1 img) (im_stride1 img)
       (nat (im_width img)) (nat (im_height img)) dst)
     else if im_format img = BGRA32
     then Some (bgraToI420 (im_plane0 img) (im_stride0 img) (nat (im_width img)) (nat (im_height img)) dst)
     else None)"

text \<open>The rest of \<^verbatim>\<open>captureOutput\<close>: \<open>img\<close> is the image of the sample, \<open>now\<close> the clock, and \<open>sink\<close> what the
  callback does to the pointers of the pool. The frame given to the callback is the result.\<close>

definition delivery_end :: "(video_frame \<Rightarrow> pool_heap \<Rightarrow> pool_heap) \<Rightarrow> nat \<Rightarrow> nat \<Rightarrow> pixel_image option \<Rightarrow> steady_time \<Rightarrow>
    mac_capture \<Rightarrow> video_frame option \<times> mac_capture" where
  "delivery_end sink n k img now c =
    (case img of None \<Rightarrow> (None, c)
     | Some img \<Rightarrow>
       let w = im_width img; h = im_height img; (hp, mem) = cap_pools c ! k in
       if w \<le> 0 \<or> h \<le> 0 then (None, c)
       else case acquire_ptr hp of
         (None, hp) \<Rightarrow> (None, c\<lparr>cap_pools := (cap_pools c)[k := (hp, mem)]\<rparr>)
       | (Some (a, b), hp) \<Rightarrow>
           let frame = makeI420 (Some (a, b)) w h now in
           if \<not> vf_valid frame then (None, c\<lparr>cap_pools := (cap_pools c)[k := (drop_ptr a hp, mem)]\<rparr>)
           else
             let hp = copy_ptr a hp;
                 done_with = (\<lambda>hp. drop_ptr a (drop_frame (vf_buffer frame) hp));
                 d = cap_delegates c ! n;
                 epoch = (case dg_rtpEpoch d of Some t \<Rightarrow> t | None \<Rightarrow> now);
                 c = c\<lparr>cap_delegates := (cap_delegates c)[n := d\<lparr>dg_rtpEpoch := Some epoch\<rparr>]\<rparr>;
                 frame = frame\<lparr>vf_rtpTimestamp := toRtp now epoch kVideoRtpClockHz\<rparr>;
                 dst = plane_base frame 0
             in case convert_image img (drop dst mem) of
                  None \<Rightarrow> (None, c\<lparr>cap_pools := (cap_pools c)[k := (done_with hp, mem)]\<rparr>)
                | Some bs \<Rightarrow>
                    (Some frame, c\<lparr>cap_pools := (cap_pools c)[k := (done_with (sink frame hp), take dst mem @ bs)]\<rparr>))"

section \<open>The other platforms\<close>

text \<open>LinuxCapture.cpp and WindowsCapture.cpp: stubs without state.\<close>

definition stub_open :: "capture_device_info \<Rightarrow> video_format \<Rightarrow> unit \<Rightarrow> status \<times> unit" where
  "stub_open device desired s = (fail Unsupported, s)"

definition stub_start :: "bool \<Rightarrow> unit \<Rightarrow> status \<times> unit" where
  "stub_start cb s = (fail Unsupported, s)"

definition stub_stop :: "unit \<Rightarrow> status \<times> unit" where
  "stub_stop s = (fail Unsupported, s)"

definition stub_close :: "unit \<Rightarrow> unit" where
  "stub_close s = s"

definition stub_isCapturing :: "unit \<Rightarrow> bool" where
  "stub_isCapturing s \<longleftrightarrow> False"

datatype platform = Apple | Linux | Windows

definition enumerateCaptureDevices :: "platform \<Rightarrow> av_system \<Rightarrow> capture_device_info list" where
  "enumerateCaptureDevices p av = (if p = Apple then macEnumerateCaptureDevices av else [])"

section \<open>The contract of a capture device\<close>

text \<open>What CaptureDevice.h promises about its lifecycle, for every backend.\<close>

locale capture_lifecycle =
  fixes dev_open :: "capture_device_info \<Rightarrow> video_format \<Rightarrow> 'd \<Rightarrow> status \<times> 'd"
    and dev_start :: "bool \<Rightarrow> 'd \<Rightarrow> status \<times> 'd"
    and dev_stop :: "'d \<Rightarrow> status \<times> 'd"
    and dev_close :: "'d \<Rightarrow> 'd"
    and dev_capturing :: "'d \<Rightarrow> bool"
  assumes open_failed: "dev_open i f d = (Inl e, d') \<Longrightarrow> d' = d"
    and open_quiet: "dev_capturing (snd (dev_open i f d)) = dev_capturing d"
    and start_captures: "has_value (fst (dev_start cb d)) \<Longrightarrow> dev_capturing (snd (dev_start cb d))"
    and start_failed: "\<not> has_value (fst (dev_start cb d)) \<Longrightarrow> dev_capturing (snd (dev_start cb d)) = dev_capturing d"
    and start_needs_callback: "has_value (fst (dev_start cb d)) \<Longrightarrow> cb"
    and stop_stops: "has_value (fst (dev_stop d)) \<or> \<not> dev_capturing d \<Longrightarrow> \<not> dev_capturing (snd (dev_stop d))"
    and close_stops: "\<not> dev_capturing (dev_close d)"
begin

text \<open>A session that opens, starts and, whatever came of it, closes.\<close>

lemma session_captures:
  assumes "\<not> dev_capturing d"
  shows "dev_capturing (snd (dev_start cb (snd (dev_open i f d)))) \<longleftrightarrow> has_value (fst (dev_start cb (snd (dev_open i f d))))"
  using assms start_captures start_failed open_quiet by blast

end

text \<open>A backend that works can be started again after it was stopped.\<close>

locale capture_restart = capture_lifecycle +
  fixes dev_opened :: "'a \<Rightarrow> bool"
  assumes opens: "has_value (fst (dev_open i f d)) \<Longrightarrow> dev_opened (snd (dev_open i f d))"
    and start_opened: "dev_opened (snd (dev_start cb d)) = dev_opened d"
    and stop_opened: "has_value (fst (dev_stop d)) \<and> dev_opened (snd (dev_stop d)) = dev_opened d"
    and ready_starts: "dev_opened d \<Longrightarrow> \<not> dev_capturing d \<Longrightarrow> has_value (fst (dev_start True d))"
begin

lemma restart:
  assumes "has_value (fst (dev_open i f d))" "\<not> dev_capturing d"
  shows "has_value (fst (dev_start True (snd (dev_open i f d)))) \<and>
    has_value (fst (dev_start True (snd (dev_stop (snd (dev_start True (snd (dev_open i f d))))))))"
  using opens [OF assms(1)] assms(2) ready_starts start_opened stop_opened stop_stops open_quiet by metis

end

interpretation stub: capture_lifecycle stub_open stub_start stub_stop stub_close stub_isCapturing
  by unfold_locales (auto simp: stub_open_def stub_start_def stub_stop_def stub_close_def stub_isCapturing_def fail_def)

lemma cap_open_frame: "cap_capturing (snd (cap_open av i f c)) = cap_capturing c"
  by (auto simp: cap_open_def Let_def split: option.splits)

interpretation mac: capture_restart "cap_open av" "cap_start True" cap_stop cap_close cap_capturing cap_opened
  by unfold_locales
    (auto simp: cap_open_frame cap_open_def cap_start_def cap_stop_def cap_close_def fail_def ok_def Let_def split: option.splits if_splits)

lemma camera_restarts:
  assumes "has_value (fst (cap_open av i f c))" "\<not> cap_capturing c"
  shows "has_value (fst (cap_start True True (snd (cap_stop (snd (cap_start True True (snd (cap_open av i f c))))))))"
  using mac.restart [OF assms] by blast

section \<open>Runs\<close>

datatype camera_op = Open_Camera av_system capture_device_info video_format | Start_Camera bool bool | Stop_Camera | Close_Camera
  | Begin_Delivery nat | End_Delivery nat "pixel_image option" steady_time | Copy_Frame nat nat | Drop_Frame nat nat

text \<open>The camera with its deliveries under way: delegate, callback and pool of each.\<close>

record camera =
  cam_dev :: mac_capture
  cam_inflight :: "(nat \<times> nat \<times> nat) list"

definition new_camera :: camera where
  "new_camera = \<lparr>cam_dev = new_mac_capture, cam_inflight = []\<rparr>"

definition on_pool :: "nat \<Rightarrow> (pool_heap \<Rightarrow> pool_heap) \<Rightarrow> mac_capture \<Rightarrow> mac_capture" where
  "on_pool k f c = c\<lparr>cap_pools := (cap_pools c)[k := (f (fst (cap_pools c ! k)), snd (cap_pools c ! k))]\<rparr>"

fun camera_step :: "(video_frame \<Rightarrow> pool_heap \<Rightarrow> pool_heap) \<Rightarrow> camera_op \<Rightarrow> camera \<Rightarrow> (nat \<times> video_frame) list \<times> camera" where
  "camera_step sink (Open_Camera av i f) s = ([], s\<lparr>cam_dev := snd (cap_open av i f (cam_dev s))\<rparr>)"
| "camera_step sink (Start_Camera running cb) s = ([], s\<lparr>cam_dev := snd (cap_start running cb (cam_dev s))\<rparr>)"
| "camera_step sink Stop_Camera s = ([], s\<lparr>cam_dev := snd (cap_stop (cam_dev s))\<rparr>)"
| "camera_step sink Close_Camera s = ([], s\<lparr>cam_dev := cap_close (cam_dev s)\<rparr>)"
| "camera_step sink (Begin_Delivery n) s = ([], case delivery_begin n (cam_dev s) of None \<Rightarrow> s
     | Some (cb, k) \<Rightarrow> s\<lparr>cam_inflight := cam_inflight s @ [(n, cb, k)]\<rparr>)"
| "camera_step sink (End_Delivery j img now) s = (if j < length (cam_inflight s) then
     let (n, cb, k) = cam_inflight s ! j; (f, c) = delivery_end sink n k img now (cam_dev s)
     in (case f of None \<Rightarrow> [] | Some f \<Rightarrow> [(cb, f)],
         s\<lparr>cam_dev := c, cam_inflight := take j (cam_inflight s) @ drop (Suc j) (cam_inflight s)\<rparr>) else ([], s))"
| "camera_step sink (Copy_Frame k a) s = ([], s\<lparr>cam_dev := on_pool k (copy_ptr a) (cam_dev s)\<rparr>)"
| "camera_step sink (Drop_Frame k a) s = ([], s\<lparr>cam_dev := on_pool k (drop_ptr a) (cam_dev s)\<rparr>)"

fun camera_run :: "(video_frame \<Rightarrow> pool_heap \<Rightarrow> pool_heap) \<Rightarrow> camera_op list \<Rightarrow> camera \<Rightarrow> (nat \<times> video_frame) list \<times> camera" where
  "camera_run sink [] s = ([], s)"
| "camera_run sink (p # ps) s = (let (es, s) = camera_step sink p s; (es', s) = camera_run sink ps s in (es @ es', s))"

section \<open>Silence after stop\<close>

text \<open>Only the delegate of the running session has a callback.\<close>

definition callbacks_ok :: "mac_capture \<Rightarrow> bool" where
  "callbacks_ok c \<longleftrightarrow> (\<forall>n<length (cap_delegates c). dg_cb (cap_delegates c ! n) \<noteq> None \<longrightarrow>
     cap_capturing c \<and> cap_delegate c = Some n)"

definition starts_well :: "camera_op \<Rightarrow> bool" where
  "starts_well p \<longleftrightarrow> (case p of Start_Camera running cb \<Rightarrow> running | _ \<Rightarrow> True)"

definition no_start :: "camera_op \<Rightarrow> bool" where
  "no_start p \<longleftrightarrow> (case p of Start_Camera running cb \<Rightarrow> False | _ \<Rightarrow> True)"

definition same_session :: "mac_capture \<Rightarrow> mac_capture \<Rightarrow> bool" where
  "same_session c c' \<longleftrightarrow> cap_capturing c' = cap_capturing c \<and> cap_delegate c' = cap_delegate c \<and>
     map dg_cb (cap_delegates c') = map dg_cb (cap_delegates c)"

lemma same_session_ok: "same_session c c' \<Longrightarrow> callbacks_ok c \<Longrightarrow> callbacks_ok c'"
  unfolding same_session_def callbacks_ok_def by (metis length_map nth_map)

lemma dg_cb_update: "n < length ds \<Longrightarrow> map dg_cb (ds[n := (ds ! n)\<lparr>dg_rtpEpoch := e\<rparr>]) = map dg_cb ds"
  by (simp add: map_update list_update_same_conv)

lemma delivery_end_session: "n < length (cap_delegates c) \<Longrightarrow> same_session c (snd (delivery_end sink n k img now c))"
  by (auto simp: delivery_end_def same_session_def Let_def dg_cb_update split: option.splits prod.splits)

lemma same_session_others:
  "same_session c (snd (cap_open av i f c))" "same_session c (on_pool k g c)"
  by (auto simp: same_session_def cap_open_def on_pool_def Let_def split: option.splits)

lemma stop_callbacks: "callbacks_ok c \<Longrightarrow> callbacks_ok (snd (cap_stop c))"
proof -
  assume ok: "callbacks_ok c"
  have "dg_cb (clear_cb k ds ! n) = (if n = k \<and> n < length ds then None else dg_cb (ds ! n))" if "n < length ds" for k n ds
    using that by (cases "n = k") (simp_all add: clear_cb_def)
  with ok show ?thesis by (auto simp: callbacks_ok_def cap_stop_def clear_cb_def split: option.splits)
qed

lemma close_callbacks: "callbacks_ok c \<Longrightarrow> callbacks_ok (cap_close c)"
  using stop_callbacks [of c] by (auto simp: callbacks_ok_def cap_close_def Let_def)

lemma start_callbacks: "callbacks_ok c \<Longrightarrow> callbacks_ok (snd (cap_start True cb c))"
  by (auto simp: callbacks_ok_def cap_start_def Let_def nth_append less_Suc_eq)

definition camera_quiet :: "camera \<Rightarrow> bool" where
  "camera_quiet s \<longleftrightarrow> callbacks_ok (cam_dev s) \<and>
     list_all (\<lambda>(n, cb, k). n < length (cap_delegates (cam_dev s))) (cam_inflight s)"

lemma delegates_length:
  "length (cap_delegates (snd (cap_open av i f c))) = length (cap_delegates c)"
  "length (cap_delegates c) \<le> length (cap_delegates (snd (cap_start running cb c)))"
  "length (cap_delegates (snd (cap_stop c))) = length (cap_delegates c)"
  "length (cap_delegates (cap_close c)) = length (cap_delegates c)"
  "length (cap_delegates (snd (delivery_end sink n k img now c))) = length (cap_delegates c)"
  "length (cap_delegates (on_pool k g c)) = length (cap_delegates c)"
  by (auto simp: cap_open_def cap_start_def cap_stop_def cap_close_def clear_cb_def delivery_end_def on_pool_def Let_def
      split: option.splits prod.splits)

lemma list_all_take_drop: "list_all P xs \<Longrightarrow> list_all P (take j xs @ drop k xs)"
  by (auto simp: list_all_iff dest: in_set_takeD in_set_dropD)

lemma camera_step_quiet:
  assumes "camera_quiet s" "starts_well p" shows "camera_quiet (snd (camera_step sink p s))"
proof -
  have all: "list_all (\<lambda>(n, cb, k). n < m) (cam_inflight s)" if "length (cap_delegates (cam_dev s)) \<le> m" for m
    using assms(1) that by (auto simp: camera_quiet_def list_all_iff)
  show ?thesis
  proof (cases p)
    case (Start_Camera running cb)
    then show ?thesis using assms all [OF delegates_length(2)] start_callbacks by (auto simp: camera_quiet_def starts_well_def)
  next
    case (Begin_Delivery n)
    then show ?thesis using assms(1) by (auto simp: camera_quiet_def delivery_begin_def Let_def split: option.splits if_splits)
  next
    case (End_Delivery j img now)
    show ?thesis
    proof (cases "j < length (cam_inflight s)")
      case True
      obtain n cb k where at: "cam_inflight s ! j = (n, cb, k)" by (cases "cam_inflight s ! j") auto
      then have "n < length (cap_delegates (cam_dev s))"
        using assms(1) True by (auto simp: camera_quiet_def list_all_length)
      then have cb: "callbacks_ok (snd (delivery_end sink n k img now (cam_dev s)))"
        using same_session_ok [OF delivery_end_session] assms(1) by (simp add: camera_quiet_def)
      have "snd (camera_step sink p s) = s\<lparr>cam_dev := snd (delivery_end sink n k img now (cam_dev s)),
          cam_inflight := take j (cam_inflight s) @ drop (Suc j) (cam_inflight s)\<rparr>"
        using End_Delivery True at by (simp add: split_beta)
      then show ?thesis using cb assms(1) list_all_take_drop [of _ "cam_inflight s" j "Suc j"]
        unfolding camera_quiet_def by (simp add: delegates_length del: list_all_append)
    qed (use End_Delivery assms(1) in simp)
  qed (use assms(1) same_session_ok [OF same_session_others(1)] same_session_ok [OF same_session_others(2)] in
      \<open>auto simp: camera_quiet_def delegates_length stop_callbacks close_callbacks\<close>)
qed

lemma camera_run_quiet: "camera_quiet s \<Longrightarrow> list_all starts_well ps \<Longrightarrow> camera_quiet (snd (camera_run sink ps s))"
proof (induction ps arbitrary: s)
  case (Cons p ps)
  then show ?case using camera_step_quiet [of s p sink] by (simp add: split_beta Let_def)
qed simp

lemma camera_run_append: "camera_run sink (ps @ qs) s =
    (let (es, s) = camera_run sink ps s; (fs, s) = camera_run sink qs s in (es @ fs, s))"
  by (induction ps arbitrary: s) (simp_all add: Let_def split_beta)

definition no_callbacks :: "mac_capture \<Rightarrow> bool" where
  "no_callbacks c \<longleftrightarrow> set (map dg_cb (cap_delegates c)) \<subseteq> {None}"

lemma no_callbacks_same: "same_session c c' \<Longrightarrow> no_callbacks c \<Longrightarrow> no_callbacks c'"
  by (simp add: same_session_def no_callbacks_def)

lemma no_callbacks_stop: "no_callbacks c \<Longrightarrow> no_callbacks (snd (cap_stop c))" "no_callbacks c \<Longrightarrow> no_callbacks (cap_close c)"
proof -
  have "set (map dg_cb (clear_cb n ds)) \<subseteq> insert None (set (map dg_cb ds))" for n ds
    using set_update_subset_insert [of ds n] by (force simp: clear_cb_def)
  then show "no_callbacks c \<Longrightarrow> no_callbacks (snd (cap_stop c))" "no_callbacks c \<Longrightarrow> no_callbacks (cap_close c)"
    by (force simp: no_callbacks_def cap_stop_def cap_close_def Let_def split: option.splits)+
qed

lemma stopped_no_callbacks: "callbacks_ok c \<Longrightarrow> no_callbacks (snd (cap_stop c))"
proof -
  assume "callbacks_ok c"
  then have "callbacks_ok (snd (cap_stop c))" "\<not> cap_capturing (snd (cap_stop c))"
    by (simp_all add: stop_callbacks) (simp add: cap_stop_def)
  then show ?thesis by (auto simp: callbacks_ok_def no_callbacks_def set_conv_nth)
qed

definition deliveries_known :: "camera \<Rightarrow> bool" where
  "deliveries_known s \<longleftrightarrow> list_all (\<lambda>(n, cb, k). n < length (cap_delegates (cam_dev s))) (cam_inflight s)"

lemma begin_none: "no_callbacks c \<Longrightarrow> delivery_begin n c = None"
proof -
  assume no: "no_callbacks c"
  have "dg_cb (cap_delegates c ! n) = None" if "n < length (cap_delegates c)"
    using no nth_mem [OF that] by (auto simp: no_callbacks_def)
  then show ?thesis by (simp add: delivery_begin_def Let_def)
qed

lemma step_silent:
  assumes "no_callbacks (cam_dev s)" "deliveries_known s" "no_start p" "camera_step sink p s = (es, s')"
  shows "no_callbacks (cam_dev s') \<and> deliveries_known s' \<and> length es + length (cam_inflight s') \<le> length (cam_inflight s) \<and>
    set (cam_inflight s') \<subseteq> set (cam_inflight s) \<and> fst ` set es \<subseteq> fst ` snd ` set (cam_inflight s)"
proof (cases p)
  case (End_Delivery j img now)
  show ?thesis
  proof (cases "j < length (cam_inflight s)")
    case True
    obtain n cb k where at: "cam_inflight s ! j = (n, cb, k)" by (cases "cam_inflight s ! j") auto
    let ?r = "delivery_end sink n k img now (cam_dev s)"
    have n: "n < length (cap_delegates (cam_dev s))"
      using assms(2) True at by (auto simp: deliveries_known_def list_all_length)
    have s': "s' = s\<lparr>cam_dev := snd ?r, cam_inflight := take j (cam_inflight s) @ drop (Suc j) (cam_inflight s)\<rparr>"
      "es = (case fst ?r of None \<Rightarrow> [] | Some f \<Rightarrow> [(cb, f)])"
      using assms(4) End_Delivery True at by (simp_all add: split_beta fst_conv cong: option.case_cong)
    have "length es \<le> 1" "fst ` set es \<subseteq> {cb}" by (auto simp: s'(2) split: option.splits)
    moreover have "cb \<in> fst ` snd ` set (cam_inflight s)" using nth_mem [OF True] at by force
    moreover have "set (take j (cam_inflight s) @ drop (Suc j) (cam_inflight s)) \<subseteq> set (cam_inflight s)"
      using set_take_subset set_drop_subset by fastforce
    moreover have "no_callbacks (snd ?r)" by (rule no_callbacks_same [OF delivery_end_session [OF n] assms(1)])
    moreover have "deliveries_known s'"
      using assms(2) list_all_take_drop [of _ "cam_inflight s" j "Suc j"]
      unfolding deliveries_known_def s' by (simp add: delegates_length del: list_all_append)
    ultimately show ?thesis using True by (auto simp: s'(1))
  qed (use End_Delivery assms in simp)
next
  case (Begin_Delivery n)
  then show ?thesis using assms begin_none [OF assms(1)] by simp
qed (use assms no_callbacks_same [OF same_session_others(1)] no_callbacks_same [OF same_session_others(2)] no_callbacks_stop in
    \<open>auto simp: deliveries_known_def delegates_length no_start_def\<close>)

lemma run_silent:
  "no_callbacks (cam_dev s) \<Longrightarrow> deliveries_known s \<Longrightarrow> list_all no_start qs \<Longrightarrow> camera_run sink qs s = (es, s') \<Longrightarrow>
   length es + length (cam_inflight s') \<le> length (cam_inflight s) \<and> fst ` set es \<subseteq> fst ` snd ` set (cam_inflight s)"
proof (induction qs arbitrary: s es)
  case (Cons q qs)
  obtain fs t where st: "camera_step sink q s = (fs, t)" by force
  obtain gs where run: "camera_run sink qs t = (gs, s')" "es = fs @ gs" using Cons.prems(4) st by (auto split: prod.splits)
  have "no_start q" using Cons.prems(3) by simp
  note one = step_silent [OF Cons.prems(1,2) this st]
  have two: "length gs + length (cam_inflight s') \<le> length (cam_inflight t)" "fst ` set gs \<subseteq> fst ` snd ` set (cam_inflight t)"
    using Cons.IH [OF _ _ _ run(1)] one Cons.prems(3) by simp_all
  moreover have "fst ` snd ` set (cam_inflight t) \<subseteq> fst ` snd ` set (cam_inflight s)" using one by (intro image_mono) blast
  ultimately show ?case using one run(2) by (simp add: image_Un)
qed simp

text \<open>C27. Once \<open>stop\<close> has returned no delivery begins, whatever AVFoundation still calls: in any
  run in which every start that was tried has succeeded, after a stop (and until the next start) the callback
  is called at most once for each delivery that was already past its copy of the callback at the
  stop, with the callback that delivery had copied; without such a delivery it is not called at all.\<close>

theorem camera_silent_after_stop:
  assumes "list_all starts_well ps" "list_all no_start qs"
    "s = snd (camera_run sink (ps @ [Stop_Camera]) new_camera)" "camera_run sink qs s = (es, s')"
  shows "length es + length (cam_inflight s') \<le> length (cam_inflight s) \<and>
    fst ` set es \<subseteq> fst ` snd ` set (cam_inflight s) \<and> \<not> cap_capturing (cam_dev s)"
proof -
  let ?t = "snd (camera_run sink ps new_camera)"
  have q: "camera_quiet ?t"
    by (rule camera_run_quiet [OF _ assms(1)]) (simp add: camera_quiet_def new_camera_def callbacks_ok_def new_mac_capture_def)
  have s: "s = ?t\<lparr>cam_dev := snd (cap_stop (cam_dev ?t))\<rparr>"
    using assms(3) by (simp add: camera_run_append split_beta Let_def)
  have "no_callbacks (cam_dev s)" using q stopped_no_callbacks by (simp add: s camera_quiet_def)
  moreover have "deliveries_known s" using q by (simp add: s camera_quiet_def deliveries_known_def delegates_length)
  moreover have "\<not> cap_capturing (cam_dev s)" by (simp add: s cap_stop_def)
  ultimately show ?thesis using run_silent [OF _ _ assms(2,4)] by blast
qed

definition demo_av :: av_system where
  "demo_av = \<lparr>av_cameras = [(Some ''0x1'', Some ''FaceTime'')], av_deviceWithID = (\<lambda>i. if i = ''0x1'' then Some 0 else None),
     av_defaultDevice = Some 0, av_inputFor = (\<lambda>d. True), av_canAddInput = True, av_available = [BGRA32],
     av_canAddOutput = True, av_canSetPreset = (\<lambda>p. True)\<rparr>"

definition demo_camera_session :: "camera_op list" where
  "demo_camera_session = [Open_Camera demo_av \<lparr>cdi_id = [], cdi_displayName = []\<rparr> new_video_format, Start_Camera True True, Begin_Delivery 0]"

lemma camera_silent_after_stop_witness:
  "length (cam_inflight (snd (camera_run (\<lambda>f h. h) (demo_camera_session @ [Stop_Camera]) new_camera))) = 1 \<and>
   length (fst (camera_run (\<lambda>f h. h) [Begin_Delivery 0, End_Delivery 0 None 5, Begin_Delivery 0]
     (snd (camera_run (\<lambda>f h. h) (demo_camera_session @ [Stop_Camera]) new_camera)))) \<le> 1"
proof -
  define s where "s = snd (camera_run (\<lambda>f h. h) (demo_camera_session @ [Stop_Camera]) new_camera)"
  have one: "length (cam_inflight s) = 1"
    by (simp add: s_def demo_camera_session_def new_camera_def cap_open_def demo_av_def find_camera_def new_mac_capture_def cap_start_def delivery_begin_def Let_def)
  have ok: "list_all starts_well demo_camera_session" "list_all no_start [Begin_Delivery 0, End_Delivery 0 None 5, Begin_Delivery 0]"
    by (simp_all add: demo_camera_session_def starts_well_def no_start_def)
  obtain es t where run: "camera_run (\<lambda>f h. h) [Begin_Delivery 0, End_Delivery 0 None 5, Begin_Delivery 0] s = (es, t)" by force
  have "length es \<le> 1" using camera_silent_after_stop [OF ok s_def run] one by simp
  then show ?thesis unfolding s_def [symmetric] run fst_conv using one by blast
qed

section \<open>What a frame holds\<close>

definition luma_of :: "pixel_image \<Rightarrow> nat \<Rightarrow> nat \<Rightarrow> u8" where
  "luma_of im y x = (let p = y * im_stride0 im in
     if im_format im = BGRA32 then bgra_y (im_plane0 im ! (p + 4 * x)) (im_plane0 im ! (p + 4 * x + 1)) (im_plane0 im ! (p + 4 * x + 2))
     else im_plane0 im ! (p + x))"

definition blue_of :: "pixel_image \<Rightarrow> nat \<Rightarrow> nat \<Rightarrow> u8" where
  "blue_of im y x = (if im_format im = BGRA32 then let p = 2 * y * im_stride0 im in
       bgra_u (im_plane0 im ! (p + 8 * x)) (im_plane0 im ! (p + 8 * x + 1)) (im_plane0 im ! (p + 8 * x + 2))
     else im_plane1 im ! (y * im_stride1 im + 2 * x))"

definition red_of :: "pixel_image \<Rightarrow> nat \<Rightarrow> nat \<Rightarrow> u8" where
  "red_of im y x = (if im_format im = BGRA32 then let p = 2 * y * im_stride0 im in
       bgra_v (im_plane0 im ! (p + 8 * x)) (im_plane0 im ! (p + 8 * x + 1)) (im_plane0 im ! (p + 8 * x + 2))
     else im_plane1 im ! (y * im_stride1 im + 2 * x + 1))"

definition i420_image :: "pixel_image \<Rightarrow> bytes" where
  "i420_image im = (let w = nat (im_width im); h = nat (im_height im) in
     pixels w h (luma_of im) @ pixels (chromaWidth w) (chromaHeight h) (blue_of im) @ pixels (chromaWidth w) (chromaHeight h) (red_of im))"

definition known_format :: "os_type \<Rightarrow> bool" where
  "known_format t \<longleftrightarrow> t = NV12VideoRange \<or> t = NV12FullRange \<or> t = BGRA32"

lemma length_i420_image: "length (i420_image im) = i420_bytes (nat (im_width im)) (nat (im_height im))"
  by (simp add: i420_image_def i420_bytes_def Let_def mult.commute)

lemma convert_image_exact:
  assumes "i420_bytes (nat (im_width im)) (nat (im_height im)) \<le> length dst"
  shows "convert_image im dst = (if known_format (im_format im)
    then Some (i420_image im @ drop (i420_bytes (nat (im_width im)) (nat (im_height im))) dst) else None)"
proof -
  have bgra: "im_format im = BGRA32 \<Longrightarrow> luma_of im = (\<lambda>y x. bgra_y (im_plane0 im ! (y * im_stride0 im + 4 * x)) (im_plane0 im ! (y * im_stride0 im + 4 * x + 1)) (im_plane0 im ! (y * im_stride0 im + 4 * x + 2)))"
    "im_format im = BGRA32 \<Longrightarrow> blue_of im = (\<lambda>y x. bgra_u (im_plane0 im ! (2 * y * im_stride0 im + 8 * x)) (im_plane0 im ! (2 * y * im_stride0 im + 8 * x + 1)) (im_plane0 im ! (2 * y * im_stride0 im + 8 * x + 2)))"
    "im_format im = BGRA32 \<Longrightarrow> red_of im = (\<lambda>y x. bgra_v (im_plane0 im ! (2 * y * im_stride0 im + 8 * x)) (im_plane0 im ! (2 * y * im_stride0 im + 8 * x + 1)) (im_plane0 im ! (2 * y * im_stride0 im + 8 * x + 2)))"
    by (simp_all add: luma_of_def blue_of_def red_of_def Let_def fun_eq_iff)
  have nv12: "im_format im \<noteq> BGRA32 \<Longrightarrow> luma_of im = (\<lambda>y x. im_plane0 im ! (y * im_stride0 im + x))"
    "im_format im \<noteq> BGRA32 \<Longrightarrow> blue_of im = (\<lambda>y x. im_plane1 im ! (y * im_stride1 im + 2 * x))"
    "im_format im \<noteq> BGRA32 \<Longrightarrow> red_of im = (\<lambda>y x. im_plane1 im ! (y * im_stride1 im + 2 * x + 1))"
    by (simp_all add: luma_of_def blue_of_def red_of_def Let_def fun_eq_iff)
  show ?thesis
  proof (cases "im_format im = BGRA32")
    case True
    then show ?thesis unfolding convert_image_def i420_image_def Let_def
      by (simp add: known_format_def bgra bgra_planes [OF assms])
  next
    case False
    then show ?thesis unfolding convert_image_def i420_image_def Let_def
      by (simp add: known_format_def nv12 nv12_planes [OF assms])
  qed
qed

definition storage_ok :: "pool_heap \<times> bytes \<Rightarrow> bool" where
  "storage_ok st \<longleftrightarrow> (\<exists>sz. pool_ok sz kCapturePoolDepth (fst st) \<and> length (snd st) = sz * kCapturePoolDepth)"

text \<open>A callback copies and drops pointers to frames; it does not touch the pool otherwise.\<close>

definition keeps_pool :: "(video_frame \<Rightarrow> pool_heap \<Rightarrow> pool_heap) \<Rightarrow> bool" where
  "keeps_pool sink \<longleftrightarrow> (\<forall>f h sz n. pool_ok sz n h \<longrightarrow> pool_ok sz n (sink f h))"

definition storages_ok :: "mac_capture \<Rightarrow> bool" where
  "storages_ok c \<longleftrightarrow> list_all storage_ok (cap_pools c)"

lemma storage_ok_new: "storage_ok (new_pool_heap sz kCapturePoolDepth, replicate (sz * kCapturePoolDepth) 0)"
  unfolding storage_ok_def by (intro exI [of _ sz]) (simp add: pool_ok_new)

lemma i420_size_bytes:
  assumes "0 < w" "w < 2 ^ 31 - 1" "0 < h" "h < 2 ^ 31 - 1"
  shows "unat (i420Size w h) = i420_bytes (nat w) (nat h)"
proof -
  have "nat ((w + 1) div 2) = chromaWidth (nat w)" "nat ((h + 1) div 2) = chromaHeight (nat h)"
    using assms by (simp_all add: chromaWidth_def chromaHeight_def nat_div_distrib nat_add_distrib)
  then show ?thesis using i420_parts(3) [OF assms] assms by (simp add: i420_bytes_def nat_mult_distrib)
qed

text \<open>One delivery, from the image to the storage.\<close>

lemma delivery_frame:
  assumes "storage_ok (hp, mem)" "acquire_ptr hp = (Some (a, b), hp')" "im_width im < 2 ^ 31 - 1" "im_height im < 2 ^ 31 - 1"
    "vf_valid (makeI420 (Some (a, b)) (im_width im) (im_height im) now)" "n = i420_bytes (nat (im_width im)) (nat (im_height im))"
  shows "plane_base (makeI420 (Some (a, b)) (im_width im) (im_height im) now) 0 = pb_data b"
    "n \<le> pb_capacity b" "pb_data b + n \<le> length mem"
    "convert_image im (drop (pb_data b) mem) =
      (if known_format (im_format im) then Some (i420_image im @ drop (pb_data b + n) mem) else None)"
proof -
  let ?f = "makeI420 (Some (a, b)) (im_width im) (im_height im) now"
  note planes = makeI420_planes [OF assms(3,4) refl refl refl, of a b now]
  have pos: "0 < im_width im" "0 < im_height im" and cap: "unat (i420Size (im_width im) (im_height im)) \<le> pb_capacity b"
    using planes [THEN conjunct1] assms(5) by blast+
  have "pl_data (vf_planes ?f ! 0) = Some (pb_data b)"
    using planes [THEN conjunct2] assms(5) by (auto simp: map_eq_Cons_conv)
  then show "plane_base ?f 0 = pb_data b" by (simp add: plane_base_def)
  have "unat (i420Size (im_width im) (im_height im)) = n"
    using i420_size_bytes [OF pos(1) assms(3) pos(2) assms(4)] assms(6) by simp
  then show n: "n \<le> pb_capacity b" using cap by simp
  obtain sz where sz: "pool_ok sz kCapturePoolDepth hp" "length mem = sz * kCapturePoolDepth" using assms(1) by (auto simp: storage_ok_def)
  have "pb_data b + pb_capacity b \<le> length mem"
    using acquire_fresh(3,4) [OF sz(1) assms(2)] sz(2) by (simp add: buffer_at_def mult.commute)
  then show fits: "pb_data b + n \<le> length mem" using n by simp
  then have "n \<le> length (drop (pb_data b) mem)" by simp
  then show "convert_image im (drop (pb_data b) mem) =
      (if known_format (im_format im) then Some (i420_image im @ drop (pb_data b + n) mem) else None)"
    using convert_image_exact [of im "drop (pb_data b) mem"] assms(6) by (simp add: add.commute)
qed

lemma delivery_end_storage:
  assumes "storages_ok c" "k < length (cap_pools c)" "keeps_pool sink"
    "\<And>im. img = Some im \<Longrightarrow> im_width im < 2 ^ 31 - 1 \<and> im_height im < 2 ^ 31 - 1"
  shows "storages_ok (snd (delivery_end sink n k img now c))"
proof (cases img)
  case None
  then show ?thesis using assms(1) by (simp add: delivery_end_def)
next
  case (Some im)
  obtain hp mem where k: "cap_pools c ! k = (hp, mem)" by force
  have st: "storage_ok (hp, mem)" using assms(1,2) k by (metis list_all_length storages_ok_def)
  obtain sz where sz: "pool_ok sz kCapturePoolDepth hp" "length mem = sz * kCapturePoolDepth" using st by (auto simp: storage_ok_def)
  have upd: "storages_ok (c\<lparr>cap_pools := (cap_pools c)[k := (h, m)]\<rparr>)" if "pool_ok sz kCapturePoolDepth h" "length m = length mem" for h m
    using that assms(1) sz(2) by (auto simp: storages_ok_def list_all_iff storage_ok_def dest!: set_update_subset_insert [THEN subsetD])
  have upd': "storages_ok (c\<lparr>cap_delegates := ds, cap_pools := (cap_pools c)[k := (h, m)]\<rparr>)"
    if "pool_ok sz kCapturePoolDepth h" "length m = length mem" for ds h m
    using upd [OF that] by (simp add: storages_ok_def)
  obtain p hp' where acq: "acquire_ptr hp = (p, hp')" by force
  have ok': "pool_ok sz kCapturePoolDepth hp'" using acquire_ptr_ok [OF sz(1)] acq by simp
  show ?thesis
  proof (cases p)
    case None
    then show ?thesis using Some k acq upd [OF ok'] assms(1) by (simp add: delivery_end_def Let_def)
  next
    case (Some ab)
    obtain a b where ab: "p = Some (a, b)" using Some by (cases ab) auto
    let ?f = "makeI420 (Some (a, b)) (im_width im) (im_height im) now"
    have free: "pool_ok sz kCapturePoolDepth (drop_ptr a (drop_frame buf g))" if "pool_ok sz kCapturePoolDepth g" for buf g
      using that drop_ptr_ok drop_frame_ok by blast
    show ?thesis
    proof (cases "vf_valid ?f")
      case False
      then show ?thesis using \<open>img = Some im\<close> k acq ab upd [OF drop_ptr_ok [OF ok']] assms(1) by (simp add: delivery_end_def Let_def)
    next
      case True
      note d = delivery_frame [OF st acq [unfolded ab] _ _ True refl]
      have sides: "im_width im < 2 ^ 31 - 1" "im_height im < 2 ^ 31 - 1" using assms(4) \<open>img = Some im\<close> by auto
      have sink: "pool_ok sz kCapturePoolDepth (sink g (copy_ptr a hp'))" for g
        using assms(3) ok' copy_ptr_ok by (auto simp: keeps_pool_def)
      have len: "length (take (pb_data b) mem @ i420_image im @ drop (pb_data b + i420_bytes (nat (im_width im)) (nat (im_height im))) mem) = length mem"
        using d(3) [OF sides] by (simp add: length_i420_image)
      show ?thesis
        using \<open>img = Some im\<close> k acq ab True assms(1) d(1,4) [OF sides] upd' [OF free [OF copy_ptr_ok [OF ok']]] upd' [OF free [OF sink] len]
        by (simp add: delivery_end_def Let_def plane_base_def)
    qed
  qed
qed

section \<open>Every frame of a run\<close>

lemma pok_length: "pool_ok sz n h \<Longrightarrow> length (live_buffers h) \<le> n"
  using pool_ok_slots(3) [of sz n h] by simp

definition camera_ok :: "camera \<Rightarrow> bool" where
  "camera_ok s \<longleftrightarrow> storages_ok (cam_dev s) \<and>
     set (map dg_pool (cap_delegates (cam_dev s))) \<subseteq> {..<length (cap_pools (cam_dev s))} \<and>
     (cap_opened (cam_dev s) \<longrightarrow> (\<exists>k. cap_pool (cam_dev s) = Some k \<and> k < length (cap_pools (cam_dev s)))) \<and>
     list_all (\<lambda>(n, cb, k). n < length (cap_delegates (cam_dev s)) \<and> k < length (cap_pools (cam_dev s))) (cam_inflight s)"

definition image_fits :: "camera_op \<Rightarrow> bool" where
  "image_fits p \<longleftrightarrow> (case p of End_Delivery j (Some im) now \<Rightarrow> im_width im < 2 ^ 31 - 1 \<and> im_height im < 2 ^ 31 - 1 | _ \<Rightarrow> True)"

lemma on_pool_storages:
  assumes "storages_ok c" "\<And>sz n h. pool_ok sz n h \<Longrightarrow> pool_ok sz n (g h)" shows "storages_ok (on_pool k g c)"
proof (cases "k < length (cap_pools c)")
  case True
  obtain hp mem where k: "cap_pools c ! k = (hp, mem)" by force
  have "storage_ok (hp, mem)" using assms(1) True k by (metis list_all_length storages_ok_def)
  then have "storage_ok (g hp, mem)" using assms(2) by (auto simp: storage_ok_def)
  then show ?thesis using assms(1) k
    by (auto simp: storages_ok_def on_pool_def list_all_iff dest!: set_update_subset_insert [THEN subsetD])
qed (use assms(1) in \<open>simp add: on_pool_def storages_ok_def list_update_beyond\<close>)

lemma pools_length:
  "length (cap_pools c) \<le> length (cap_pools (snd (cap_open av i f c)))"
  "length (cap_pools (snd (cap_start running cb c))) = length (cap_pools c)"
  "length (cap_pools (snd (cap_stop c))) = length (cap_pools c)"
  "length (cap_pools (cap_close c)) = length (cap_pools c)"
  "length (cap_pools (snd (delivery_end sink n k img now c))) = length (cap_pools c)"
  "length (cap_pools (on_pool k g c)) = length (cap_pools c)"
  by (auto simp: cap_open_def cap_start_def cap_stop_def cap_close_def delivery_end_def on_pool_def Let_def
      split: option.splits prod.splits)

lemma open_ok: "camera_ok s \<Longrightarrow> camera_ok (s\<lparr>cam_dev := snd (cap_open av i f (cam_dev s))\<rparr>)"
  using storage_ok_new by (auto simp: camera_ok_def cap_open_def storages_ok_def Let_def list_all_iff less_Suc_eq split: option.splits)

lemma start_ok: "camera_ok s \<Longrightarrow> camera_ok (s\<lparr>cam_dev := snd (cap_start running cb (cam_dev s))\<rparr>)"
  by (auto simp: camera_ok_def cap_start_def storages_ok_def Let_def list_all_iff less_Suc_eq)

lemma dg_pool_update:
  "map dg_pool (clear_cb n ds) = map dg_pool ds"
  "map dg_pool (ds[n := (ds ! n)\<lparr>dg_rtpEpoch := e\<rparr>]) = map dg_pool ds"
  by (cases "n < length ds"; simp add: clear_cb_def map_update list_update_same_conv list_update_beyond)+

lemma same_pools:
  "map dg_pool (cap_delegates (snd (cap_stop c))) = map dg_pool (cap_delegates c)"
  "map dg_pool (cap_delegates (cap_close c)) = map dg_pool (cap_delegates c)"
  "map dg_pool (cap_delegates (snd (delivery_end sink n k img now c))) = map dg_pool (cap_delegates c)"
  "cap_pools (snd (cap_stop c)) = cap_pools c" "cap_pools (cap_close c) = cap_pools c"
  "cap_pool (snd (cap_stop c)) = cap_pool c" "cap_pool (snd (delivery_end sink n k img now c)) = cap_pool c"
  "cap_opened (snd (cap_stop c)) = cap_opened c" "cap_opened (snd (delivery_end sink n k img now c)) = cap_opened c"
  "\<not> cap_opened (cap_close c)"
  by (auto simp: cap_stop_def cap_close_def delivery_end_def Let_def dg_pool_update split: option.splits prod.splits)

lemma end_ok:
  assumes "camera_ok s" "keeps_pool sink" "image_fits (End_Delivery j img now)"
  shows "camera_ok (snd (camera_step sink (End_Delivery j img now) s))"
proof (cases "j < length (cam_inflight s)")
  case True
  obtain n cb k where at: "cam_inflight s ! j = (n, cb, k)" by (cases "cam_inflight s ! j") auto
  let ?r = "delivery_end sink n k img now (cam_dev s)"
  have k: "k < length (cap_pools (cam_dev s))"
    using assms(1) True at by (auto simp: camera_ok_def list_all_length)
  have "storages_ok (snd ?r)"
    using assms by (intro delivery_end_storage) (auto simp: camera_ok_def image_fits_def k split: option.splits)
  moreover have "snd (camera_step sink (End_Delivery j img now) s) = s\<lparr>cam_dev := snd ?r,
      cam_inflight := take j (cam_inflight s) @ drop (Suc j) (cam_inflight s)\<rparr>"
    using True at by (simp add: split_beta)
  ultimately show ?thesis
    using assms(1) list_all_take_drop [of _ "cam_inflight s" j "Suc j"]
    by (simp add: camera_ok_def same_pools pools_length delegates_length del: list_all_append set_map)
qed (use assms(1) in simp)

lemma camera_step_ok:
  assumes "camera_ok s" "keeps_pool sink" "image_fits p" shows "camera_ok (snd (camera_step sink p s))"
proof (cases p)
  case (End_Delivery j img now)
  then show ?thesis using end_ok assms by simp
next
  case (Begin_Delivery n)
  have "dg_pool (cap_delegates (cam_dev s) ! n) < length (cap_pools (cam_dev s))" if "n < length (cap_delegates (cam_dev s))"
    using assms(1) nth_mem [OF that] by (auto simp: camera_ok_def)
  then show ?thesis using Begin_Delivery assms(1)
    by (auto simp: camera_ok_def delivery_begin_def Let_def split: option.splits)
next
  case (Copy_Frame k a)
  then show ?thesis using assms(1) on_pool_storages [of "cam_dev s" "copy_ptr a" k] copy_ptr_ok
    by (simp add: camera_ok_def pools_length del: set_map) (simp add: on_pool_def)
next
  case (Drop_Frame k a)
  then show ?thesis using assms(1) on_pool_storages [of "cam_dev s" "drop_ptr a" k] drop_ptr_ok
    by (simp add: camera_ok_def pools_length del: set_map) (simp add: on_pool_def)
qed (use assms(1) in \<open>simp_all add: open_ok start_ok, simp_all add: camera_ok_def storages_ok_def same_pools delegates_length del: set_map\<close>)

lemma camera_run_ok: "camera_ok s \<Longrightarrow> keeps_pool sink \<Longrightarrow> list_all image_fits ps \<Longrightarrow> camera_ok (snd (camera_run sink ps s))"
proof (induction ps arbitrary: s)
  case (Cons p ps)
  then show ?case using camera_step_ok [of s sink p] by (simp add: split_beta Let_def)
qed simp

lemma cut_other:
  assumes "buffer_at sz b" "buffer_at sz b'" "disjoint_buffers b b'" "length xs \<le> sz" "pb_data b + length xs \<le> length mem"
  shows "cut (pb_data b') (pb_data b' + pb_capacity b') (take (pb_data b) mem @ xs @ drop (pb_data b + length xs) mem) =
    cut (pb_data b') (pb_data b' + pb_capacity b') mem"
proof (rule cut_outside [of _ _ "pb_data b" "length xs"])
  show "pb_data b' + pb_capacity b' \<le> pb_data b \<or> pb_data b + length xs \<le> pb_data b'"
    using assms(1-4) by (auto simp: disjoint_buffers_def buffer_at_def)
qed (use assms(5) in \<open>auto simp: nth_append\<close>)

text \<open>C15. Every camera image that can become a frame becomes exactly that frame: in any run (opening,
  starting, stopping, closing, callbacks that keep and drop frames, deliveries in any order), a delivery calls
  its callback exactly when the image is not empty, of a known format, small enough for the buffers, and one of the eight
  buffers is free. The frame then has the size of the image, the clock reading and the RTP timestamp counted from the
  first frame of its session; its buffer holds the I420 picture of the image (its own bytes or the BT.601
  values of its pixels), nothing else in the storage changes, and no frame that is still held is touched.\<close>

theorem camera_frames_exact:
  assumes "keeps_pool sink" "list_all image_fits ps" "s = snd (camera_run sink ps new_camera)"
    "j < length (cam_inflight s)" "cam_inflight s ! j = (n, cb, k)" "cap_pools (cam_dev s) ! k = (hp, mem)"
    "image_fits (End_Delivery j (Some im) now)" "camera_step sink (End_Delivery j (Some im) now) s = (es, s')"
    "sz = i420_bytes (nat (im_width im)) (nat (im_height im))"
    "epoch = (case dg_rtpEpoch (cap_delegates (cam_dev s) ! n) of Some t \<Rightarrow> t | None \<Rightarrow> now)"
  shows "if 0 < im_width im \<and> 0 < im_height im \<and> known_format (im_format im) \<and> sz \<le> fp_bufferSize (ph_pool hp) \<and>
      length (live_buffers hp) < kCapturePoolDepth
    then \<exists>f a b. es = [(cb, f)] \<and> vf_valid f \<and> vf_format f = I420 \<and> vf_width f = im_width im \<and> vf_height f = im_height im \<and>
      vf_captureTime f = now \<and> vf_rtpTimestamp f = toRtp now epoch kVideoRtpClockHz \<and>
      dg_rtpEpoch (cap_delegates (cam_dev s') ! n) = Some epoch \<and> vf_buffer f = Some (a, b) \<and> pb_data b + sz \<le> length mem \<and>
      snd (cap_pools (cam_dev s') ! k) = take (pb_data b) mem @ i420_image im @ drop (pb_data b + sz) mem \<and>
      list_all (\<lambda>b'. cut (pb_data b') (pb_data b' + pb_capacity b') (snd (cap_pools (cam_dev s') ! k)) =
        cut (pb_data b') (pb_data b' + pb_capacity b') mem) (live_buffers hp)
    else es = [] \<and> snd (cap_pools (cam_dev s') ! k) = mem"
proof -
  have "camera_ok new_camera" by (simp add: camera_ok_def new_camera_def new_mac_capture_def storages_ok_def)
  then have ok: "camera_ok s" using camera_run_ok [OF _ assms(1,2)] assms(3) by blast
  have nk: "n < length (cap_delegates (cam_dev s))" "k < length (cap_pools (cam_dev s))"
    using ok assms(4,5) by (auto simp: camera_ok_def list_all_length)
  have st: "storage_ok (hp, mem)" using ok nk(2) assms(6) by (metis camera_ok_def list_all_length storages_ok_def)
  then obtain bs where pok: "pool_ok bs kCapturePoolDepth hp" "length mem = bs * kCapturePoolDepth" by (auto simp: storage_ok_def)
  have bs: "fp_bufferSize (ph_pool hp) = bs" using pok(1) by (simp add: pool_ok_def)
  let ?r = "delivery_end sink n k (Some im) now (cam_dev s)"
  have es: "es = (case fst ?r of None \<Rightarrow> [] | Some f \<Rightarrow> [(cb, f)])" "cam_dev s' = snd ?r"
    using assms(4,5,8) by (auto simp: split_beta split: option.splits)
  have sides: "im_width im < 2 ^ 31 - 1" "im_height im < 2 ^ 31 - 1" using assms(7) by (simp_all add: image_fits_def)
  consider (empty) "im_width im \<le> 0 \<or> im_height im \<le> 0"
    | (full) hp' where "0 < im_width im" "0 < im_height im" "acquire_ptr hp = (None, hp')"
    | (got) a b hp' where "0 < im_width im" "0 < im_height im" "acquire_ptr hp = (Some (a, b), hp')"
    by (metis not_le option.exhaust surj_pair)
  then show ?thesis
  proof cases
    case empty
    then have "?r = (None, cam_dev s)" by (auto simp: delivery_end_def Let_def assms(6))
    then show ?thesis using empty es assms(6) by auto
  next
    case full
    then have "?r = (None, (cam_dev s)\<lparr>cap_pools := (cap_pools (cam_dev s))[k := (hp', mem)]\<rparr>)"
      by (simp add: delivery_end_def Let_def assms(6))
    moreover have "length (live_buffers hp) = kCapturePoolDepth" using acquire_none_iff [OF pok(1)] full by simp
    ultimately show ?thesis using es nk(2) by simp
  next
    case got
    let ?f = "makeI420 (Some (a, b)) (im_width im) (im_height im) now"
    note fresh = acquire_fresh [OF pok(1) got(3)]
    have room: "length (live_buffers hp) < kCapturePoolDepth"
      using acquire_none_iff [OF pok(1)] pok_length [OF pok(1)] got(3) by (metis fst_conv le_neq_implies_less option.distinct(1))
    have cap: "pb_capacity b = bs" using fresh(3) by (simp add: buffer_at_def)
    note layout = makeI420_planes [OF sides refl refl refl, of a b now]
    have valid: "vf_valid ?f \<longleftrightarrow> sz \<le> bs"
      using layout [THEN conjunct1] i420_size_bytes [OF got(1) sides(1) got(2) sides(2)] got assms(9) cap by simp
    show ?thesis
    proof (cases "vf_valid ?f")
      case False
      then have "?r = (None, (cam_dev s)\<lparr>cap_pools := (cap_pools (cam_dev s))[k := (drop_ptr a hp', mem)]\<rparr>)"
        using got by (simp add: delivery_end_def Let_def assms(6))
      then show ?thesis using es nk(2) False valid bs by simp
    next
      case True
      note d = delivery_frame [OF st got(3) sides True assms(9)]
      have f: "vf_format ?f = I420" "vf_width ?f = im_width im" "vf_height ?f = im_height im" "vf_captureTime ?f = now" "vf_buffer ?f = Some (a, b)"
        using True by (auto simp: makeI420_def vf_valid_def new_video_frame_def Let_def split: if_splits)
      show ?thesis
      proof (cases "known_format (im_format im)")
        case False
        then show ?thesis using got True es nk d(1,4) by (auto simp: delivery_end_def Let_def assms(6) plane_base_def)
      next
        case known: True
        let ?g = "?f\<lparr>vf_rtpTimestamp := toRtp now epoch kVideoRtpClockHz\<rparr>"
        have r: "fst ?r = Some ?g" "snd (cap_pools (snd ?r) ! k) = take (pb_data b) mem @ i420_image im @ drop (pb_data b + sz) mem"
          "dg_rtpEpoch (cap_delegates (snd ?r) ! n) = Some epoch"
          using got True nk d(1,4) known by (simp_all add: delivery_end_def Let_def assms(6,10) plane_base_def)
        have "list_all (\<lambda>b'. cut (pb_data b') (pb_data b' + pb_capacity b') (snd (cap_pools (snd ?r) ! k)) =
            cut (pb_data b') (pb_data b' + pb_capacity b') mem) (live_buffers hp)"
          unfolding r(2) list_all_iff
        proof
          fix b' assume b': "b' \<in> set (live_buffers hp)"
          have "buffer_at bs b'" "disjoint_buffers b b'" using pok(1) fresh(5) b' by (auto simp: pool_ok_def list_all_iff)
          then show "cut (pb_data b') (pb_data b' + pb_capacity b') (take (pb_data b) mem @ i420_image im @ drop (pb_data b + sz) mem) =
              cut (pb_data b') (pb_data b' + pb_capacity b') mem"
            using cut_other [OF fresh(3), of b' "i420_image im" mem] d(2,3) cap assms(9) by (simp add: length_i420_image)
        qed
        moreover have "vf_valid ?g" using True by (simp add: vf_valid_def)
        ultimately show ?thesis using r es valid True known room got bs f d(3) by auto
      qed
    qed
  qed
qed

definition demo_image :: pixel_image where
  "demo_image = \<lparr>im_width = 2, im_height = 2, im_format = BGRA32, im_plane0 = demo_bgra, im_stride0 = 10, im_plane1 = [], im_stride1 = 0\<rparr>"

lemma camera_frames_exact_witness:
  "\<exists>f. fst (camera_step (\<lambda>f h. h) (End_Delivery 0 (Some demo_image) 7)
     (snd (camera_run (\<lambda>f h. h) demo_camera_session new_camera))) = [(0, f)] \<and> vf_valid f \<and> vf_width f = 2 \<and> vf_rtpTimestamp f = 0"
proof -
  define s where "s = snd (camera_run (\<lambda>f h. h) demo_camera_session new_camera)"
  define N where "N = unat (i420Size 1920 1080)"
  have s: "cam_inflight s = [(0, 0, 0)]" "cap_pools (cam_dev s) = [(new_pool_heap N kCapturePoolDepth, replicate (N * kCapturePoolDepth) 0)]"
    "dg_rtpEpoch (cap_delegates (cam_dev s) ! 0) = None"
    unfolding s_def N_def
    by (simp_all add: demo_camera_session_def new_camera_def cap_open_def demo_av_def find_camera_def new_mac_capture_def cap_start_def
        delivery_begin_def active_format_def new_video_format_def Let_def del: replicate_Suc)
  have N: "N = 3110400" unfolding N_def by (subst i420_size_bytes) (simp_all add: i420_bytes_def chromaWidth_def chromaHeight_def)
  obtain es s' where run: "camera_step (\<lambda>f h. h) (End_Delivery 0 (Some demo_image) 7) s = (es, s')" by force
  have "keeps_pool (\<lambda>f h. h)" "list_all image_fits demo_camera_session" "image_fits (End_Delivery 0 (Some demo_image) 7)"
    by (simp_all add: keeps_pool_def image_fits_def demo_camera_session_def demo_image_def)
  note exact = camera_frames_exact [OF this(1,2) s_def _ _ _ this(3) run refl refl, of 0 0 0]
  have "toRtp 7 7 kVideoRtpClockHz = 0" by (simp add: toRtp_def tdiv_def)
  then have "\<exists>f. es = [(0, f)] \<and> vf_valid f \<and> vf_width f = 2 \<and> vf_rtpTimestamp f = 0"
    using exact s N by (auto simp: demo_image_def known_format_def i420_bytes_def chromaWidth_def chromaHeight_def
        new_pool_heap_def create_pool_def live_buffers_def kCapturePoolDepth_def)
  then show ?thesis unfolding s_def [symmetric] run fst_conv .
qed
end
