(* ===== verification/Capture_Dump.thy ===== *)
theory Capture_Dump
  imports Camera
begin

text \<open>
  The recording tool tools/capture_dump.cpp: it opens the camera, writes the planes of the
  frames it is called with to a file, and reports what it wrote. The file is the byte list written; the frames the
  camera delivers come with the storage they point into.
\<close>

section \<open>capture_dump.cpp\<close>

definition written_rows :: "bytes \<Rightarrow> plane \<Rightarrow> int \<Rightarrow> int \<Rightarrow> bytes" where
  "written_rows mem p w h =
    concat (map (\<lambda>y. let a = the (pl_data p) + y * nat (pl_stride p) in cut a (a + nat w) mem) [0..<nat h])"

definition writeI420 :: "bytes \<Rightarrow> video_frame \<Rightarrow> bytes" where
  "writeI420 mem f =
    (let w = vf_width f; h = vf_height f; cw = tdiv (w + 1) 2; ch = tdiv (h + 1) 2
     in written_rows mem (vf_planes f ! 0) w h @ written_rows mem (vf_planes f ! 1) cw ch @ written_rows mem (vf_planes f ! 2) cw ch)"

record dump =
  du_captured :: int
  du_frameW :: int
  du_frameH :: int
  du_stamps :: "steady_time list"
  du_out :: bytes

definition new_dump :: dump where
  "new_dump = \<lparr>du_captured = 0, du_frameW = 0, du_frameH = 0, du_stamps = [], du_out = []\<rparr>"

definition onFrame :: "int \<Rightarrow> bytes \<times> video_frame \<Rightarrow> dump \<Rightarrow> dump" where
  "onFrame wantFrames mf d =
    (let (mem, f) = mf in
     if du_captured d \<ge> wantFrames then d
     else let d = (if du_frameW d = 0 then d\<lparr>du_frameW := vf_width f, du_frameH := vf_height f\<rparr> else d)
       in d\<lparr>du_out := du_out d @ writeI420 mem f, du_stamps := du_stamps d @ [vf_captureTime f],
            du_captured := du_captured d + 1\<rparr>)"

text \<open>The mean interval: nanoseconds to milliseconds as doubles.\<close>

definition avg_interval :: "steady_time list \<Rightarrow> rat" where
  "avg_interval stamps = (if length stamps \<ge> 2
     then ddiv (ddiv (d_of_int (last stamps - hd stamps)) 1000000) (d_of_int (int (length stamps) - 1)) else 0)"

record dump_report =
  rep_frames :: int
  rep_size :: "int \<times> int"
  rep_bytes :: u64
  rep_interval :: rat

definition dump_format :: video_format where
  "dump_format = new_video_format\<lparr>vfm_resolution := \<lparr>res_width = 640, res_height = 480\<rparr>, vfm_fpsNumerator := 30,
     vfm_fpsDenominator := 1, vfm_pixelFormat := I420\<rparr>"

text \<open>\<^verbatim>\<open>main\<close>: the exit code, the report and the file. The arguments are the command line, the camera system,
  whether the file opens, whether the session runs, and the frames delivered until the wait ends.\<close>

definition capture_dump :: "string option \<Rightarrow> av_system \<Rightarrow> bool \<Rightarrow> bool \<Rightarrow> (bytes \<times> video_frame) list \<Rightarrow>
    int \<times> dump_report option \<times> bytes" where
  "capture_dump arg av file running frames =
    (let wantFrames = (case arg of Some a \<Rightarrow> atoi a | None \<Rightarrow> 30) in
     if wantFrames \<le> 0 then (2, None, [])
     else let devices = macEnumerateCaptureDevices av;
              target = (case devices of [] \<Rightarrow> \<lparr>cdi_id = [], cdi_displayName = []\<rparr> | d # ds \<Rightarrow> d);
              (opened, dev) = cap_open av target dump_format new_mac_capture
       in if \<not> has_value opened then (1, None, [])
          else if \<not> file then (1, None, [])
          else let (started, dev) = cap_start running True dev in
            if \<not> has_value started then (1, None, [])
            else let d = fold (onFrame wantFrames) frames new_dump in
              if du_captured d = 0 then (1, None, du_out d)
              else (0, Some \<lparr>rep_frames = du_captured d, rep_size = (du_frameW d, du_frameH d),
                  rep_bytes = i420Size (du_frameW d) (du_frameH d) * of_int (du_captured d), rep_interval = avg_interval (du_stamps d)\<rparr>,
                du_out d))"

section \<open>What is written\<close>

text \<open>A frame holds a picture: its planes lie one behind the other in the storage, as \<open>makeI420\<close> lays them
  out, and these bytes are the picture.\<close>

definition holds :: "bytes \<Rightarrow> video_frame \<Rightarrow> int \<Rightarrow> int \<Rightarrow> bytes \<Rightarrow> bool" where
  "holds mem f w h bs \<longleftrightarrow> vf_valid f \<and> 0 < w \<and> w < 2 ^ 31 - 1 \<and> 0 < h \<and> h < 2 ^ 31 - 1 \<and> length bs = i420_bytes (nat w) (nat h) \<and>
     (\<exists>a b t. f\<lparr>vf_rtpTimestamp := 0\<rparr> = makeI420 (Some (a, b)) w h t \<and>
        pb_data b + length bs \<le> length mem \<and> cut (pb_data b) (pb_data b + length bs) mem = bs)"

lemma rows_together: "a + h * w \<le> length mem \<Longrightarrow>
    concat (map (\<lambda>y. cut (a + y * w) (a + y * w + w) mem) [0..<h]) = cut a (a + h * w) mem"
proof (induction h)
  case (Suc h)
  then have "cut a (a + h * w) mem @ cut (a + h * w) (a + h * w + w) mem = cut a (a + Suc h * w) mem"
    by (simp add: cut_def add.commute) (metis add.commute drop_drop take_add)
  then show ?case using Suc by simp
qed simp

lemma cut_parts: "a \<le> b \<Longrightarrow> b \<le> c \<Longrightarrow> cut a b mem @ cut b c mem = cut a c mem"
proof -
  assume le: "a \<le> b" "b \<le> c"
  then have "take (b - a + (c - b)) (drop a mem) = take (b - a) (drop a mem) @ take (c - b) (drop (b - a) (drop a mem))" by (rule_tac take_add)
  then show ?thesis using le by (simp add: cut_def)
qed

lemma write_holds:
  assumes "holds mem f w h bs" shows "writeI420 mem f = bs" "vf_width f = w" "vf_height f = h"
proof -
  obtain a b t where f: "f\<lparr>vf_rtpTimestamp := 0\<rparr> = makeI420 (Some (a, b)) w h t" and v: "vf_valid f"
    and pos: "0 < w" "w < 2 ^ 31 - 1" "0 < h" "h < 2 ^ 31 - 1"
    and bs: "length bs = i420_bytes (nat w) (nat h)" "pb_data b + length bs \<le> length mem" "cut (pb_data b) (pb_data b + length bs) mem = bs"
    using assms unfolding holds_def by blast
  let ?g = "makeI420 (Some (a, b)) w h t"
  have vg: "vf_valid ?g" using v unfolding f [symmetric] by (simp add: vf_valid_def)
  have same: "vf_width f = vf_width ?g" "vf_height f = vf_height ?g" "vf_planes f = vf_planes ?g"
    unfolding f [symmetric] by simp_all
  have size: "vf_width ?g = w" "vf_height ?g = h"
    using vg by (auto simp: makeI420_def vf_valid_def new_video_frame_def Let_def split: if_splits)
  then show "vf_width f = w" "vf_height f = h" using same by simp_all
  define cw ch where "cw = chromaWidth (nat w)" and "ch = chromaHeight (nat h)"
  have c: "nat ((w + 1) div 2) = cw" "nat ((h + 1) div 2) = ch" "tdiv (w + 1) 2 = int cw" "tdiv (h + 1) 2 = int ch"
    using pos by (simp_all add: cw_def ch_def chromaWidth_def chromaHeight_def nat_div_distrib nat_add_distrib tdiv_nonneg)
  have prod: "nat (w * h) = nat h * nat w" "nat ((w + 1) div 2 * ((h + 1) div 2)) = ch * cw"
    using pos c(1,2) by (simp_all add: nat_mult_distrib)
  let ?p = "pb_data b"
  have pl: "map pl_stride (vf_planes ?g) = [w, int cw, int cw]"
    "map pl_data (vf_planes ?g) = [Some ?p, Some (?p + nat h * nat w), Some (?p + nat h * nat w + ch * cw)]"
    using makeI420_planes [OF pos(2,4) refl refl refl, of a b t] vg prod c pos by (simp_all add: tdiv_nonneg)
  obtain p0 p1 p2 where ps: "vf_planes ?g = [p0, p1, p2]" using pl(1) by (auto simp: map_eq_Cons_conv)
  have n: "length bs = nat h * nat w + ch * cw + ch * cw" by (simp add: bs(1) i420_bytes_def cw_def ch_def mult.commute)
  have "written_rows mem p0 w h = cut ?p (?p + nat h * nat w) mem"
    "written_rows mem p1 (int cw) (int ch) = cut (?p + nat h * nat w) (?p + nat h * nat w + ch * cw) mem"
    "written_rows mem p2 (int cw) (int ch) = cut (?p + nat h * nat w + ch * cw) (?p + nat h * nat w + ch * cw + ch * cw) mem"
    using bs(2) n pl by (simp_all add: written_rows_def Let_def ps rows_together)
  then have "writeI420 mem f = cut ?p (?p + nat h * nat w) mem @ cut (?p + nat h * nat w) (?p + nat h * nat w + ch * cw) mem @
      cut (?p + nat h * nat w + ch * cw) (?p + nat h * nat w + ch * cw + ch * cw) mem"
    by (simp add: writeI420_def Let_def same size c ps)
  also have "\<dots> = cut ?p (?p + length bs) mem" by (simp add: cut_parts n add.assoc)
  finally show "writeI420 mem f = bs" using bs(3) by simp
qed

text \<open>The frame a delivery hands to its callback holds the converted picture of the image.\<close>

lemma delivery_holds:
  assumes "storages_ok c" "n < length (cap_delegates c)" "k < length (cap_pools c)"
    "im_width im < 2 ^ 31 - 1" "im_height im < 2 ^ 31 - 1" "delivery_end sink n k (Some im) now c = (Some f, c')"
  shows "holds (snd (cap_pools c' ! k)) f (im_width im) (im_height im) (i420_image im)"
proof -
  obtain hp mem where st: "cap_pools c ! k = (hp, mem)" by fastforce
  then have ok: "storage_ok (hp, mem)" using assms(1,3) by (metis list_all_length storages_ok_def)
  obtain a b hp' where got: "acquire_ptr hp = (Some (a, b), hp')" and pos: "0 < im_width im" "0 < im_height im"
    and v: "vf_valid (makeI420 (Some (a, b)) (im_width im) (im_height im) now)"
    using assms(6) by (auto simp: delivery_end_def Let_def st split: if_splits option.splits prod.splits)
  let ?f = "makeI420 (Some (a, b)) (im_width im) (im_height im) now"
  define n' where "n' = i420_bytes (nat (im_width im)) (nat (im_height im))"
  note d = delivery_frame [OF ok got assms(4,5) v n'_def]
  have f: "f\<lparr>vf_rtpTimestamp := 0\<rparr> = ?f" "vf_valid f"
    and m: "snd (cap_pools c' ! k) = take (pb_data b) mem @ i420_image im @ drop (pb_data b + n') mem"
    using assms(2,3,6) got pos v d(1,4) by (auto simp: delivery_end_def Let_def st plane_base_def makeI420_def new_video_frame_def vf_valid_def split: if_splits)
  have "length (i420_image im) = n'" by (simp add: length_i420_image n'_def)
  then have "pb_data b + length (i420_image im) \<le> length (snd (cap_pools c' ! k))"
    "cut (pb_data b) (pb_data b + length (i420_image im)) (snd (cap_pools c' ! k)) = i420_image im"
    using d(3) by (simp_all add: m cut_def)
  then show ?thesis using f pos assms(4,5) unfolding holds_def by (auto simp: length_i420_image)
qed

lemma onFrame_fold:
  assumes "list_all2 (\<lambda>(mem, f). holds mem f w h) frames pics" "du_captured d = int j" "int j \<le> want"
    "j > 0 \<longrightarrow> du_frameW d = w \<and> du_frameH d = h" "j = 0 \<longrightarrow> du_frameW d = 0"
  shows "du_out (fold (onFrame want) frames d) = du_out d @ concat (take (nat want - j) pics) \<and>
    du_captured (fold (onFrame want) frames d) = min want (int (j + length pics)) \<and>
    (j + length pics > 0 \<and> want > 0 \<longrightarrow> du_frameW (fold (onFrame want) frames d) = w \<and> du_frameH (fold (onFrame want) frames d) = h)"
  using assms
proof (induction arbitrary: d j rule: list_all2_induct)
  case Nil then show ?case by simp
next
  case (Cons mf frames bs pics)
  obtain mem f where mf: "mf = (mem, f)" by fastforce
  show ?case
  proof (cases "int j \<ge> want")
    case True
    then have "onFrame want mf d = d" "nat want = j" using Cons.prems by (auto simp: onFrame_def mf Let_def)
    then show ?thesis using Cons.IH [OF Cons.prems] Cons.prems by auto
  next
    case False
    note wr = write_holds [of mem f w h bs]
    have h: "holds mem f w h bs" using Cons.hyps by (simp add: mf)
    then have w0: "w \<noteq> 0" by (auto simp: holds_def)
    let ?d = "onFrame want mf d"
    have d: "du_out ?d = du_out d @ bs" "du_captured ?d = int (Suc j)" "du_frameW ?d = w \<and> du_frameH ?d = h"
      using False Cons.prems wr [OF h] w0 by (auto simp: onFrame_def mf Let_def)
    have "nat want - j = Suc (nat want - Suc j)" using False by simp
    then show ?thesis using Cons.IH [of ?d "Suc j"] d False Cons.prems(2) by auto
  qed
qed

text \<open>The file holds the pictures of the first frames delivered, in order and as many as were asked for, and the
  report gives their number, their size and the length of the file; a report is made exactly when the camera
  opened and started, the file opened and a frame came.\<close>

lemma dump_exact:
  assumes "list_all2 (\<lambda>(mem, f). holds mem f w h) frames pics" "want = (case arg of Some a \<Rightarrow> atoi a | None \<Rightarrow> 30)"
    "capture_dump arg av file running frames = (code, rep, file_bytes)"
  shows "case rep of
      None \<Rightarrow> code \<noteq> 0 \<and> file_bytes = []
    | Some r \<Rightarrow> code = 0 \<and> want > 0 \<and> pics \<noteq> [] \<and> file_bytes = concat (take (nat want) pics) \<and>
        rep_frames r = min want (int (length pics)) \<and> rep_size r = (w, h) \<and> rep_bytes r = of_nat (length file_bytes)"
proof -
  note all = onFrame_fold [OF assms(1), of new_dump 0 want, simplified]
  let ?d = "fold (onFrame want) frames new_dump"
  have pic: "length bs = unat (i420Size w h)" if mem: "bs \<in> set pics" for bs
  proof -
    obtain mem f where "holds mem f w h bs" using assms(1) mem by (fastforce simp: list_all2_conv_all_nth in_set_conv_nth split_beta)
    then show ?thesis by (auto simp: holds_def i420_size_bytes)
  qed
  have size: "of_nat (length (concat (take m pics))) = i420Size w h * of_nat (min m (length pics))" for m
  proof -
    have "length (concat xs) = unat (i420Size w h) * length xs" if "set xs \<subseteq> set pics" for xs
      using that by (induction xs) (auto simp: pic algebra_simps)
    from this [of "take m pics"] show ?thesis by (simp add: set_take_subset min.commute)
  qed
  have d: "du_out ?d = concat (take (nat want) pics)" "du_captured ?d = min want (int (length pics))"
    "pics \<noteq> [] \<Longrightarrow> du_frameW ?d = w \<and> du_frameH ?d = h" if "want > 0"
    using all that by (auto simp: new_dump_def)
  have count: "of_int (min want (int (length pics))) = (of_nat (min (nat want) (length pics)) :: u64)" if "want > 0"
    using that by (simp add: min_def nat_le_iff)
  have none: "du_captured ?d = 0 \<longleftrightarrow> pics = []" if "want > 0" using d(2) [OF that] that by (auto simp: min_def split: if_splits)
  have bytes: "i420Size w h * of_int (min want (int (length pics))) = of_nat (length (concat (take (nat want) pics)))" if "want > 0"
    using d [OF that(1)] count [OF that(1)] size [of "nat want"] by simp
  show ?thesis
  proof (cases "want > 0")
    case True
    show ?thesis using assms(3) d [OF True] none [OF True] bytes [OF True] True
      by (cases "pics = []") (auto simp: capture_dump_def Let_def assms(2) [symmetric] simp del: take_all_iff split: if_splits prod.splits)
  qed (use assms(3) in \<open>auto simp: capture_dump_def assms(2) [symmetric]\<close>)
qed

end
