(* ===== verification/Settings.thy ===== *)
theory Settings
  imports Prelude
begin

text \<open>
  The device picker SettingsDialog (src/src/ui/SettingsDialog.h, .cpp): two combo boxes filled with lists of
  devices, the ids of the current entries, and the signals the dialog emits. The combo box is a widget of
  Qt: a record of its functions over an abstract state, with its documented behaviour as the hypothesis \<open>combo_ok\<close>.
\<close>

section \<open>The combo box\<close>

record 'b combo_lib =
  cb_clear :: "'b \<Rightarrow> 'b"
  cb_addItem :: "string \<Rightarrow> string \<Rightarrow> 'b \<Rightarrow> 'b"
  cb_findData :: "string \<Rightarrow> 'b \<Rightarrow> int"
  cb_setCurrentIndex :: "int \<Rightarrow> 'b \<Rightarrow> 'b"
  cb_count :: "'b \<Rightarrow> int"
  cb_currentData :: "'b \<Rightarrow> string option"

text \<open>The documented behaviour, for the entries (text and data) and the current one of a box: the first entry
  added to an empty box becomes current, and an index outside the list leaves none.\<close>

fun find_entry :: "string \<Rightarrow> (string \<times> string) list \<Rightarrow> nat option" where
  "find_entry d [] = None"
| "find_entry d (e # es) = (if snd e = d then Some 0 else map_option Suc (find_entry d es))"

definition combo_ok :: "'b combo_lib \<Rightarrow> ('b \<Rightarrow> (string \<times> string) list) \<Rightarrow> ('b \<Rightarrow> nat option) \<Rightarrow> bool" where
  "combo_ok lib entries current \<longleftrightarrow>
    (\<forall>b. entries (cb_clear lib b) = [] \<and> current (cb_clear lib b) = None) \<and>
    (\<forall>t d b. entries (cb_addItem lib t d b) = entries b @ [(t, d)] \<and>
      current (cb_addItem lib t d b) = (if entries b = [] then Some 0 else current b)) \<and>
    (\<forall>i b. entries (cb_setCurrentIndex lib i b) = entries b \<and>
      current (cb_setCurrentIndex lib i b) = (if 0 \<le> i \<and> i < int (length (entries b)) then Some (nat i) else None)) \<and>
    (\<forall>d b. cb_findData lib d b = (case find_entry d (entries b) of None \<Rightarrow> -1 | Some i \<Rightarrow> int i)) \<and>
    (\<forall>b. cb_count lib b = int (length (entries b))) \<and>
    (\<forall>b. cb_currentData lib b = map_option (\<lambda>i. snd (entries b ! i)) (current b))"

section \<open>The dialog\<close>

type_synonym device_list = "(string \<times> string) list"

record 'b settings =
  se_cameraBox :: 'b
  se_micBox :: 'b

datatype settings_signal = CameraSelected string | MicSelected string

definition settings_repopulate :: "'b combo_lib \<Rightarrow> device_list \<Rightarrow> 'b \<Rightarrow> 'b" where
  "settings_repopulate lib ds box =
    (let prevId = (case cb_currentData lib box of Some d \<Rightarrow> d | None \<Rightarrow> []);
         box = fold (\<lambda>(i, name). cb_addItem lib name i) ds (cb_clear lib box);
         idx = cb_findData lib prevId box
     in if prevId \<noteq> [] \<and> idx \<ge> 0 then cb_setCurrentIndex lib idx box
        else if cb_count lib box > 0 then cb_setCurrentIndex lib 0 box else box)"

definition setCameras :: "'b combo_lib \<Rightarrow> device_list \<Rightarrow> 'b settings \<Rightarrow> settings_signal list \<times> 'b settings" where
  "setCameras lib ds s = ([], s\<lparr>se_cameraBox := settings_repopulate lib ds (se_cameraBox s)\<rparr>)"

definition setMicrophones :: "'b combo_lib \<Rightarrow> device_list \<Rightarrow> 'b settings \<Rightarrow> settings_signal list \<times> 'b settings" where
  "setMicrophones lib ds s = ([], s\<lparr>se_micBox := settings_repopulate lib ds (se_micBox s)\<rparr>)"

definition selected_id :: "'b combo_lib \<Rightarrow> 'b \<Rightarrow> string" where
  "selected_id lib box = (case cb_currentData lib box of Some d \<Rightarrow> d | None \<Rightarrow> [])"

definition selectedCameraId :: "'b combo_lib \<Rightarrow> 'b settings \<Rightarrow> string" where
  "selectedCameraId lib s = selected_id lib (se_cameraBox s)"

definition selectedMicId :: "'b combo_lib \<Rightarrow> 'b settings \<Rightarrow> string" where
  "selectedMicId lib s = selected_id lib (se_micBox s)"

text \<open>\<^verbatim>\<open>currentIndexChanged\<close>, connected to the signals of the dialog, after the user picked an entry.\<close>

definition camera_changed :: "'b combo_lib \<Rightarrow> 'b settings \<Rightarrow> settings_signal list" where
  "camera_changed lib s = [CameraSelected (selectedCameraId lib s)]"

definition mic_changed :: "'b combo_lib \<Rightarrow> 'b settings \<Rightarrow> settings_signal list" where
  "mic_changed lib s = [MicSelected (selectedMicId lib s)]"

text \<open>The two constructors, over two fresh boxes.\<close>

definition new_settings :: "'b \<Rightarrow> 'b \<Rightarrow> 'b settings" where
  "new_settings camera mic = \<lparr>se_cameraBox = camera, se_micBox = mic\<rparr>"

definition new_settings_with :: "'b combo_lib \<Rightarrow> 'b \<Rightarrow> 'b \<Rightarrow> device_list \<Rightarrow> device_list \<Rightarrow> 'b settings" where
  "new_settings_with lib camera mic cams mics =
    snd (setMicrophones lib mics (snd (setCameras lib cams (new_settings camera mic))))"

section \<open>The selection\<close>

lemma find_entry_some: "find_entry d es = Some i \<Longrightarrow> i < length es \<and> snd (es ! i) = d"
  by (induction es arbitrary: i) (auto split: if_splits)

lemma find_entry_none: "find_entry d es = None \<longleftrightarrow> d \<notin> snd ` set es"
  by (induction es) auto

lemma selected_current: "combo_ok lib entries current \<Longrightarrow>
    selected_id lib b = (case current b of None \<Rightarrow> [] | Some i \<Rightarrow> snd (entries b ! i))"
  by (auto simp: combo_ok_def selected_id_def split: option.split)

lemma repopulate_entries:
  assumes "combo_ok lib entries current"
  shows "entries (settings_repopulate lib ds box) = map (\<lambda>(i, name). (name, i)) ds"
    "selected_id lib (settings_repopulate lib ds box) =
      (let prev = selected_id lib box in
       if prev \<noteq> [] \<and> prev \<in> fst ` set ds then prev else case ds of [] \<Rightarrow> [] | d # _ \<Rightarrow> fst d)"
proof -
  let ?es = "map (\<lambda>(i, name). (name, i)) ds"
  define filled where "filled = fold (\<lambda>(i, name). cb_addItem lib name i) ds (cb_clear lib box)"
  define prev where "prev = selected_id lib box"
  note ok = assms [unfolded combo_ok_def]
  have added: "entries (fold (\<lambda>(i, name). cb_addItem lib name i) xs b) = entries b @ map (\<lambda>(i, name). (name, i)) xs" for xs b
    using ok by (induction xs arbitrary: b) (auto simp: split_beta)
  then have filled: "entries filled = ?es" using ok by (simp add: filled_def)
  have empty: "current filled = None" if "ds = []" using ok that by (simp add: filled_def)
  have r: "settings_repopulate lib ds box =
    (if prev \<noteq> [] \<and> cb_findData lib prev filled \<ge> 0 then cb_setCurrentIndex lib (cb_findData lib prev filled) filled
     else if cb_count lib filled > 0 then cb_setCurrentIndex lib 0 filled else filled)"
    by (simp add: settings_repopulate_def filled_def prev_def selected_id_def Let_def)
  then show "entries (settings_repopulate lib ds box) = ?es" using ok filled by simp
  have find: "cb_findData lib prev filled = (case find_entry prev ?es of None \<Rightarrow> -1 | Some i \<Rightarrow> int i)"
    and count: "cb_count lib filled = int (length ds)" using ok filled by simp_all
  have set: "selected_id lib (cb_setCurrentIndex lib (int i) filled) = snd (?es ! i)" if "i < length ds" for i
    using ok filled that by (simp add: selected_current [OF assms])
  have ids: "snd ` set ?es = fst ` set ds" by force
  have "selected_id lib (settings_repopulate lib ds box) =
      (if prev \<noteq> [] \<and> prev \<in> fst ` set ds then prev else case ds of [] \<Rightarrow> [] | d # _ \<Rightarrow> fst d)"
  proof (cases "prev \<noteq> [] \<and> prev \<in> fst ` set ds")
    case True
    then obtain i where i: "find_entry prev ?es = Some i" using find_entry_none [of prev ?es] ids by (metis option.exhaust)
    then show ?thesis using True find_entry_some [OF i] set [of i] find by (auto simp: r split_beta)
  next
    case False
    then have "find_entry prev ?es = None \<or> prev = []" using find_entry_none [of prev ?es] ids by blast
    then have "settings_repopulate lib ds box = (if ds \<noteq> [] then cb_setCurrentIndex lib (int 0) filled else filled)"
      using find count by (auto simp: r)
    then show ?thesis using False set [of 0] empty by (auto simp: selected_current [OF assms, of filled] split: list.split)
  qed
  then show "selected_id lib (settings_repopulate lib ds box) =
      (let prev = selected_id lib box in
       if prev \<noteq> [] \<and> prev \<in> fst ` set ds then prev else case ds of [] \<Rightarrow> [] | d # _ \<Rightarrow> fst d)" by (simp add: prev_def)
qed

text \<open>New lists keep what was selected as long as it is among them; else the first entry is selected, or nothing.
  No signal says so. The box of the other kind is untouched.\<close>

lemma device_selection:
  assumes "combo_ok lib entries current" "setCameras lib cams s = (sig, s')" "setMicrophones lib mics s' = (sig', s'')"
  shows "sig @ sig' = []"
    "selectedCameraId lib s'' = (if selectedCameraId lib s \<noteq> [] \<and> selectedCameraId lib s \<in> fst ` set cams
       then selectedCameraId lib s else case cams of [] \<Rightarrow> [] | d # _ \<Rightarrow> fst d)"
    "selectedMicId lib s'' = (if selectedMicId lib s \<noteq> [] \<and> selectedMicId lib s \<in> fst ` set mics
       then selectedMicId lib s else case mics of [] \<Rightarrow> [] | d # _ \<Rightarrow> fst d)"
proof -
  have "s' = s\<lparr>se_cameraBox := settings_repopulate lib cams (se_cameraBox s)\<rparr>"
    "s'' = s'\<lparr>se_micBox := settings_repopulate lib mics (se_micBox s)\<rparr>"
    using assms(2,3) by (auto simp: setCameras_def setMicrophones_def)
  then show "selectedCameraId lib s'' = (if selectedCameraId lib s \<noteq> [] \<and> selectedCameraId lib s \<in> fst ` set cams
       then selectedCameraId lib s else case cams of [] \<Rightarrow> [] | d # _ \<Rightarrow> fst d)"
    "selectedMicId lib s'' = (if selectedMicId lib s \<noteq> [] \<and> selectedMicId lib s \<in> fst ` set mics
       then selectedMicId lib s else case mics of [] \<Rightarrow> [] | d # _ \<Rightarrow> fst d)"
    using repopulate_entries(2) [OF assms(1)] by (simp_all add: selectedCameraId_def selectedMicId_def Let_def)
qed (use assms(2,3) in \<open>auto simp: setCameras_def setMicrophones_def\<close>)

text \<open>The behaviour is that of a list with a current index.\<close>

definition list_combo :: "((string \<times> string) list \<times> nat option) combo_lib" where
  "list_combo = \<lparr>cb_clear = (\<lambda>b. ([], None)), cb_addItem = (\<lambda>t d (es, c). (es @ [(t, d)], if es = [] then Some 0 else c)),
     cb_findData = (\<lambda>d b. case find_entry d (fst b) of None \<Rightarrow> -1 | Some i \<Rightarrow> int i),
     cb_setCurrentIndex = (\<lambda>i (es, c). (es, if 0 \<le> i \<and> i < int (length es) then Some (nat i) else None)),
     cb_count = (\<lambda>b. int (length (fst b))), cb_currentData = (\<lambda>b. map_option (\<lambda>i. snd (fst b ! i)) (snd b))\<rparr>"

lemma list_combo_ok: "combo_ok list_combo fst snd"
  by (simp add: combo_ok_def list_combo_def split_beta)

lemma device_selection_witness:
  "selectedCameraId list_combo (snd (setCameras list_combo [(''b'', ''B''), (''c'', ''C'')]
     (new_settings_with list_combo ([], None) ([], None) [(''a'', ''A''), (''c'', ''C'')] []))) = ''b''"
proof -
  let ?s = "new_settings_with list_combo ([], None) ([], None) [(''a'', ''A''), (''c'', ''C'')] []"
  obtain sig s' where "setCameras list_combo [(''b'', ''B''), (''c'', ''C'')] ?s = (sig, s')" by fastforce
  moreover obtain sig' s'' where "setMicrophones list_combo [] s' = (sig', s'')" by fastforce
  moreover have "selectedCameraId list_combo ?s = ''a''" by code_simp
  ultimately show ?thesis using device_selection(2) [OF list_combo_ok, of _ ?s sig s' "[]" sig' s'']
    by (auto simp: setMicrophones_def selectedCameraId_def)
qed

end
