(* ===== verification/Spec2Isabelle.thy ===== *)
theory Spec2Isabelle
  imports Prelude Double Common Serial Rtp Rtp_Handler Jitter Registry Sfu Sfu_Threads Rooms AvSync Metrics Pool Pixel Sha1 Websocket Nat_Traversal Dtls_Srtp Transport Codec Pipeline Router Call_Window Video_Widget Sfu_App Group_Call Audio_Device Camera Capture_Dump Settings
begin

text \<open>
  Vela is a multi-party video calling system with its own RTP stack. A client captures and
  encodes video and audio, packetizes it and sends it up one ICE channel; the server forwards
  the packets to the other members of the room; a client demultiplexes what comes back by source, reorders it in
  jitter buffers, decodes and shows it. This library models the C++ of that path and of the
  signaling beside it, and proves what makes each part correct. Each theory opens with what it holds; a
  definition has the name of the function it models wherever Isabelle allows it.

  \<^bold>\<open>Parts and theories.\<close>
  \<^item> \<open>Prelude\<close>: machine integers as words, byte buffers, association lists for maps, truncated
    division, decimal text, the collections of hints. \<open>Double\<close>: IEEE-754 doubles as rational numbers,
    with rounding to 53 bits.
  \<^item> \<open>Common\<close>: the error codes, \<^verbatim>\<open>Result\<close>, media types and the encoded frame (src/src/common).
  \<^item> \<open>Pool\<close>: the frame pool with the reference counts of its buffers, and the frames laid over a
    buffer (FramePool.h, VideoFrame.h, AudioFrame.h). \<open>Pixel\<close>: pixel conversion and the synthetic
    source (PixelConvert.h, MockFrameSource.cpp). \<open>Camera\<close>: the capture interface and its backends
    (src/src/capture), with \<open>Capture_Dump\<close> the tool that records its frames to a file (tools/capture_dump.cpp). \<open>Audio_Device\<close>: re-chunking of the
    microphone and the playback queue (MacAudio.mm). \<open>Codec\<close>: the encoder and decoder wrappers
    (src/src/codec).
  \<^item> \<open>Rtp\<close>, \<open>Rtp_Handler\<close>, \<open>Serial\<close>, \<open>Jitter\<close>: the packet on the wire, the H.264 and Opus packetizer,
    serial-number order and the jitter buffer (src/src/network). \<open>Pipeline\<close>, \<open>Router\<close>, \<open>AvSync\<close>: their
    composition with the codecs into send and receive paths, the demultiplexer of a call and lip
    synchronisation (src/src/media).
  \<^item> \<open>Registry\<close>: the contract of a bounded membership. \<open>Sfu\<close>: the forwarding unit (src/src/sfu).
    \<open>Sfu_Threads\<close>: the same unit under several threads, each call split at its locks.
    \<open>Rooms\<close>: the room registry and message handler of the relay server (signaling-server).
    \<open>Sfu_App\<close>: the integrated media server, with its handlers, deferred closures and transport
    callbacks around the forwarding unit (sfu-server/main.cpp).
  \<^item> \<open>Sha1\<close>, \<open>Websocket\<close>: the signaling client with its own WebSocket implementation
    (SignalingClient.cpp). \<open>Nat_Traversal\<close>, \<open>Dtls_Srtp\<close>, \<open>Transport\<close>: the ICE wrapper, the key
    exchange and the packet transport over both (src/src/signaling).
  \<^item> \<open>Call_Window\<close>, \<open>Video_Widget\<close>: the tile grid of a call and the tile that shows a stream (src/src/ui).
    \<open>Group_Call\<close>: the call program, which joins router, window, send pipeline, transport and
    signaling (group_call.cpp). \<open>Settings\<close>: the device picker (SettingsDialog.cpp).
  \<^item> \<open>Metrics\<close>: histogram, loss estimator and CPU sampler (src/src/metrics).

  \<^bold>\<open>How code is modelled.\<close> A class is a record and a method a function on it; the records of two
  objects that the code keeps in step are nested as the objects are. A method that takes a mutex for its
  whole body is one step, and a run of several threads is any sequence of such steps; where the code gives up a
  mutex in the middle (the forwarding unit, a camera delivery) the method is split there.
  \<^verbatim>\<open>Result\<close> is a sum with the error on the left. A callback is an event in the list that a step
  returns, in the order of the calls; where a callback acts on the caller's memory that action is a
  parameter. An \<^verbatim>\<open>unordered_map\<close> is an association list whose order no property depends on; the
  maps that are iterated in key order are sorted lists, for timestamps under the circular comparison
  of the code. Memory is a byte list and a pointer an offset; sizes that the code computes in
  \<^verbatim>\<open>size_t\<close> are 64-bit words, sequence numbers 16-bit and timestamps 32-bit ones; an \<^verbatim>\<open>int\<close> is
  an integer with its bound as a premise where it could overflow.

  \<^bold>\<open>Parameters.\<close> FFmpeg, Opus, libjuice, OpenSSL, libsrtp, the JSON library, the sockets and the clocks
  are not part of the repository. Each enters as an argument: the result of its call, or a record of its
  functions over an abstract state. What the code relies on (a plane copy copies rows, the decoder
  writes no more samples than it has room for, protect and unprotect invert each other while two sessions are
  in step, the decimal of a number parses back) is a named hypothesis of the properties that need it,
  and each of those has a witness that instantiates it with a concrete function.

  \<^bold>\<open>What is shown.\<close> The wire: serializing and parsing, splitting and joining NAL units,
  packetizing and reassembling are inverse to each other, with the payload bounds and the errors of every
  malformed input. The receive path: a frame comes out of the jitter buffer exactly once, whole and in
  order, for every arrival order; losses are detected as far as the code detects them, and the
  case it does not detect is stated. The composed paths: from a captured frame to the
  decoder of the receiver, from one transport to another through encryption, and the protocol of the
  callbacks of a call. The servers: room membership, capacity, isolation, forwarding to
  exactly the others, bitrate feedback. The memory: buffers never overlap, conversion and decoding
  write exactly the bytes they should. The security state machine: nothing leaves or enters a secured
  transport unprotected or before the peer's fingerprint was verified.

  \<^bold>\<open>Loops and bounds.\<close> Every loop is a total function: on list structure, or with a measure (the
  bytes left, the distance to the last sequence number, the frames left in a buffer). Only two loops run on
  outside behaviour: the DTLS handshake, which has the number of rounds of its deadline as fuel, and
  the network thread of the signaling client, which ends with the received stream or when the given reads
  of the stop flag say so.

  \<^bold>\<open>Not modelled.\<close> Code that only builds or draws widgets: the layout of the settings dialog, the
  button bar, the GLSL text of the two shaders; logging (Log.cpp). Test programs, benchmarks
  and demo programs (test_*.cpp, bench, tools/contracts_selfcheck.cpp, ui/main.cpp, ui/loopback_call.cpp, audio_loopback.cpp,
  sfu-server/smoketest.cpp), which exercise the
  modelled parts. The browser client (web), which is another language and shares no code. Inside
  modelled files: the creation of the certificate and the TLS context, the event loops of the
  servers, log lines.
\<close>

end
